(* ===== verification/Prelude.thy ===== *)
theory Prelude
  imports Main "HOL-Library.Word"
begin

text \<open>
  What every component of the HTTP cache filter shares: the types that stand for the C++
  integers, bytes and strings, the outcome of a C++ function (a value, undefined behaviour or
  divergence), the block size of \<^verbatim>\<open>ring_buffer.h\<close>, \<^verbatim>\<open>memcpy\<close>, and generic lemmas on lists and
  32-bit words.
\<close>

section \<open>Lemma collections\<close>

named_theorems u32_simps \<open>unsigned values of 32-bit arithmetic that does not wrap\<close>
named_theorems run_simps \<open>sequencing of outcomes\<close>

section \<open>Bytes, strings, integers\<close>

text \<open>
  A byte (\<^verbatim>\<open>uint8_t\<close>, \<^verbatim>\<open>char\<close>) is an 8-bit \<open>char\<close>; a \<^verbatim>\<open>std::string\<close>, a \<^verbatim>\<open>string_view\<close>, a
  byte array and the content of a \<^verbatim>\<open>Buffer::Instance\<close> are lists of bytes. \<^verbatim>\<open>uint32_t\<close> and
  \<^verbatim>\<open>size_t\<close> keep their widths.
\<close>

type_synonym byte = char
type_synonym bytes = "byte list"
type_synonym u32 = "32 word"
type_synonym u64 = "64 word"

definition UINT32_MAX :: u32 where
  "UINT32_MAX = 4294967295"

definition BLOCK_SIZE_BYTES :: nat where
  "BLOCK_SIZE_BYTES = 64"

section \<open>Outcomes\<close>

text \<open>
  Undefined behaviour and escaping exceptions are values of \<open>fault\<close>. A function that always
  returns or faults has type \<open>fault + 'a\<close>; a function with a loop that may run forever has type
  \<open>'a run\<close>, where \<open>None\<close> is divergence.
\<close>

datatype fault =
    NullDeref        \<comment> \<open>a null \<^verbatim>\<open>shared_ptr\<close> or \<^verbatim>\<open>unique_ptr\<close> is dereferenced\<close>
  | OutOfBounds      \<comment> \<open>an array access, \<^verbatim>\<open>memcpy\<close> or \<^verbatim>\<open>vector::at\<close> past the end\<close>
  | BadIterator      \<comment> \<open>an iterator or reference to an erased list node is used\<close>
  | EmptyContainer   \<comment> \<open>\<^verbatim>\<open>front\<close>, \<^verbatim>\<open>back\<close> or \<^verbatim>\<open>*begin\<close> of an empty container\<close>

type_synonym 'a run = "(fault + 'a) option"

definition bindR :: "(fault + 'a) \<Rightarrow> ('a \<Rightarrow> fault + 'b) \<Rightarrow> (fault + 'b)" where
  "bindR x f = (case x of Inl e \<Rightarrow> Inl e | Inr a \<Rightarrow> f a)"

definition bindRun :: "'a run \<Rightarrow> ('a \<Rightarrow> 'b run) \<Rightarrow> 'b run" where
  "bindRun x f = (case x of None \<Rightarrow> None | Some r \<Rightarrow> (case r of Inl e \<Rightarrow> Some (Inl e) | Inr a \<Rightarrow> f a))"

lemma bindR_simps [simp]: "bindR (Inl e) f = Inl e" "bindR (Inr a) f = f a"
  by (simp_all add: bindR_def)

lemma bindRun_simps [simp]:
  "bindRun None f = None" "bindRun (Some (Inl e)) f = Some (Inl e)" "bindRun (Some (Inr a)) f = f a"
  by (simp_all add: bindRun_def)

lemma bindR_Inr_iff: "bindR x f = Inr b \<longleftrightarrow> (\<exists>a. x = Inr a \<and> f a = Inr b)"
  by (cases x) auto

lemma bindRun_Inr_iff:
  "bindRun x f = Some (Inr b) \<longleftrightarrow> (\<exists>a. x = Some (Inr a) \<and> f a = Some (Inr b))"
  by (auto simp: bindRun_def split: option.splits sum.splits)

lemma bindRun_assoc: "bindRun (bindRun x f) g = bindRun x (\<lambda>a. bindRun (f a) g)"
  by (auto simp: bindRun_def split: option.splits sum.splits)

section \<open>Memory blocks\<close>

text \<open>\<open>memcpy_at off src dst\<close> is \<^verbatim>\<open>memcpy(dst + off, src, n)\<close> with \<open>n\<close> the length of \<open>src\<close>.\<close>

definition memcpy_at :: "nat \<Rightarrow> bytes \<Rightarrow> bytes \<Rightarrow> bytes" where
  "memcpy_at off src dst = take off dst @ src @ drop (off + length src) dst"

lemma length_memcpy_at [simp]:
  "off + length src \<le> length dst \<Longrightarrow> length (memcpy_at off src dst) = length dst"
  by (simp add: memcpy_at_def)

lemma take_memcpy_at:
  "off \<le> length dst \<Longrightarrow> take (off + length src) (memcpy_at off src dst) = take off dst @ src"
  by (simp add: memcpy_at_def)

lemma take_memcpy_at_0: "take (length src) (memcpy_at 0 src dst) = src"
  by (simp add: memcpy_at_def)

lemma memcpy_at_0_full: "length src = length dst \<Longrightarrow> memcpy_at 0 src dst = src"
  by (simp add: memcpy_at_def)

section \<open>32-bit words\<close>

lemma unat_u32_less [simp]: "unat (x :: u32) < 4294967296"
  using unsigned_less [of x] by simp

lemma unat_u32_le [simp]: "unat (x :: u32) \<le> 4294967295"
  by (rule less_Suc_eq_le [THEN iffD1]) simp

lemma unat_UINT32_MAX [simp]: "unat UINT32_MAX = 4294967295"
  by (simp add: UINT32_MAX_def)

lemma u32_le_UINT32_MAX [simp]: "x \<le> UINT32_MAX"
  by (simp add: word_le_nat_alt)

lemma unat_plus1_u32 [u32_simps]:
  "unat (x :: u32) < 4294967295 \<Longrightarrow> unat (x + 1) = Suc (unat x)"
  by (simp add: unat_word_ariths)

lemma unat_of_nat_u32 [u32_simps]: "n < 4294967296 \<Longrightarrow> unat (of_nat n :: u32) = n"
  by (simp add: unat_of_nat)

lemma unat_plus_u32 [u32_simps]:
  "unat (x :: u32) + unat y < 4294967296 \<Longrightarrow> unat (x + y) = unat x + unat y"
  by (simp add: unat_word_ariths)

lemma unat_plus_64_u32:
  "unat (x :: u32) + 64 \<le> 4294967296 \<Longrightarrow>
     unat (x + 64) = (if unat x + 64 = 4294967296 then 0 else unat x + 64)"
  by (simp add: unat_word_ariths)

lemma unat_BLOCK_SIZE [simp]: "unat (of_nat BLOCK_SIZE_BYTES :: u32) = BLOCK_SIZE_BYTES"
  by (simp add: BLOCK_SIZE_BYTES_def)

lemma BLOCK_pos [simp]: "0 < BLOCK_SIZE_BYTES"
  by (simp add: BLOCK_SIZE_BYTES_def)

text \<open>Parity of a version number survives the addition of 2, also when it wraps around.\<close>

lemma u32_mod_2_unat: "(x :: u32) mod 2 = 1 \<longleftrightarrow> odd (unat x)"
proof -
  have "unat (x mod 2) = unat x mod 2"
    by (simp add: unat_mod)
  then show ?thesis
    by (metis odd_iff_mod_2_eq_one unat_1 word_unat_eq_iff)
qed

lemma odd_unat_plus2 [simp]: "odd (unat ((x :: u32) + 2)) \<longleftrightarrow> odd (unat x)"
proof -
  have "unat (x + 2) = (unat x + 2) mod 4294967296"
    by (simp add: unat_word_ariths)
  moreover have "even ((unat x + 2) mod 4294967296) \<longleftrightarrow> even (unat x + 2)"
    by (rule dvd_mod_iff) simp
  ultimately show ?thesis by simp
qed

section \<open>Lists\<close>

lemma list_update_last_snoc: "xs \<noteq> [] \<Longrightarrow> xs[length xs - 1 := x] = butlast xs @ [x]"
  by (induction xs) (auto split: nat.splits simp: Suc_diff_le neq_Nil_conv)

lemma nth_concat_uniform:
  assumes "\<And>x. x \<in> set (butlast xss) \<Longrightarrow> length x = c" and "0 < c"
    and "xss \<noteq> [] \<Longrightarrow> length (last xss) \<le> c" and "i < length (concat xss)"
  shows "i div c < length xss \<and> i mod c < length (xss ! (i div c))
    \<and> concat xss ! i = xss ! (i div c) ! (i mod c)"
  using assms
proof (induction xss arbitrary: i)
  case Nil
  then show ?case by simp
next
  case (Cons xs xss)
  show ?case
  proof (cases "xss = []")
    case True
    with Cons.prems(3,4) show ?thesis
      by (cases "length xs = c") auto
  next
    case False
    then have len: "length xs = c" using Cons.prems(1) by simp
    show ?thesis
    proof (cases "i < c")
      case True
      then show ?thesis using len by (simp add: nth_append)
    next
      case ge: False
      have bl: "\<And>x. x \<in> set (butlast xss) \<Longrightarrow> length x = c"
        using Cons.prems(1) False by simp
      have "i - c < length (concat xss)" using Cons.prems(4) len ge by simp
      moreover have "length (last xss) \<le> c" using Cons.prems(3) False by simp
      ultimately have IH: "(i - c) div c < length xss \<and> (i - c) mod c < length (xss ! ((i - c) div c))
          \<and> concat xss ! (i - c) = xss ! ((i - c) div c) ! ((i - c) mod c)"
        using Cons.IH [of "i - c"] bl Cons.prems(2) by simp
      have "i div c = Suc ((i - c) div c)" "i mod c = (i - c) mod c"
        using ge Cons.prems(2) by (simp_all add: le_div_geq le_mod_geq)
      then show ?thesis using IH len ge by (simp add: nth_append)
    qed
  qed
qed

end
