(* ===== verification/Lru_Cache.thy ===== *)
theory Lru_Cache
  imports Prelude
begin

text \<open>
  \<^verbatim>\<open>http_lru_ram_cache.h\<close> and \<^verbatim>\<open>http_lru_ram_cache.cc\<close>: the least-recently-used cache of entries, a
  doubly linked list in order of use and a hash map from keys to list iterators. Iterators and
  references are addresses of list and map nodes, so that using one after its node was erased is
  a fault. Each operation is the composition of its critical sections, which theory \<open>Lru_Race\<close>
  interleaves.
\<close>

section \<open>Data\<close>

type_synonym node_id = nat

text \<open>\<open>'v\<close> is the type of the stored pointers; the map's nodes are (address, key, list iterator).\<close>

record 'v lru_cache =
  capacity_m :: u32
  cache_map_m :: "(node_id \<times> bytes \<times> node_id) list"
  LRU_list_m :: "(node_id \<times> bytes \<times> 'v) list"
  next_node :: node_id

definition new_HTTPLRURAMCache :: "'v lru_cache" where
  "new_HTTPLRURAMCache = \<lparr>capacity_m = 0, cache_map_m = [], LRU_list_m = [], next_node = 0\<rparr>"

section \<open>The containers\<close>

definition umap_find :: "bytes \<Rightarrow> (node_id \<times> bytes \<times> node_id) list \<Rightarrow> (node_id \<times> bytes \<times> node_id) option" where
  "umap_find key m = find (\<lambda>(i, k, n). k = key) m"

definition umap_deref :: "node_id \<Rightarrow> (node_id \<times> bytes \<times> node_id) list \<Rightarrow> fault + (bytes \<times> node_id)" where
  "umap_deref it m = (case find (\<lambda>(i, k, n). i = it) m of None \<Rightarrow> Inl BadIterator | Some (i, kn) \<Rightarrow> Inr kn)"

text \<open>
  \<^verbatim>\<open>m[key] = n\<close>: a present node is overwritten, otherwise a node is created at a fresh address. Creating
  a node may make the hash table rehash; the iterators that this invalidates do not outlive an
  operation that runs alone, and theory \<open>Lru_Race\<close> adds it where operations interleave.
\<close>

definition umap_assign ::
  "node_id \<Rightarrow> bytes \<Rightarrow> node_id \<Rightarrow> (node_id \<times> bytes \<times> node_id) list \<Rightarrow> (node_id \<times> bytes \<times> node_id) list"
where
  "umap_assign fresh key n m =
     (case umap_find key m of
        None \<Rightarrow> (fresh, key, n) # m
      | Some _ \<Rightarrow> map (\<lambda>(i, k, n'). if k = key then (i, k, n) else (i, k, n')) m)"

definition umap_erase_key :: "bytes \<Rightarrow> (node_id \<times> bytes \<times> node_id) list \<Rightarrow> (node_id \<times> bytes \<times> node_id) list" where
  "umap_erase_key key m = filter (\<lambda>(i, k, n). k \<noteq> key) m"

definition umap_erase_it :: "node_id \<Rightarrow> (node_id \<times> bytes \<times> node_id) list \<Rightarrow> (node_id \<times> bytes \<times> node_id) list" where
  "umap_erase_it it m = filter (\<lambda>(i, k, n). i \<noteq> it) m"

definition list_deref :: "node_id \<Rightarrow> (node_id \<times> bytes \<times> 'v) list \<Rightarrow> fault + (bytes \<times> 'v)" where
  "list_deref n xs = (case find (\<lambda>(i, kv). i = n) xs of None \<Rightarrow> Inl BadIterator | Some (i, kv) \<Rightarrow> Inr kv)"

definition list_erase :: "node_id \<Rightarrow> (node_id \<times> bytes \<times> 'v) list \<Rightarrow> fault + (node_id \<times> bytes \<times> 'v) list" where
  "list_erase n xs = (if n \<in> fst ` set xs then Inr (filter (\<lambda>(i, kv). i \<noteq> n) xs) else Inl BadIterator)"

section \<open>Operations\<close>

definition initCacheCapacity :: "u32 \<Rightarrow> 'v lru_cache \<Rightarrow> 'v lru_cache" where
  "initCacheCapacity cacheCapacity s = (if capacity_m s \<noteq> 0 then s else s\<lparr>capacity_m := cacheCapacity\<rparr>)"

definition getCacheCapacity :: "'v lru_cache \<Rightarrow> u32" where
  "getCacheCapacity s = capacity_m s"

definition getCacheMap :: "'v lru_cache \<Rightarrow> (node_id \<times> bytes \<times> node_id) list" where
  "getCacheMap s = cache_map_m s"

text \<open>
  \<^verbatim>\<open>at\<close>: under the shared lock the node is looked up and its value copied; if it is not at the
  front, the map iterator is used again under the exclusive lock (\<open>Some it\<close>).
\<close>

definition at_lookup :: "bytes \<Rightarrow> 'v lru_cache \<Rightarrow> fault + ('v \<times> node_id option) option" where
  "at_lookup key s =
    (case umap_find key (cache_map_m s) of
       None \<Rightarrow> Inr None
     | Some (it, k, n) \<Rightarrow>
         bindR (list_deref n (LRU_list_m s)) (\<lambda>(_, value).
           (case LRU_list_m s of
              [] \<Rightarrow> Inl EmptyContainer
            | (_, front_key, _) # _ \<Rightarrow>
                Inr (Some (value, if key \<noteq> front_key then Some it else None)))))"

definition at_move :: "bytes \<Rightarrow> 'v \<Rightarrow> node_id \<Rightarrow> 'v lru_cache \<Rightarrow> fault + 'v lru_cache" where
  "at_move key value it s =
    bindR (umap_deref it (cache_map_m s)) (\<lambda>(_, n).
    bindR (list_erase n (LRU_list_m s)) (\<lambda>xs.
      let b = next_node s
      in Inr (s\<lparr>LRU_list_m := (b, key, value) # xs,
                cache_map_m := umap_assign (Suc b) key b (cache_map_m s),
                next_node := Suc (Suc b)\<rparr>)))"

definition at :: "bytes \<Rightarrow> 'v lru_cache \<Rightarrow> fault + ('v option \<times> 'v lru_cache)" where
  "at key s =
    bindR (at_lookup key s) (\<lambda>r.
      (case r of
         None \<Rightarrow> Inr (None, s)
       | Some (value, None) \<Rightarrow> Inr (Some value, s)
       | Some (value, Some it) \<Rightarrow> bindR (at_move key value it s) (\<lambda>s'. Inr (Some value, s'))))"

text \<open>
  \<^verbatim>\<open>insert\<close>: find the key; erase a present node; put the new node at the front; compare the size
  with the capacity and take a reference to the key of the last node; evict.
\<close>

definition insert_find :: "bytes \<Rightarrow> 'v lru_cache \<Rightarrow> node_id option" where
  "insert_find key s = map_option fst (umap_find key (cache_map_m s))"

definition insert_erase :: "node_id \<Rightarrow> 'v lru_cache \<Rightarrow> fault + 'v lru_cache" where
  "insert_erase it s =
    bindR (umap_deref it (cache_map_m s)) (\<lambda>(_, n).
    bindR (list_erase n (LRU_list_m s)) (\<lambda>xs.
      Inr (s\<lparr>LRU_list_m := xs, cache_map_m := umap_erase_it it (cache_map_m s)\<rparr>)))"

definition insert_put :: "bytes \<Rightarrow> 'v \<Rightarrow> 'v lru_cache \<Rightarrow> 'v lru_cache" where
  "insert_put key value s =
    (let b = next_node s
     in s\<lparr>LRU_list_m := (b, key, value) # LRU_list_m s,
          cache_map_m := umap_assign (Suc b) key b (cache_map_m s),
          next_node := Suc (Suc b)\<rparr>)"

definition insert_check :: "'v lru_cache \<Rightarrow> fault + node_id option" where
  "insert_check s =
    (if length (cache_map_m s) > unat (capacity_m s) then
       (if LRU_list_m s = [] then Inl EmptyContainer else Inr (Some (fst (last (LRU_list_m s)))))
     else Inr None)"

definition insert_evict :: "node_id \<Rightarrow> 'v lru_cache \<Rightarrow> fault + 'v lru_cache" where
  "insert_evict lastNode s =
    bindR (list_deref lastNode (LRU_list_m s)) (\<lambda>(lastNodeKey, _).
      if LRU_list_m s = [] then Inl EmptyContainer
      else Inr (s\<lparr>cache_map_m := umap_erase_key lastNodeKey (cache_map_m s),
                  LRU_list_m := butlast (LRU_list_m s)\<rparr>))"

definition cache_insert :: "bytes \<Rightarrow> 'v \<Rightarrow> 'v lru_cache \<Rightarrow> fault + 'v lru_cache" where
  "cache_insert key value s =
    bindR (case insert_find key s of None \<Rightarrow> Inr s | Some it \<Rightarrow> insert_erase it s) (\<lambda>s1.
    let s2 = insert_put key value s1 in
    bindR (insert_check s2) (\<lambda>lastNode.
      (case lastNode of None \<Rightarrow> Inr s2 | Some n \<Rightarrow> insert_evict n s2)))"

section \<open>Invariant and abstraction\<close>

text \<open>The cache as an association list, most recently used entry first.\<close>

definition lru_entries :: "'v lru_cache \<Rightarrow> (bytes \<times> 'v) list" where
  "lru_entries s = map snd (LRU_list_m s)"

text \<open>
  The index: list and map have the same keys, each once, and the map leads to the node of its
  key; the addresses in use are pairwise different and older than the next one.
\<close>

definition map_keys :: "(node_id \<times> bytes \<times> node_id) list \<Rightarrow> bytes list" where
  "map_keys m = map (\<lambda>(i, k, n). k) m"

definition node_keys :: "(node_id \<times> bytes \<times> 'v) list \<Rightarrow> bytes list" where
  "node_keys xs = map (\<lambda>(i, k, v). k) xs"

definition index_ok :: "(node_id \<times> bytes \<times> node_id) list \<Rightarrow> (node_id \<times> bytes \<times> 'v) list \<Rightarrow> bool" where
  "index_ok m xs \<longleftrightarrow> distinct (map_keys m) \<and> distinct (node_keys xs)
     \<and> distinct (map fst m) \<and> distinct (map fst xs)
     \<and> (\<lambda>(i, k, n). (k, n)) ` set m = (\<lambda>(n, k, v). (k, n)) ` set xs"

definition lru_wf :: "'v lru_cache \<Rightarrow> bool" where
  "lru_wf s \<longleftrightarrow> index_ok (cache_map_m s) (LRU_list_m s)
     \<and> length (LRU_list_m s) \<le> unat (capacity_m s)
     \<and> (\<forall>i \<in> fst ` set (LRU_list_m s) \<union> fst ` set (cache_map_m s). i < next_node s)"

text \<open>The specification: least-recently-used replacement on the association list.\<close>

definition remove_key :: "bytes \<Rightarrow> (bytes \<times> 'v) list \<Rightarrow> (bytes \<times> 'v) list" where
  "remove_key key xs = filter (\<lambda>(k, v). k \<noteq> key) xs"

definition spec_at :: "bytes \<Rightarrow> (bytes \<times> 'v) list \<Rightarrow> 'v option \<times> (bytes \<times> 'v) list" where
  "spec_at key xs = (case map_of xs key of
     None \<Rightarrow> (None, xs) | Some v \<Rightarrow> (Some v, (key, v) # remove_key key xs))"

definition spec_insert :: "nat \<Rightarrow> bytes \<Rightarrow> 'v \<Rightarrow> (bytes \<times> 'v) list \<Rightarrow> (bytes \<times> 'v) list" where
  "spec_insert cap key v xs = take cap ((key, v) # remove_key key xs)"


section \<open>Lookup\<close>

lemma index_ok_iff:
  "index_ok m xs \<longleftrightarrow> distinct (map_keys m) \<and> distinct (node_keys xs) \<and> distinct (map fst m)
     \<and> distinct (map fst xs) \<and> (\<forall>k n. (\<exists>i. (i, k, n) \<in> set m) \<longleftrightarrow> (\<exists>v. (n, k, v) \<in> set xs))"
  by (simp add: index_ok_def set_eq_iff image_iff split_paired_all Bex_def)

lemma set_map_keys: "k \<in> set (map_keys m) \<longleftrightarrow> (\<exists>i n. (i, k, n) \<in> set m)"
  by (force simp: map_keys_def)

lemma set_node_keys: "k \<in> set (node_keys xs) \<longleftrightarrow> (\<exists>n v. (n, k, v) \<in> set xs)"
  by (force simp: node_keys_def)

lemma index_keys: "index_ok m xs \<Longrightarrow> set (map_keys m) = set (node_keys xs)"
  unfolding index_ok_iff set_eq_iff set_map_keys set_node_keys by metis

lemma distinct_keys_inj:
  "distinct (map_keys m) \<Longrightarrow> (i, k, n) \<in> set m \<Longrightarrow> (i', k, n') \<in> set m \<Longrightarrow> i' = i \<and> n' = n"
  by (induction m) (auto simp: map_keys_def split_def image_iff)

lemma distinct_nodes_inj:
  "distinct (map fst xs) \<Longrightarrow> (i, r) \<in> set xs \<Longrightarrow> (i, r') \<in> set xs \<Longrightarrow> r' = r"
  by (metis eq_key_imp_eq_value)

lemma find_fst:
  assumes "distinct (map fst xs)" and "(i, r) \<in> set xs"
  shows "find (\<lambda>(j, _). j = i) xs = Some (i, r)"
  using assms by (induction xs) (auto simp: image_iff split_def dest: bspec)

lemma umap_find_None: "umap_find key m = None \<longleftrightarrow> key \<notin> set (map_keys m)"
  by (auto simp: umap_find_def find_None_iff set_map_keys)

lemma umap_find_Some:
  assumes "distinct (map_keys m)"
  shows "umap_find key m = Some (i, k, n) \<longleftrightarrow> k = key \<and> (i, key, n) \<in> set m"
  using assms by (induction m) (auto simp: umap_find_def map_keys_def image_iff split_def dest: bspec)

lemma umap_deref_ok: "distinct (map fst m) \<Longrightarrow> (i, r) \<in> set m \<Longrightarrow> umap_deref i m = Inr r"
  using find_fst [of m i r] by (cases r) (simp add: umap_deref_def split_def)

lemma list_deref_ok: "distinct (map fst xs) \<Longrightarrow> (n, r) \<in> set xs \<Longrightarrow> list_deref n xs = Inr r"
  using find_fst [of xs n r] by (simp add: list_deref_def split_def)

lemma list_erase_ok:
  "(n, r) \<in> set xs \<Longrightarrow> list_erase n xs = Inr (filter (\<lambda>(i, _). i \<noteq> n) xs)"
  by (force simp: list_erase_def)

lemma map_of_entries:
  "distinct (node_keys xs) \<Longrightarrow> (n, k, v) \<in> set xs \<Longrightarrow> map_of (map snd xs) k = Some v"
  by (induction xs) (auto simp: node_keys_def image_iff split_def)

lemma map_of_entries_None: "k \<notin> set (node_keys xs) \<Longrightarrow> map_of (map snd xs) k = None"
  by (induction xs) (auto simp: node_keys_def)

section \<open>Erasing, putting and moving keep the index\<close>

abbreviation del_key :: "bytes \<Rightarrow> (node_id \<times> bytes \<times> 'v) list \<Rightarrow> (node_id \<times> bytes \<times> 'v) list" where
  "del_key key xs \<equiv> filter (\<lambda>(i, k, v). k \<noteq> key) xs"

lemma entries_del_key: "map snd (del_key key xs) = remove_key key (map snd xs)"
  by (induction xs) (auto simp: remove_key_def)

lemma del_key_id: "k \<notin> (\<lambda>(i, k, v). k) ` set xs \<Longrightarrow> del_key k xs = xs"
  by (induction xs) auto

lemma node_keys_del: "node_keys (del_key key xs) = filter (\<lambda>k. k \<noteq> key) (node_keys xs)"
  by (induction xs) (auto simp: node_keys_def)

lemma map_keys_del: "map_keys (umap_erase_key key m) = filter (\<lambda>k. k \<noteq> key) (map_keys m)"
  by (induction m) (auto simp: map_keys_def umap_erase_key_def)

lemma distinct_fst_filter: "distinct (map fst xs) \<Longrightarrow> distinct (map fst (filter P xs))"
  by (simp add: distinct_map_filter)

lemma node_key_unique:
  assumes "index_ok m xs" and "(n, key, v) \<in> set xs"
  shows "filter (\<lambda>(i, _). i \<noteq> n) xs = del_key key xs"
proof (rule filter_cong [OF refl])
  fix x assume "x \<in> set xs"
  moreover obtain i k u where x: "x = (i, k, u)" by (cases x)
  moreover have "distinct (map fst xs)" "distinct (node_keys xs)"
    using assms(1) by (simp_all add: index_ok_iff)
  ultimately show "(case x of (i, _) \<Rightarrow> i \<noteq> n) = (case x of (i, k, v) \<Rightarrow> k \<noteq> key)"
    using assms(2) distinct_nodes_inj [of xs n "(key, v)" "(k, u)"]
    by (auto simp: node_keys_def distinct_map inj_on_def)
qed

lemma map_key_unique:
  assumes "index_ok m xs" and "(it, key, n) \<in> set m"
  shows "umap_erase_it it m = umap_erase_key key m"
  unfolding umap_erase_it_def umap_erase_key_def
proof (rule filter_cong [OF refl])
  fix x assume "x \<in> set m"
  moreover obtain i k u where x: "x = (i, k, u)" by (cases x)
  moreover have "distinct (map fst m)" "distinct (map_keys m)"
    using assms(1) by (simp_all add: index_ok_iff)
  ultimately show "(case x of (i, k, n) \<Rightarrow> i \<noteq> it) = (case x of (i, k, n) \<Rightarrow> k \<noteq> key)"
    using assms(2) distinct_nodes_inj [of m it "(key, n)" "(k, u)"]
    by (auto dest: distinct_keys_inj)
qed

lemma index_ok_erase:
  assumes "index_ok m xs"
  shows "index_ok (umap_erase_key key m) (del_key key xs)"
  using assms
  by (simp add: index_ok_iff node_keys_del map_keys_del distinct_fst_filter)
     (auto simp: umap_erase_key_def distinct_fst_filter)

lemma index_ok_put:
  assumes "index_ok m xs" and "key \<notin> set (map_keys m)" and "b \<notin> fst ` set xs" and "b' \<notin> fst ` set m"
  shows "index_ok ((b', key, b) # m) ((b, key, v) # xs)"
proof -
  have "key \<notin> set (node_keys xs)" using assms(1,2) by (simp add: index_keys)
  moreover have "\<nexists>k v. (b, k, v) \<in> set xs" using assms(3) by force
  ultimately show ?thesis
    using assms by (simp add: index_ok_iff map_keys_def node_keys_def) metis
qed

lemma umap_assign_absent:
  "key \<notin> set (map_keys m) \<Longrightarrow> umap_assign b' key b m = (b', key, b) # m"
  using umap_find_None [of key m] by (simp add: umap_assign_def)

lemma index_ok_move:
  assumes "index_ok m xs" and "key \<in> set (map_keys m)" and "b \<notin> fst ` set xs"
  shows "index_ok (umap_assign b' key b m) ((b, key, v) # del_key key xs)"
    "fst ` set (umap_assign b' key b m) = fst ` set m"
proof -
  let ?f = "\<lambda>(i, k, n'). if k = key then (i, k, b) else (i, k, n')"
  have m: "umap_assign b' key b m = map ?f m"
    using umap_find_None [of key m] assms(2) by (auto simp: umap_assign_def split: option.splits)
  have keys: "map_keys (map ?f m) = map_keys m" "map fst (map ?f m) = map fst m"
    by (auto simp: map_keys_def)
  have fresh: "\<nexists>k v. (b, k, v) \<in> set xs" using assms(3) by force
  have "(\<exists>i. (i, k, n) \<in> set (map ?f m)) \<longleftrightarrow> (\<exists>u. (n, k, u) \<in> set ((b, key, v) # del_key key xs))" for k n
  proof (cases "k = key")
    case True
    then have "(\<exists>i. (i, k, n) \<in> set (map ?f m)) \<longleftrightarrow> n = b"
      using assms(2) by (force simp: set_map_keys image_iff split: if_splits)
    then show ?thesis using True fresh by auto
  next
    case False
    then have "(\<exists>i. (i, k, n) \<in> set (map ?f m)) \<longleftrightarrow> (\<exists>i. (i, k, n) \<in> set m)"
      by (force split: if_splits)
    then show ?thesis using False assms(1) by (auto simp: index_ok_iff)
  qed
  moreover have "distinct (map fst ((b, key, v) # del_key key xs))"
    using assms(1,3) by (auto simp: index_ok_iff distinct_fst_filter)
  moreover have "distinct (node_keys ((b, key, v) # del_key key xs))"
    using assms(1) node_keys_del [of key xs] by (auto simp: index_ok_iff node_keys_def)
  ultimately show "index_ok (umap_assign b' key b m) ((b, key, v) # del_key key xs)"
    using assms(1) keys unfolding m index_ok_iff by (simp only: keys simp_thms)
  show "fst ` set (umap_assign b' key b m) = fst ` set m"
    unfolding m using keys(2) by (metis set_map)
qed


section \<open>The operations implement the specification\<close>

lemma lru_fresh:
  assumes "lru_wf s"
  shows "next_node s \<notin> fst ` set (LRU_list_m s)" "Suc (next_node s) \<notin> fst ` set (cache_map_m s)"
  using assms unfolding lru_wf_def by (meson UnI1 UnI2 less_irrefl Suc_lessD)+

lemma lru_wf_new: "lru_wf new_HTTPLRURAMCache"
  by (simp add: lru_wf_def new_HTTPLRURAMCache_def index_ok_def map_keys_def node_keys_def)

lemma lru_wf_init:
  assumes "lru_wf s"
  shows "lru_wf (initCacheCapacity c s)" "lru_entries (initCacheCapacity c s) = lru_entries s"
  using assms by (auto simp: lru_wf_def initCacheCapacity_def lru_entries_def)

text \<open>A lookup of a present key finds its node in the map and in the list.\<close>

lemma lru_present:
  assumes "lru_wf s" and "key \<in> set (map_keys (cache_map_m s))"
  shows "\<exists>it n v. (it, key, n) \<in> set (cache_map_m s) \<and> (n, key, v) \<in> set (LRU_list_m s)
    \<and> umap_find key (cache_map_m s) = Some (it, key, n) \<and> map_of (lru_entries s) key = Some v"
proof -
  have ok: "index_ok (cache_map_m s) (LRU_list_m s)" using assms(1) by (simp add: lru_wf_def)
  obtain it n where i: "(it, key, n) \<in> set (cache_map_m s)" using assms(2) by (auto simp: set_map_keys)
  with ok obtain v where "(n, key, v) \<in> set (LRU_list_m s)" unfolding index_ok_iff by blast
  with i ok show ?thesis
    by (metis index_ok_iff lru_entries_def map_of_entries umap_find_Some)
qed

lemma lru_absent:
  assumes "lru_wf s" and "key \<notin> set (map_keys (cache_map_m s))"
  shows "umap_find key (cache_map_m s) = None" "map_of (lru_entries s) key = None"
    "remove_key key (lru_entries s) = lru_entries s"
proof -
  have k: "key \<notin> set (node_keys (LRU_list_m s))"
    using assms index_keys [of "cache_map_m s" "LRU_list_m s"] by (simp add: lru_wf_def)
  show "umap_find key (cache_map_m s) = None" using assms(2) by (simp add: umap_find_None)
  show "map_of (lru_entries s) key = None" using k by (simp add: lru_entries_def map_of_entries_None)
  show "remove_key key (lru_entries s) = lru_entries s"
    using k by (force simp: remove_key_def lru_entries_def node_keys_def filter_id_conv)
qed

lemma at_move_refines:
  assumes wf: "lru_wf s" and it: "(it, key, n) \<in> set (cache_map_m s)"
    and v: "(n, key, u) \<in> set (LRU_list_m s)"
  shows "\<exists>s'. at_move key v it s = Inr s' \<and> lru_wf s' \<and> capacity_m s' = capacity_m s
    \<and> lru_entries s' = (key, v) # remove_key key (lru_entries s)"
proof -
  let ?m = "cache_map_m s" and ?xs = "LRU_list_m s" and ?b = "next_node s"
  let ?s' = "s\<lparr>LRU_list_m := (?b, key, v) # del_key key ?xs,
               cache_map_m := umap_assign (Suc ?b) key ?b ?m, next_node := Suc (Suc ?b)\<rparr>"
  have ok: "index_ok ?m ?xs" using wf by (simp add: lru_wf_def)
  then have d: "umap_deref it ?m = Inr (key, n)" "list_erase n ?xs = Inr (del_key key ?xs)"
    using umap_deref_ok [of ?m it "(key, n)"] list_erase_ok [OF v] node_key_unique [OF ok v] it
    by (simp_all add: index_ok_iff)
  then have r: "at_move key v it s = Inr ?s'" by (simp add: at_move_def Let_def)
  have key: "key \<in> set (map_keys ?m)" using it by (auto simp: set_map_keys)
  note mv = index_ok_move [OF ok key lru_fresh(1) [OF wf], of "Suc ?b"]
  have "length (del_key key ?xs) < length ?xs"
    using v by (intro length_filter_less [of "(n, key, u)"]) simp_all
  then have "lru_wf ?s'" using wf mv by (auto simp: lru_wf_def less_Suc_eq)
  then show ?thesis using r entries_del_key [of key ?xs] by (simp add: lru_entries_def)
qed

lemma at_refines:
  assumes wf: "lru_wf s"
  shows "\<exists>s'. at key s = Inr (fst (spec_at key (lru_entries s)), s')
    \<and> lru_entries s' = snd (spec_at key (lru_entries s)) \<and> lru_wf s' \<and> capacity_m s' = capacity_m s"
proof (cases "key \<in> set (map_keys (cache_map_m s))")
  case False
  then show ?thesis using wf lru_absent [OF wf False] by (simp add: at_def at_lookup_def spec_at_def)
next
  case True
  from lru_present [OF wf this] obtain it n v where f: "(it, key, n) \<in> set (cache_map_m s)"
    "(n, key, v) \<in> set (LRU_list_m s)" "umap_find key (cache_map_m s) = Some (it, key, n)"
    "map_of (lru_entries s) key = Some v" by blast
  have d: "list_deref n (LRU_list_m s) = Inr (key, v)"
    using wf list_deref_ok [OF _ f(2)] by (simp add: lru_wf_def index_ok_iff)
  obtain n0 k0 v0 xs where xs: "LRU_list_m s = (n0, k0, v0) # xs"
    using f(2) by (cases "LRU_list_m s") auto
  show ?thesis
  proof (cases "key = k0")
    case True
    have "distinct (node_keys (LRU_list_m s))" using wf by (simp add: lru_wf_def index_ok_iff)
    then have "remove_key k0 (map snd xs) = map snd xs" 
      by (force simp: xs node_keys_def remove_key_def filter_id_conv)
    then have "snd (spec_at key (lru_entries s)) = lru_entries s"
      using f(4) True by (simp add: spec_at_def lru_entries_def xs remove_key_def)
    then show ?thesis using wf f d True by (simp add: at_def at_lookup_def xs spec_at_def)
  next
    case False
    from at_move_refines [OF wf f(1,2), of v] f d False show ?thesis
      by (auto simp: at_def at_lookup_def xs spec_at_def)
  qed
qed


text \<open>\<open>insert\<close>: first the key is absent, then it is at the front, then the size is as before.\<close>

lemma index_length: "index_ok m xs \<Longrightarrow> length m = length xs"
proof -
  assume ok: "index_ok m xs"
  then have "card (set (map_keys m)) = length (map_keys m)" "card (set (node_keys xs)) = length (node_keys xs)"
    by (simp_all add: index_ok_iff distinct_card)
  then show ?thesis using index_keys [OF ok] by (simp add: map_keys_def node_keys_def)
qed

lemma insert_clear:
  assumes wf: "lru_wf s"
  shows "\<exists>s1. (case insert_find key s of None \<Rightarrow> Inr s | Some it \<Rightarrow> insert_erase it s) = Inr s1
    \<and> lru_wf s1 \<and> key \<notin> set (map_keys (cache_map_m s1)) \<and> capacity_m s1 = capacity_m s
    \<and> lru_entries s1 = remove_key key (lru_entries s)"
proof (cases "key \<in> set (map_keys (cache_map_m s))")
  case False
  then show ?thesis using wf lru_absent [OF wf False] by (simp add: insert_find_def)
next
  case True
  let ?m = "cache_map_m s" and ?xs = "LRU_list_m s"
  from lru_present [OF wf True] obtain it n v where f: "(it, key, n) \<in> set ?m" "(n, key, v) \<in> set ?xs"
    "umap_find key ?m = Some (it, key, n)" by blast
  have ok: "index_ok ?m ?xs" using wf by (simp add: lru_wf_def)
  let ?s1 = "s\<lparr>LRU_list_m := del_key key ?xs, cache_map_m := umap_erase_key key ?m\<rparr>"
  have "umap_deref it ?m = Inr (key, n)" "list_erase n ?xs = Inr (del_key key ?xs)"
    "umap_erase_it it ?m = umap_erase_key key ?m"
    using umap_deref_ok [OF _ f(1)] list_erase_ok [OF f(2)] node_key_unique [OF ok f(2)]
      map_key_unique [OF ok f(1)] ok by (simp_all add: index_ok_iff)
  then have "insert_erase it s = Inr ?s1" by (simp add: insert_erase_def)
  moreover have "lru_wf ?s1"
    using wf index_ok_erase [OF ok, of key] le_trans [OF length_filter_le, of ?xs]
    by (auto simp: lru_wf_def umap_erase_key_def)
  moreover have "key \<notin> set (map_keys (umap_erase_key key ?m))" by (simp add: map_keys_del)
  ultimately show ?thesis using f(3) entries_del_key [of key ?xs]
    by (simp add: insert_find_def lru_entries_def)
qed

lemma insert_evict_last:
  assumes ok: "index_ok (cache_map_m s) (LRU_list_m s)" and ne: "LRU_list_m s \<noteq> []"
  shows "\<exists>s'. insert_evict (fst (last (LRU_list_m s))) s = Inr s' \<and> LRU_list_m s' = butlast (LRU_list_m s)
    \<and> index_ok (cache_map_m s') (LRU_list_m s') \<and> set (cache_map_m s') \<subseteq> set (cache_map_m s)
    \<and> capacity_m s' = capacity_m s \<and> next_node s' = next_node s"
proof -
  let ?xs = "LRU_list_m s"
  obtain n k v ys where xs: "?xs = ys @ [(n, k, v)]"
    using ne by (cases ?xs rule: rev_cases) auto
  have "list_deref n ?xs = Inr (k, v)"
    using ok list_deref_ok [of ?xs n "(k, v)"] by (simp add: index_ok_iff xs)
  moreover have "del_key k ?xs = ys"
    using ok by (simp add: index_ok_iff xs node_keys_def del_key_id)
  ultimately show ?thesis using index_ok_erase [OF ok, of k]
    by (auto simp: insert_evict_def xs umap_erase_key_def)
qed

lemma insert_refines:
  assumes wf: "lru_wf s"
  shows "\<exists>s'. cache_insert key v s = Inr s' \<and> lru_wf s' \<and> capacity_m s' = capacity_m s
    \<and> lru_entries s' = spec_insert (unat (capacity_m s)) key v (lru_entries s)"
proof -
  let ?cap = "unat (capacity_m s)"
  from insert_clear [OF wf, of key] obtain s1 where
    s1: "(case insert_find key s of None \<Rightarrow> Inr s | Some it \<Rightarrow> insert_erase it s) = Inr s1"
    and wf1: "lru_wf s1" and key: "key \<notin> set (map_keys (cache_map_m s1))"
    and c1: "capacity_m s1 = capacity_m s" "lru_entries s1 = remove_key key (lru_entries s)"
    by blast
  define s2 where "s2 = insert_put key v s1"
  have xs2: "LRU_list_m s2 = (next_node s1, key, v) # LRU_list_m s1" "capacity_m s2 = capacity_m s"
    "cache_map_m s2 = (Suc (next_node s1), key, next_node s1) # cache_map_m s1"
    "next_node s2 = Suc (Suc (next_node s1))"
    using c1 by (simp_all add: s2_def insert_put_def Let_def umap_assign_absent [OF key])
  have ok2: "index_ok (cache_map_m s2) (LRU_list_m s2)"
    using index_ok_put [OF _ key lru_fresh [OF wf1]] wf1 by (simp add: lru_wf_def xs2)
  have len: "length (LRU_list_m s2) \<le> Suc ?cap" and ids: "\<forall>i \<in> fst ` set (LRU_list_m s2) \<union> fst ` set (cache_map_m s2). i < next_node s2"
    using wf1 c1(1) by (auto simp: lru_wf_def xs2 less_Suc_eq)
  have e2: "lru_entries s2 = (key, v) # remove_key key (lru_entries s)"
    using c1(2) by (simp add: lru_entries_def xs2)
  have ins: "cache_insert key v s = bindR (insert_check s2) (\<lambda>l. case l of None \<Rightarrow> Inr s2 | Some n \<Rightarrow> insert_evict n s2)"
    by (simp add: cache_insert_def s1 Let_def flip: s2_def)
  show ?thesis
  proof (cases "?cap < length (LRU_list_m s2)")
    case False
    then have "cache_insert key v s = Inr s2"
      using ins index_length [OF ok2] by (simp add: insert_check_def xs2(2))
    moreover have "lru_wf s2" using ok2 ids False by (simp add: lru_wf_def xs2(2))
    moreover have "lru_entries s2 = spec_insert ?cap key v (lru_entries s)"
      using False by (simp add: spec_insert_def flip: e2) (simp add: lru_entries_def)
    ultimately show ?thesis using xs2(2) by blast
  next
    case True
    have ne: "LRU_list_m s2 \<noteq> []" by (simp add: xs2)
    from insert_evict_last [OF ok2 ne] obtain s3 where
      s3: "insert_evict (fst (last (LRU_list_m s2))) s2 = Inr s3" "LRU_list_m s3 = butlast (LRU_list_m s2)"
        "index_ok (cache_map_m s3) (LRU_list_m s3)" "set (cache_map_m s3) \<subseteq> set (cache_map_m s2)"
        "capacity_m s3 = capacity_m s2" "next_node s3 = next_node s2" by blast
    have "cache_insert key v s = Inr s3"
      using ins True index_length [OF ok2] ne s3(1) by (simp add: insert_check_def xs2(2))
    moreover have "set (LRU_list_m s3) \<subseteq> set (LRU_list_m s2)"
      using s3(2) by (auto dest: in_set_butlastD)
    then have "\<forall>i \<in> fst ` set (LRU_list_m s3) \<union> fst ` set (cache_map_m s3). i < next_node s3"
      unfolding s3(6) using ids s3(4) by blast
    then have "lru_wf s3" using s3 len by (simp add: lru_wf_def xs2(2))
    moreover have "length (lru_entries s2) = Suc ?cap" using len True by (simp add: lru_entries_def)
    then have "lru_entries s3 = spec_insert ?cap key v (lru_entries s)"
      using s3(2) by (simp add: spec_insert_def flip: e2) (simp add: lru_entries_def butlast_conv_take flip: map_butlast take_map)
    ultimately show ?thesis using s3(5) xs2(2) by auto
  qed
qed


section \<open>What the filter relies on\<close>

text \<open>
  The interface of the cache to the filter: a lookup returns what is stored under the key and
  forgets nothing; an insertion stores the value and may evict other keys, never change them.
\<close>

datatype 'v cache_op = Lookup bytes | Put bytes 'v

fun run_ops ::
  "(bytes \<Rightarrow> 's \<Rightarrow> fault + ('v option \<times> 's)) \<Rightarrow> (bytes \<Rightarrow> 'v \<Rightarrow> 's \<Rightarrow> fault + 's) \<Rightarrow>
   'v cache_op list \<Rightarrow> 's \<Rightarrow> fault + ((bytes \<times> 'v option) list \<times> 's)"
where
  "run_ops lk pt [] s = Inr ([], s)"
| "run_ops lk pt (Lookup k # ops) s = bindR (lk k s) (\<lambda>(r, s').
     bindR (run_ops lk pt ops s') (\<lambda>(rs, s''). Inr ((k, r) # rs, s'')))"
| "run_ops lk pt (Put k v # ops) s = bindR (pt k v s) (run_ops lk pt ops)"

text \<open>What a lookup may return after \<open>ops\<close>, if \<open>g\<close> is what was stored before: nothing or the last value put.\<close>

fun answers_ok :: "(bytes \<Rightarrow> 'v option) \<Rightarrow> 'v cache_op list \<Rightarrow> (bytes \<times> 'v option) list \<Rightarrow> bool" where
  "answers_ok g [] rs \<longleftrightarrow> rs = []"
| "answers_ok g (Lookup k # ops) rs \<longleftrightarrow>
     (case rs of [] \<Rightarrow> False
      | (k', r) # rs' \<Rightarrow> k' = k \<and> (r = None \<or> r = g k) \<and> answers_ok g ops rs')"
| "answers_ok g (Put k v # ops) rs \<longleftrightarrow> answers_ok (g(k \<mapsto> v)) ops rs"

locale response_cache =
  fixes lookup_c :: "bytes \<Rightarrow> 's \<Rightarrow> fault + ('v option \<times> 's)"
    and insert_c :: "bytes \<Rightarrow> 'v \<Rightarrow> 's \<Rightarrow> fault + 's"
    and inv :: "'s \<Rightarrow> bool"
    and stored :: "'s \<Rightarrow> bytes \<Rightarrow> 'v option"
    and room :: "'s \<Rightarrow> bool"
  assumes lookup_law: "inv s \<Longrightarrow> \<exists>s'. lookup_c k s = Inr (stored s k, s') \<and> inv s' \<and> stored s' = stored s \<and> room s' = room s"
    and insert_law: "inv s \<Longrightarrow> \<exists>s'. insert_c k v s = Inr s' \<and> inv s'
      \<and> stored s' \<subseteq>\<^sub>m (stored s)(k \<mapsto> v) \<and> room s' = room s \<and> (room s \<longrightarrow> stored s' k = Some v)"
begin

lemma lookup_after_insert:
  assumes "inv s" and "room s" and "insert_c k v s = Inr s'"
  shows "\<exists>s''. lookup_c k s' = Inr (Some v, s'')"
  using insert_law [OF assms(1), of k v] lookup_law [of s' k] assms(2,3) by auto

lemma run_ops_answers:
  assumes "inv s" and "stored s \<subseteq>\<^sub>m g"
  shows "\<exists>rs s'. run_ops lookup_c insert_c ops s = Inr (rs, s') \<and> inv s' \<and> answers_ok g ops rs"
  using assms
proof (induction ops arbitrary: s g)
  case Nil
  then show ?case by simp
next
  case (Cons op ops)
  show ?case
  proof (cases op)
    case (Lookup k)
    from lookup_law [OF Cons.prems(1), of k] obtain s' where
      s': "lookup_c k s = Inr (stored s k, s')" "inv s'" "stored s' = stored s" by blast
    from Cons.IH [OF s'(2), of g] Cons.prems(2) s'(3) obtain rs s'' where
      "run_ops lookup_c insert_c ops s' = Inr (rs, s'')" "inv s''" "answers_ok g ops rs" by auto
    moreover have "stored s k = None \<or> stored s k = g k"
      using Cons.prems(2) by (force simp: map_le_def)
    ultimately show ?thesis using s'(1) by (simp add: Lookup)
  next
    case (Put k v)
    from insert_law [OF Cons.prems(1), of k v] obtain s' where
      s': "insert_c k v s = Inr s'" "inv s'" "stored s' \<subseteq>\<^sub>m (stored s)(k \<mapsto> v)" by blast
    have "stored s' \<subseteq>\<^sub>m g(k \<mapsto> v)"
      using s'(3) Cons.prems(2) by (meson map_le_trans map_le_upd)
    from Cons.IH [OF s'(2) this] s'(1) show ?thesis by (simp add: Put del: fun_upd_apply)
  qed
qed

end

lemma spec_at_map: "map_of (snd (spec_at key es)) = map_of es" "fst (spec_at key es) = map_of es key"
proof -
  have "map_of (remove_key key es) k = (if k = key then None else map_of es k)" for k
    by (induction es) (auto simp: remove_key_def)
  then show "map_of (snd (spec_at key es)) = map_of es"
    by (auto simp: spec_at_def fun_eq_iff split: option.splits)
qed (simp add: spec_at_def split: option.splits)

lemma map_of_take: "map_of (take n es) \<subseteq>\<^sub>m map_of es"
proof (induction es arbitrary: n)
  case (Cons e es)
  then show ?case by (cases n) (auto simp: map_le_def dom_def)
qed simp

lemma spec_insert_map: "map_of (spec_insert n key v es) \<subseteq>\<^sub>m (map_of es)(key \<mapsto> v)"
proof -
  have "map_of (remove_key key es) k = (if k = key then None else map_of es k)" for k
    by (induction es) (auto simp: remove_key_def)
  then have "map_of ((key, v) # remove_key key es) = (map_of es)(key \<mapsto> v)" by (auto simp: fun_eq_iff)
  then show ?thesis using map_of_take [of n "(key, v) # remove_key key es"] by (simp add: spec_insert_def)
qed

interpretation lruc: response_cache at cache_insert lru_wf "\<lambda>s. map_of (lru_entries s)" "\<lambda>s. 0 < capacity_m s"
proof unfold_locales
  fix s :: "'v lru_cache" and k
  assume "lru_wf s"
  from at_refines [OF this, of k] obtain s' where "at k s = Inr (map_of (lru_entries s) k, s')" "lru_wf s'"
    "lru_entries s' = snd (spec_at k (lru_entries s))" "capacity_m s' = capacity_m s"
    by (auto simp: spec_at_map)
  then show "\<exists>s'. at k s = Inr (map_of (lru_entries s) k, s') \<and> lru_wf s'
      \<and> map_of (lru_entries s') = map_of (lru_entries s) \<and> (0 < capacity_m s') = (0 < capacity_m s)"
    by (simp add: spec_at_map)
next
  fix s :: "'v lru_cache" and k v
  assume "lru_wf s"
  from insert_refines [OF this, of k v] obtain s' where s': "cache_insert k v s = Inr s'" "lru_wf s'"
    "capacity_m s' = capacity_m s" "lru_entries s' = spec_insert (unat (capacity_m s)) k v (lru_entries s)"
    by blast
  have "map_of (lru_entries s') k = Some v" if "0 < capacity_m s"
  proof -
    from that have "0 < unat (capacity_m s)" by (simp add: unat_gt_0 word_gt_0)
    then show ?thesis by (cases "unat (capacity_m s)") (simp_all add: s'(4) spec_insert_def)
  qed
  then show "\<exists>s'. cache_insert k v s = Inr s' \<and> lru_wf s'
      \<and> map_of (lru_entries s') \<subseteq>\<^sub>m (map_of (lru_entries s))(k \<mapsto> v)
      \<and> (0 < capacity_m s') = (0 < capacity_m s) \<and> (0 < capacity_m s \<longrightarrow> map_of (lru_entries s') k = Some v)"
    using s' spec_insert_map [of "unat (capacity_m s)" k v "lru_entries s"] by (intro exI [of _ s']) simp
qed

section \<open>Properties\<close>

text \<open>
  C18: \<^verbatim>\<open>at\<close> implements the lookup of a least-recently-used cache: from a well-formed state it
  never uses a bad iterator, returns the value stored under the key or null, moves a found entry to
  the front, keeps all other entries in their order, and keeps the index of list and map intact.
\<close>

theorem at_implements_lookup:
  assumes "lru_wf s"
  shows "\<exists>s'. at key s = Inr (map_of (lru_entries s) key, s') \<and> lru_wf s' \<and> capacity_m s' = capacity_m s
    \<and> lru_entries s' = (case map_of (lru_entries s) key of
         None \<Rightarrow> lru_entries s
       | Some v \<Rightarrow> (key, v) # filter (\<lambda>(k, v). k \<noteq> key) (lru_entries s))"
  using at_refines [OF assms, of key] by (auto simp: spec_at_def remove_key_def split: option.splits)

text \<open>A cache of capacity 2 that holds two entries.\<close>

definition two_entries :: "nat lru_cache" where
  "two_entries = \<lparr>capacity_m = 2, cache_map_m = [(3, ''b'', 2), (1, ''a'', 0)],
     LRU_list_m = [(2, ''b'', 20), (0, ''a'', 10)], next_node = 4\<rparr>"

lemma two_entries_wf: "lru_wf two_entries" "lru_entries two_entries = [(''b'', 20), (''a'', 10)]"
  by (auto simp: lru_wf_def two_entries_def index_ok_def map_keys_def node_keys_def lru_entries_def)

theorem at_implements_lookup_witness:
  "\<exists>s'. at ''a'' two_entries = Inr (Some 10, s') \<and> lru_entries s' = [(''a'', 10), (''b'', 20)]"
  using at_implements_lookup [OF two_entries_wf(1), of "''a''"] by (auto simp: two_entries_wf(2))

text \<open>
  C17: \<^verbatim>\<open>insert\<close> implements the insertion of a least-recently-used cache: the new entry is in front,
  an old entry of the key is gone, the others keep their order, and only when the capacity is
  exceeded exactly the last, least recently used one is evicted; the index stays intact and the
  number of entries bounded by the capacity.
\<close>

theorem insert_implements_lru:
  assumes "lru_wf s"
  shows "\<exists>s'. cache_insert key v s = Inr s' \<and> lru_wf s' \<and> capacity_m s' = capacity_m s
    \<and> lru_entries s' = take (unat (capacity_m s)) ((key, v) # filter (\<lambda>(k, v). k \<noteq> key) (lru_entries s))
    \<and> length (getCacheMap s') \<le> unat (getCacheCapacity s')"
proof -
  obtain s' where "cache_insert key v s = Inr s'" "lru_wf s'" "capacity_m s' = capacity_m s"
    "lru_entries s' = spec_insert (unat (capacity_m s)) key v (lru_entries s)"
    using insert_refines [OF assms] by blast
  moreover from this(2) have "length (cache_map_m s') \<le> unat (capacity_m s')"
    using index_length [of "cache_map_m s'" "LRU_list_m s'"] by (simp add: lru_wf_def)
  ultimately show ?thesis
    by (simp add: spec_insert_def remove_key_def getCacheMap_def getCacheCapacity_def)
qed

theorem insert_implements_lru_witness:
  "\<exists>s'. cache_insert ''c'' 30 two_entries = Inr s' \<and> lru_entries s' = [(''c'', 30), (''b'', 20)]"
  using insert_implements_lru [OF two_entries_wf(1), of "''c''" 30]
  by (auto simp: two_entries_wf(2)) (simp add: two_entries_def)

text \<open>
  C16: in every sequence of lookups and insertions on a new cache, whatever its capacity, nothing
  faults, and every lookup returns null or the value that was last inserted under its key -- never
  a value of another key and never a replaced one.
\<close>

theorem cache_never_stale:
  "\<exists>rs s'. run_ops at cache_insert ops (initCacheCapacity c new_HTTPLRURAMCache) = Inr (rs, s')
    \<and> lru_wf s' \<and> answers_ok (\<lambda>_. None) ops rs"
proof (rule lruc.run_ops_answers)
  show "lru_wf (initCacheCapacity c new_HTTPLRURAMCache)" by (rule lru_wf_init(1) [OF lru_wf_new])
qed (simp add: lru_wf_init(2) [OF lru_wf_new], simp add: lru_entries_def new_HTTPLRURAMCache_def)

end
