(* ===== verification/Lru_Race.thy ===== *)
theory Lru_Race
  imports Lru_Cache
begin

text \<open>
  \<^verbatim>\<open>at\<close> and \<^verbatim>\<open>insert\<close> of \<^verbatim>\<open>http_lru_ram_cache.cc\<close> give up \<^verbatim>\<open>shared_mtx_\<close> between their critical
  sections. A thread is a program counter with the iterators and references it keeps meanwhile;
  a step of the machine is one critical section of one thread. Lookups alone are safe under every
  interleaving; a lookup or an insertion that runs during an eviction uses an erased node, and a lookup
  that runs during an insertion which rehashes the map uses an invalid iterator.
\<close>

section \<open>Threads\<close>

datatype 'v cache_pc =
    AtStart bytes
  | AtMove bytes 'v node_id
  | InsStart bytes 'v
  | InsErase bytes 'v node_id
  | InsPut bytes 'v
  | InsCheck
  | InsEvict node_id
  | CacheDone "'v option"

text \<open>
  \<^verbatim>\<open>cache_map_[key] = ...\<close> for a new key: if the map then has more elements than it can hold without
  rehashing (\<open>room\<close>, which is \<^verbatim>\<open>max_load_factor() * bucket_count()\<close>), the table is rebuilt. That keeps
  its elements and all iterators of the list, and invalidates all iterators of the map: the nodes of
  the model get new addresses. The larger table that results is not tracked: \<open>room\<close> stays, so that
  later insertions rehash again, which only adds faults.
\<close>

definition umap_rehash :: "'v lru_cache \<Rightarrow> 'v lru_cache" where
  "umap_rehash s = s\<lparr>cache_map_m := map (\<lambda>(i, k, n). (i + next_node s, k, n)) (cache_map_m s),
     next_node := next_node s + next_node s\<rparr>"

definition put_section :: "nat \<Rightarrow> bytes \<Rightarrow> 'v \<Rightarrow> 'v lru_cache \<Rightarrow> 'v lru_cache" where
  "put_section room key v s =
     (if umap_find key (cache_map_m s) = None \<and> room < Suc (length (cache_map_m s))
      then umap_rehash (insert_put key v s) else insert_put key v s)"

text \<open>One critical section; the thread has not finished.\<close>

fun cache_section :: "nat \<Rightarrow> 'v cache_pc \<Rightarrow> 'v lru_cache \<Rightarrow> fault + ('v cache_pc \<times> 'v lru_cache)" where
  "cache_section room (AtStart key) s = bindR (at_lookup key s) (\<lambda>r.
     Inr (case r of None \<Rightarrow> CacheDone None
          | Some (v, None) \<Rightarrow> CacheDone (Some v)
          | Some (v, Some it) \<Rightarrow> AtMove key v it, s))"
| "cache_section room (AtMove key v it) s = bindR (at_move key v it s) (\<lambda>s'. Inr (CacheDone (Some v), s'))"
| "cache_section room (InsStart key v) s =
     Inr (case insert_find key s of None \<Rightarrow> InsPut key v | Some it \<Rightarrow> InsErase key v it, s)"
| "cache_section room (InsErase key v it) s = bindR (insert_erase it s) (\<lambda>s'. Inr (InsPut key v, s'))"
| "cache_section room (InsPut key v) s = Inr (InsCheck, put_section room key v s)"
| "cache_section room InsCheck s = bindR (insert_check s) (\<lambda>r.
     Inr (case r of None \<Rightarrow> CacheDone None | Some n \<Rightarrow> InsEvict n, s))"
| "cache_section room (InsEvict n) s = bindR (insert_evict n s) (\<lambda>s'. Inr (CacheDone None, s'))"
| "cache_section room (CacheDone r) s = Inr (CacheDone r, s)"

fun cache_done :: "'v cache_pc \<Rightarrow> bool" where
  "cache_done (CacheDone r) = True"
| "cache_done _ = False"

datatype 'v cache_conf = Threads "'v cache_pc list" "'v lru_cache" | Crashed fault

inductive lru_step :: "nat \<Rightarrow> 'v cache_conf \<Rightarrow> 'v cache_conf \<Rightarrow> bool" for room where
  section_ok: "i < length ts \<Longrightarrow> \<not> cache_done (ts ! i) \<Longrightarrow> cache_section room (ts ! i) s = Inr (p, s') \<Longrightarrow>
    lru_step room (Threads ts s) (Threads (ts[i := p]) s')"
| section_bad: "i < length ts \<Longrightarrow> \<not> cache_done (ts ! i) \<Longrightarrow> cache_section room (ts ! i) s = Inl f \<Longrightarrow>
    lru_step room (Threads ts s) (Crashed f)"

inductive_cases lru_step_ThreadsE: "lru_step room (Threads ts s) c"
inductive_simps lru_step_Crashed [simp]: "lru_step room (Crashed f) c"

abbreviation lru_steps :: "nat \<Rightarrow> 'v cache_conf \<Rightarrow> 'v cache_conf \<Rightarrow> bool" where
  "lru_steps room \<equiv> (lru_step room)\<^sup>*\<^sup>*"

text \<open>The run in which the threads take turns as the list says.\<close>

fun run_turns :: "nat \<Rightarrow> nat list \<Rightarrow> 'v cache_conf \<Rightarrow> 'v cache_conf" where
  "run_turns room [] c = c"
| "run_turns room (i # is) (Crashed f) = Crashed f"
| "run_turns room (i # is) (Threads ts s) =
     (if i < length ts \<and> \<not> cache_done (ts ! i) then
        (case cache_section room (ts ! i) s of
           Inl f \<Rightarrow> Crashed f
         | Inr (p, s') \<Rightarrow> run_turns room is (Threads (ts[i := p]) s'))
      else run_turns room is (Threads ts s))"

lemma run_turns_steps: "lru_steps room c (run_turns room is c)"
proof (induction room "is" c rule: run_turns.induct)
  case (3 room i "is" ts s)
  show ?case
  proof (cases "i < length ts \<and> \<not> cache_done (ts ! i)")
    case True
    show ?thesis
    proof (cases "cache_section room (ts ! i) s")
      case (Inl f)
      then show ?thesis using True by (auto intro: section_bad)
    next
      case (Inr r)
      then obtain p s' where r: "cache_section room (ts ! i) s = Inr (p, s')" by (cases r) auto
      then have "lru_step room (Threads ts s) (Threads (ts[i := p]) s')" using True by (auto intro: section_ok)
      then show ?thesis using 3(1) [OF True r] True r by (auto intro: converse_rtranclp_into_rtranclp)
    qed
  next
    case False
    then show ?thesis using 3(2) [OF False] by auto
  qed
qed auto

section \<open>A thread on its own\<close>

text \<open>Without interleaving the sections of a thread are the operation of theory \<open>Lru_Cache\<close>.\<close>

lemma sections_at:
  "run_turns room [0, 0] (Threads [AtStart key] s) =
     (case at key s of Inl f \<Rightarrow> Crashed f | Inr (r, s') \<Rightarrow> Threads [CacheDone r] s')"
  by (cases "at_lookup key s"; auto simp: at_def bindR_def split: option.splits sum.splits)

lemma sections_insert:
  assumes "length (cache_map_m s) < room"
  shows "run_turns room [0, 0, 0, 0, 0] (Threads [InsStart key v] s) =
     (case cache_insert key v s of Inl f \<Rightarrow> Crashed f | Inr s' \<Rightarrow> Threads [CacheDone None] s')"
proof -
  have "put_section room key v s1 = insert_put key v s1" if "length (cache_map_m s1) \<le> length (cache_map_m s)" for s1
    using assms that by (simp add: put_section_def)
  moreover have "length (cache_map_m s1) \<le> length (cache_map_m s)" if "insert_erase it s = Inr s1" for it s1
    using that by (auto simp: insert_erase_def umap_erase_it_def bindR_Inr_iff)
  ultimately show ?thesis
    by (cases "insert_find key s"; auto simp: cache_insert_def Let_def bindR_def split: option.splits sum.splits)
qed

section \<open>Lookups under every interleaving\<close>

text \<open>
  A thread between the two sections of \<^verbatim>\<open>at\<close> holds an iterator to a map node that nobody erases:
  other lookups move list nodes, but the map node stays and leads to the current list node.
\<close>

fun lookup_ok :: "'v lru_cache \<Rightarrow> bytes \<Rightarrow> 'v cache_pc \<Rightarrow> bool" where
  "lookup_ok s k (AtStart key) \<longleftrightarrow> key = k"
| "lookup_ok s k (AtMove key v it) \<longleftrightarrow> key = k \<and> map_of (lru_entries s) key = Some v
     \<and> (\<exists>n. (it, key, n) \<in> set (cache_map_m s))"
| "lookup_ok s k (CacheDone r) \<longleftrightarrow> r = map_of (lru_entries s) k"
| "lookup_ok s k _ \<longleftrightarrow> False"

text \<open>Map nodes keep their address and their key.\<close>

definition nodes_of :: "'v lru_cache \<Rightarrow> (node_id \<times> bytes) set" where
  "nodes_of s = (\<lambda>(i, k, n). (i, k)) ` set (cache_map_m s)"

lemma nodes_of_iff: "(it, key) \<in> nodes_of s \<longleftrightarrow> (\<exists>n. (it, key, n) \<in> set (cache_map_m s))"
  by (force simp: nodes_of_def)

lemma at_lookup_section:
  assumes wf: "lru_wf s"
  shows "\<exists>p. cache_section room (AtStart key) s = Inr (p, s) \<and> lookup_ok s key p"
proof (cases "key \<in> set (map_keys (cache_map_m s))")
  case False
  then show ?thesis using lru_absent [OF wf False] by (simp add: at_lookup_def)
next
  case True
  from lru_present [OF wf this] obtain it n v where f: "(it, key, n) \<in> set (cache_map_m s)"
    "(n, key, v) \<in> set (LRU_list_m s)" "umap_find key (cache_map_m s) = Some (it, key, n)"
    "map_of (lru_entries s) key = Some v" by blast
  have "list_deref n (LRU_list_m s) = Inr (key, v)"
    using wf list_deref_ok [OF _ f(2)] by (simp add: lru_wf_def index_ok_iff)
  then show ?thesis using f by (cases "LRU_list_m s") (auto simp: at_lookup_def)
qed

lemma at_move_section:
  assumes wf: "lru_wf s" and ok: "lookup_ok s key (AtMove key v it)"
  shows "\<exists>s'. cache_section room (AtMove key v it) s = Inr (CacheDone (Some v), s') \<and> lru_wf s'
    \<and> capacity_m s' = capacity_m s \<and> map_of (lru_entries s') = map_of (lru_entries s) \<and> nodes_of s' = nodes_of s"
proof -
  obtain n where it: "(it, key, n) \<in> set (cache_map_m s)" and v: "map_of (lru_entries s) key = Some v"
    using ok by auto
  obtain u where u: "(n, key, u) \<in> set (LRU_list_m s)"
    using wf it unfolding lru_wf_def index_ok_iff by blast
  from at_move_refines [OF wf it u, of v] obtain s' where s': "at_move key v it s = Inr s'" "lru_wf s'"
    "capacity_m s' = capacity_m s" "lru_entries s' = (key, v) # remove_key key (lru_entries s)" by blast
  have "map_of (lru_entries s') = map_of (lru_entries s)"
    using spec_at_map(1) [of key "lru_entries s"] by (simp add: s'(4) spec_at_def v)
  moreover have "nodes_of s' = nodes_of s"
  proof -
    have key: "key \<in> set (map_keys (cache_map_m s))" using it by (auto simp: set_map_keys)
    obtain b b' where "cache_map_m s' = umap_assign b' key b (cache_map_m s)"
      using s'(1) by (auto simp: at_move_def bindR_Inr_iff Let_def split: prod.splits)
    then have "cache_map_m s' = map (\<lambda>(i, k, n). if k = key then (i, k, b) else (i, k, n)) (cache_map_m s)"
      using key umap_find_None [of key "cache_map_m s"] by (auto simp: umap_assign_def split: option.splits)
    then show ?thesis unfolding nodes_of_def by (simp add: image_image) (rule image_cong, auto)
  qed
  ultimately show ?thesis using s' by simp
qed

lemma lookup_ok_frame:
  "map_of (lru_entries s') = map_of (lru_entries s) \<Longrightarrow> nodes_of s' = nodes_of s \<Longrightarrow>
     lookup_ok s k p \<Longrightarrow> lookup_ok s' k p"
  by (cases p) (simp_all flip: nodes_of_iff)

lemma lookups_step:
  assumes "lru_step room (Threads ts s) c" and wf: "lru_wf s" and ts: "list_all2 (lookup_ok s) ks ts"
  shows "\<exists>ts' s'. c = Threads ts' s' \<and> lru_wf s' \<and> capacity_m s' = capacity_m s
    \<and> map_of (lru_entries s') = map_of (lru_entries s) \<and> list_all2 (lookup_ok s') ks ts'"
proof -
  have one: "\<exists>p s'. cache_section room (ts ! i) s = Inr (p, s') \<and> lru_wf s' \<and> capacity_m s' = capacity_m s
      \<and> map_of (lru_entries s') = map_of (lru_entries s) \<and> nodes_of s' = nodes_of s \<and> lookup_ok s' (ks ! i) p"
    if i: "i < length ts" "\<not> cache_done (ts ! i)" for i
  proof -
    have "lookup_ok s (ks ! i) (ts ! i)" using ts i(1) by (auto simp: list_all2_conv_all_nth)
    then consider "ts ! i = AtStart (ks ! i)"
      | v it where "ts ! i = AtMove (ks ! i) v it" "lookup_ok s (ks ! i) (AtMove (ks ! i) v it)"
      using i(2) by (cases "ts ! i") auto
    then show ?thesis
    proof cases
      case 1
      then show ?thesis using at_lookup_section [OF wf, of room "ks ! i"] wf by auto
    next
      case 2
      from at_move_section [OF wf 2(2), of room] 2 show ?thesis by fastforce
    qed
  qed
  from assms(1) show ?thesis
  proof (rule lru_step_ThreadsE)
    fix i p s1
    assume st: "c = Threads (ts[i := p]) s1" "i < length ts" "\<not> cache_done (ts ! i)"
      "cache_section room (ts ! i) s = Inr (p, s1)"
    from one [OF st(2,3)] st(4) have s1: "lru_wf s1" "capacity_m s1 = capacity_m s"
      "map_of (lru_entries s1) = map_of (lru_entries s)" "nodes_of s1 = nodes_of s" "lookup_ok s1 (ks ! i) p"
      by auto
    have "list_all2 (lookup_ok s1) ks ts"
      using ts lookup_ok_frame [OF s1(3,4)] by (auto simp: list_all2_conv_all_nth)
    then have "list_all2 (lookup_ok s1) ks (ts[i := p])"
      using list_all2_update_cong [of "lookup_ok s1" ks ts "ks ! i" p i] s1(5) by simp
    then show ?thesis using st(1) s1 by blast
  next
    fix i f
    assume "i < length ts" "\<not> cache_done (ts ! i)" "cache_section room (ts ! i) s = Inl f"
    with one [of i] show ?thesis by auto
  qed
qed

lemma lookups_steps:
  assumes "lru_steps room (Threads ts s) c" and "lru_wf s" and "list_all2 (lookup_ok s) ks ts"
  shows "\<exists>ts' s'. c = Threads ts' s' \<and> lru_wf s' \<and> capacity_m s' = capacity_m s
    \<and> map_of (lru_entries s') = map_of (lru_entries s) \<and> list_all2 (lookup_ok s') ks ts'"
  using assms(1)
proof (induction rule: rtranclp_induct)
  case base
  then show ?case using assms by blast
next
  case (step c d)
  then obtain ts' s' where "c = Threads ts' s'" "lru_wf s'" "capacity_m s' = capacity_m s"
    "map_of (lru_entries s') = map_of (lru_entries s)" "list_all2 (lookup_ok s') ks ts'" by blast
  with lookups_step [of room ts' s' d ks] step.hyps(2) show ?case by auto
qed

section \<open>Properties\<close>

text \<open>
  C19: any number of concurrent lookups, in every interleaving of their critical sections, never
  use a bad iterator; the cache stays well-formed with the same entries, and every lookup that has
  finished has returned what is stored under its key.
\<close>

theorem concurrent_lookups_safe:
  assumes "lru_wf s" and "lru_steps room (Threads (map AtStart ks) s) c"
  shows "\<exists>ts s'. c = Threads ts s' \<and> lru_wf s' \<and> map_of (lru_entries s') = map_of (lru_entries s)
    \<and> (\<forall>i < length ks. \<forall>r. ts ! i = CacheDone r \<longrightarrow> r = map_of (lru_entries s) (ks ! i))"
proof -
  have "list_all2 (lookup_ok s) ks (map AtStart ks)" by (simp add: list_all2_conv_all_nth)
  from lookups_steps [OF assms(2,1) this] obtain ts s' where
    ts: "c = Threads ts s'" "lru_wf s'" "map_of (lru_entries s') = map_of (lru_entries s)"
      "list_all2 (lookup_ok s') ks ts" by blast
  have "r = map_of (lru_entries s) (ks ! i)" if "i < length ks" "ts ! i = CacheDone r" for i r
    using list_all2_nthD [OF ts(4) that(1)] that(2) ts(3) by simp
  then show ?thesis using ts by blast
qed

theorem concurrent_lookups_safe_witness:
  "\<exists>ts s'. run_turns 2 [0, 1, 0, 1] (Threads [AtStart ''a'', AtStart ''a''] two_entries) = Threads ts s'
    \<and> map_of (lru_entries s') ''b'' = Some 20"
proof -
  have "lru_steps 2 (Threads (map AtStart [''a'', ''a'']) two_entries)
      (run_turns 2 [0, 1, 0, 1] (Threads [AtStart ''a'', AtStart ''a''] two_entries))"
    using run_turns_steps by (simp del: run_turns.simps)
  from concurrent_lookups_safe [OF two_entries_wf(1) this] show ?thesis
    by (auto simp: two_entries_wf(2) simp del: run_turns.simps)
qed

text \<open>
  A lookup keeps its map iterator while it changes from the shared to the exclusive lock, and an
  eviction in between erases the node it points to.
\<close>

lemmas section_simps = bindR_def two_entries_def at_lookup_def at_move_def insert_find_def insert_erase_def
  insert_check_def insert_evict_def put_section_def umap_rehash_def insert_put_def umap_find_def umap_deref_def
  umap_assign_def umap_erase_key_def umap_erase_it_def list_deref_def list_erase_def

lemma lookup_races_with_insert:
  "lru_steps room (Threads [AtStart ''a'', InsStart ''c'' 30] two_entries) (Crashed BadIterator)"
proof -
  have "run_turns room [0, 1, 1, 1, 1, 0] (Threads [AtStart ''a'', InsStart ''c'' 30] two_entries) = Crashed BadIterator"
    by (cases "room < 3") (simp_all add: section_simps)
  then show ?thesis
    using run_turns_steps [of room "Threads [AtStart ''a'', InsStart ''c'' 30] two_entries" "[0, 1, 1, 1, 1, 0]"] by simp
qed

text \<open>
  Each of two insertions keeps a reference to the key of the last list node while it changes locks, and
  when both evict, the second one reads a destroyed node.
\<close>

lemma inserts_race:
  "lru_steps room (Threads [InsStart ''c'' 30, InsStart ''d'' 40] two_entries) (Crashed BadIterator)"
proof -
  have "run_turns room [0, 0, 0, 1, 1, 1, 0, 1] (Threads [InsStart ''c'' 30, InsStart ''d'' 40] two_entries)
      = Crashed BadIterator"
    by (cases "room < 3"; cases "room < 4") (simp_all add: section_simps)
  then show ?thesis
    using run_turns_steps [of room "Threads [InsStart ''c'' 30, InsStart ''d'' 40] two_entries"
        "[0, 0, 0, 1, 1, 1, 0, 1]"] by simp
qed

text \<open>
  C22: evictions are not safe. A lookup and an insertion that evicts, or two insertions that both evict,
  can interleave their critical sections so that an erased node is used: the lookup through the map
  iterator that it keeps while it changes locks, the insertion through the reference to the key of the
  last list node that it keeps. In each case the two calls run on the same cache of two entries, whatever
  the room of its hash table, which each of them leaves well-formed when it runs alone.
\<close>

theorem evictions_race:
  "lru_steps room (Threads [AtStart ''a'', InsStart ''c'' 30] two_entries) (Crashed BadIterator)
   \<and> lru_steps room (Threads [InsStart ''c'' 30, InsStart ''d'' 40] two_entries) (Crashed BadIterator)
   \<and> (\<exists>s v. at ''a'' two_entries = Inr (v, s) \<and> lru_wf s)
   \<and> (\<exists>s. cache_insert ''c'' 30 two_entries = Inr s \<and> lru_wf s)
   \<and> (\<exists>s. cache_insert ''d'' 40 two_entries = Inr s \<and> lru_wf s)"
proof -
  note wf = two_entries_wf(1)
  have "\<exists>s. cache_insert k v two_entries = Inr s \<and> lru_wf s" for k v using insert_refines [OF wf, of k v] by blast
  moreover have "\<exists>s v. at ''a'' two_entries = Inr (v, s) \<and> lru_wf s" using at_refines [OF wf, of "''a''"] by blast
  ultimately show ?thesis using lookup_races_with_insert inserts_race by blast
qed

text \<open>
  C21: nothing need be evicted for a race. A lookup that has found its entry behind the front changes from
  the shared to the exclusive lock; if in between an insertion of a new key makes the map rehash, the
  lookup uses an iterator that the rehash has invalidated -- in every well-formed cache whose hash table
  is full, however much capacity is left. Each of the two calls alone leaves the cache well-formed.
\<close>

theorem lookup_races_with_rehash:
  assumes wf: "lru_wf s" and k: "map_of (lru_entries s) k \<noteq> None" "fst (hd (lru_entries s)) \<noteq> k"
    and new: "map_of (lru_entries s) k' = None" and full: "room \<le> length (lru_entries s)"
  shows "lru_steps room (Threads [AtStart k, InsStart k' v'] s) (Crashed BadIterator)
    \<and> (\<exists>v s'. at k s = Inr (v, s') \<and> lru_wf s') \<and> (\<exists>s'. cache_insert k' v' s = Inr s' \<and> lru_wf s')"
proof -
  have "k \<in> set (map_keys (cache_map_m s))"
  proof (rule ccontr)
    assume "k \<notin> set (map_keys (cache_map_m s))"
    from lru_absent(2) [OF wf this] k(1) show False by simp
  qed
  from lru_present [OF wf this] obtain it n v where f: "(it, k, n) \<in> set (cache_map_m s)"
    "(n, k, v) \<in> set (LRU_list_m s)" "umap_find k (cache_map_m s) = Some (it, k, n)" by blast
  have d: "list_deref n (LRU_list_m s) = Inr (k, v)"
    using wf list_deref_ok [OF _ f(2)] by (simp add: lru_wf_def index_ok_iff)
  obtain n0 k0 v0 xs where xs: "LRU_list_m s = (n0, k0, v0) # xs" using f(2) by (cases "LRU_list_m s") auto
  then have "k \<noteq> k0" using k(2) by (auto simp: lru_entries_def)
  then have a: "at_lookup k s = Inr (Some (v, Some it))" using f(3) d xs by (simp add: at_lookup_def)
  have k': "k' \<notin> set (map_keys (cache_map_m s))" using lru_present [OF wf, of k'] new by auto
  then have nf: "umap_find k' (cache_map_m s) = None" by (simp add: umap_find_None)
  have "length (cache_map_m s) = length (lru_entries s)"
    using wf index_length [of "cache_map_m s" "LRU_list_m s"] by (simp add: lru_wf_def lru_entries_def)
  then have p: "put_section room k' v' s = umap_rehash (insert_put k' v' s)" using nf full by (simp add: put_section_def)
  have old: "it < next_node s" using wf f(1) by (force simp: lru_wf_def)
  let ?s1 = "umap_rehash (insert_put k' v' s)"
  have "\<forall>x \<in> set (cache_map_m ?s1). it < fst x"
    using old by (auto simp: umap_rehash_def insert_put_def Let_def)
  then have "find (\<lambda>(i, k, n). i = it) (cache_map_m ?s1) = None" by (auto simp: find_None_iff)
  then have "umap_deref it (cache_map_m ?s1) = Inl BadIterator" by (simp add: umap_deref_def)
  then have m: "at_move k v it ?s1 = Inl BadIterator" by (simp add: at_move_def)
  have "run_turns room [0, 1, 1, 0] (Threads [AtStart k, InsStart k' v'] s) = Crashed BadIterator"
    using a nf p m by (simp add: insert_find_def)
  then have "lru_steps room (Threads [AtStart k, InsStart k' v'] s) (Crashed BadIterator)"
    using run_turns_steps [of room "Threads [AtStart k, InsStart k' v'] s" "[0, 1, 1, 0]"] by simp
  then show ?thesis using at_refines [OF wf, of k] insert_refines [OF wf, of k' v'] by blast
qed

theorem lookup_races_with_rehash_witness:
  "lru_steps 2 (Threads [AtStart ''a'', InsStart ''c'' 30] (two_entries\<lparr>capacity_m := 100\<rparr>)) (Crashed BadIterator)"
proof -
  have "lru_wf (two_entries\<lparr>capacity_m := 100\<rparr>)" using two_entries_wf(1) by (simp add: lru_wf_def two_entries_def)
  moreover have "lru_entries (two_entries\<lparr>capacity_m := 100\<rparr>) = [(''b'', 20), (''a'', 10)]"
    using two_entries_wf(2) by (simp add: lru_entries_def)
  ultimately show ?thesis using lookup_races_with_rehash [of "two_entries\<lparr>capacity_m := 100\<rparr>" "''a''" "''c''" 2 30] by simp
qed

end
