(* ===== verification/Lru_Growth.thy ===== *)
theory Lru_Growth
  imports Lru_Race
begin

text \<open>
  Insertions beside insertions and lookups. The races of theory \<open>Lru_Race\<close> go through an erased node or a
  rehash; as long as the keys that are inserted concurrently are new and different, and the cache has room
  for all of them, nothing is erased, and insertions are safe under every interleaving of their
  critical sections, beside lookups if the hash table has room, too.
\<close>

section \<open>What a thread knows\<close>

text \<open>By the section a thread started with and the section it is in now; \<open>m\<close> is what the cache held at the start.\<close>

fun thread_ok :: "(bytes \<Rightarrow> 'v option) \<Rightarrow> 'v lru_cache \<Rightarrow> 'v cache_pc \<Rightarrow> 'v cache_pc \<Rightarrow> bool" where
  "thread_ok m s (AtStart k) p \<longleftrightarrow> (case p of
       AtStart k' \<Rightarrow> k' = k
     | AtMove k' v it \<Rightarrow> k' = k \<and> map_of (lru_entries s) k = Some v \<and> (it, k) \<in> nodes_of s
     | CacheDone r \<Rightarrow> (case r of None \<Rightarrow> m k = None | Some v \<Rightarrow> map_of (lru_entries s) k = Some v)
     | _ \<Rightarrow> False)"
| "thread_ok m s (InsStart k v) p \<longleftrightarrow> (case p of
       InsStart k' v' \<Rightarrow> k' = k \<and> v' = v \<and> map_of (lru_entries s) k = None
     | InsPut k' v' \<Rightarrow> k' = k \<and> v' = v \<and> map_of (lru_entries s) k = None
     | InsCheck \<Rightarrow> map_of (lru_entries s) k = Some v
     | CacheDone r \<Rightarrow> r = None \<and> map_of (lru_entries s) k = Some v
     | _ \<Rightarrow> False)"
| "thread_ok m s _ p \<longleftrightarrow> False"

fun still_puts :: "'v cache_pc \<Rightarrow> nat" where
  "still_puts (InsStart k v) = 1"
| "still_puts (InsPut k v) = 1"
| "still_puts _ = 0"

fun ins_keys :: "'v cache_pc list \<Rightarrow> bytes list" where
  "ins_keys [] = []"
| "ins_keys (InsStart k v # ps) = k # ins_keys ps"
| "ins_keys (_ # ps) = ins_keys ps"

lemma ins_keys_distinct:
  assumes "distinct (ins_keys ps)" and "i < length ps" and "j < length ps" and "i \<noteq> j"
    and "ps ! i = InsStart k v" and "ps ! j = InsStart k' v'"
  shows "k \<noteq> k'"
proof -
  have mem: "k \<in> set (ins_keys ps)" if "i < length ps" "ps ! i = InsStart k v" for i k v and ps :: "'v cache_pc list"
    using that
  proof (induction ps arbitrary: i)
    case (Cons p ps)
    then show ?case by (cases i; cases p) auto
  qed simp
  show ?thesis using assms
  proof (induction ps arbitrary: i j)
    case (Cons p ps)
    show ?case
    proof (cases i)
      case 0
      with Cons.prems show ?thesis using mem [of "j - 1" ps k' v'] by (cases j) auto
    next
      case (Suc i')
      show ?thesis
      proof (cases j)
        case 0
        with Cons.prems Suc show ?thesis using mem [of i' ps k v] by auto
      next
        case (Suc j')
        have "distinct (ins_keys ps)" using Cons.prems(1) by (cases p) auto
        from Cons.IH [OF this, of i' j'] Cons.prems \<open>i = Suc i'\<close> Suc show ?thesis by simp
      qed
    qed
  qed simp
qed

section \<open>One critical section\<close>

lemma map_of_rehash:
  assumes "lru_wf s"
  shows "lru_wf (umap_rehash s)" "lru_entries (umap_rehash s) = lru_entries s" "capacity_m (umap_rehash s) = capacity_m s"
    "LRU_list_m (umap_rehash s) = LRU_list_m s"
proof -
  let ?f = "\<lambda>(i, k, n). (i + next_node s, k, n)"
  let ?m = "cache_map_m s"
  have ok: "index_ok ?m (LRU_list_m s)" using assms by (simp add: lru_wf_def)
  have "map_keys (map ?f ?m) = map_keys ?m" by (auto simp: map_keys_def)
  moreover have "map fst (map ?f ?m) = map (\<lambda>i. i + next_node s) (map fst ?m)" by auto
  then have "distinct (map fst (map ?f ?m))" using ok by (simp only:) (simp add: distinct_map index_ok_def inj_on_def)
  moreover have "(\<lambda>(i, k, n). (k, n)) ` set (map ?f ?m) = (\<lambda>(i, k, n). (k, n)) ` set ?m"
    by (simp add: image_image case_prod_unfold)
  ultimately have "index_ok (map ?f ?m) (LRU_list_m s)" using ok by (simp add: index_ok_def)
  moreover have "i < next_node s + next_node s" if "i \<in> fst ` set (LRU_list_m s)" for i
    using assms that by (auto simp: lru_wf_def intro: trans_less_add1)
  moreover have "i < next_node s + next_node s" if "i \<in> fst ` set (map ?f ?m)" for i
    using assms that by (force simp: lru_wf_def)
  ultimately show "lru_wf (umap_rehash s)"
    using assms by (simp add: lru_wf_def umap_rehash_def) blast
qed (simp_all add: umap_rehash_def lru_entries_def)

lemma put_section_new:
  assumes wf: "lru_wf s" and new: "map_of (lru_entries s) k = None" and space: "length (LRU_list_m s) < unat (capacity_m s)"
  shows "lru_wf (put_section room k v s) \<and> lru_entries (put_section room k v s) = (k, v) # lru_entries s
    \<and> capacity_m (put_section room k v s) = capacity_m s
    \<and> length (LRU_list_m (put_section room k v s)) = Suc (length (LRU_list_m s))
    \<and> (Suc (length (LRU_list_m s)) \<le> room \<longrightarrow> nodes_of s \<subseteq> nodes_of (put_section room k v s))"
proof -
  have k: "k \<notin> set (map_keys (cache_map_m s))" using lru_present [OF wf, of k] new by auto
  let ?s1 = "insert_put k v s"
  have p: "?s1 = s\<lparr>LRU_list_m := (next_node s, k, v) # LRU_list_m s,
      cache_map_m := (Suc (next_node s), k, next_node s) # cache_map_m s, next_node := Suc (Suc (next_node s))\<rparr>"
    by (simp add: insert_put_def Let_def umap_assign_absent [OF k])
  have "index_ok ((Suc (next_node s), k, next_node s) # cache_map_m s) ((next_node s, k, v) # LRU_list_m s)"
    by (rule index_ok_put [OF _ k lru_fresh [OF wf]]) (use wf in \<open>simp add: lru_wf_def\<close>)
  then have wf1: "lru_wf ?s1" using wf space by (auto simp: p lru_wf_def less_Suc_eq)
  have e1: "lru_entries ?s1 = (k, v) # lru_entries s" "capacity_m ?s1 = capacity_m s"
    "length (LRU_list_m ?s1) = Suc (length (LRU_list_m s))" by (simp_all add: p lru_entries_def)
  have n1: "nodes_of s \<subseteq> nodes_of ?s1" unfolding p nodes_of_def by (simp add: subset_insertI)
  have "length (cache_map_m s) = length (LRU_list_m s)"
    using wf index_length [of "cache_map_m s" "LRU_list_m s"] by (simp add: lru_wf_def)
  then show ?thesis using wf1 e1 n1 map_of_rehash [OF wf1] by (simp add: put_section_def)
qed

lemma growth_section:
  assumes wf: "lru_wf s" and ok: "thread_ok m s p0 p" and m: "m \<subseteq>\<^sub>m map_of (lru_entries s)" and busy: "\<not> cache_done p"
    and space: "length (LRU_list_m s) + still_puts p \<le> unat (capacity_m s)"
  shows "\<exists>p' s'. cache_section room p s = Inr (p', s') \<and> lru_wf s' \<and> capacity_m s' = capacity_m s \<and> thread_ok m s' p0 p'
    \<and> length (LRU_list_m s') + still_puts p' = length (LRU_list_m s) + still_puts p
    \<and> (length (LRU_list_m s) + still_puts p \<le> room \<longrightarrow> nodes_of s \<subseteq> nodes_of s')
    \<and> (map_of (lru_entries s') = map_of (lru_entries s)
       \<or> (\<exists>k v. p0 = InsStart k v \<and> map_of (lru_entries s) k = None \<and> map_of (lru_entries s') = (map_of (lru_entries s))(k \<mapsto> v)))"
proof (cases p0)
  case (AtStart k)
  with ok busy consider "p = AtStart k" | v it where "p = AtMove k v it" "map_of (lru_entries s) k = Some v" "(it, k) \<in> nodes_of s"
    by (cases p) auto
  then show ?thesis
  proof cases
    case 1
    from at_lookup_section [OF wf, of room k] obtain p' where p': "cache_section room (AtStart k) s = Inr (p', s)" "lookup_ok s k p'" by blast
    have "m k = None" if "map_of (lru_entries s) k = None" using m that by (metis domIff map_le_def)
    with p'(2) have "thread_ok m s p0 p' \<and> still_puts p' = 0"
      by (cases p') (auto simp: AtStart simp flip: nodes_of_iff split: option.splits)
    then show ?thesis using 1 p' wf by auto
  next
    case 2
    then have "lookup_ok s k (AtMove k v it)" by (simp flip: nodes_of_iff)
    from at_move_section [OF wf this] obtain s' where s': "cache_section room (AtMove k v it) s = Inr (CacheDone (Some v), s')"
      "lru_wf s'" "capacity_m s' = capacity_m s" "map_of (lru_entries s') = map_of (lru_entries s)" "nodes_of s' = nodes_of s"
      by blast
    have "length (LRU_list_m s') = length (LRU_list_m s)"
    proof -
      have "length (LRU_list_m x) = card (dom (map_of (lru_entries x)))" if "lru_wf x" for x :: "'a lru_cache"
      proof -
        have "distinct (map fst (lru_entries x))"
          using that by (simp add: lru_wf_def index_ok_iff lru_entries_def node_keys_def o_def case_prod_unfold)
        then show ?thesis
          by (simp add: dom_map_of_conv_image_fst distinct_card [of "map fst (lru_entries x)", simplified])
            (simp add: lru_entries_def)
      qed
      from this [OF wf] this [OF s'(2)] s'(4) show ?thesis by simp
    qed
    then show ?thesis using 2 s' AtStart by auto
  qed
next
  case (InsStart k v)
  with ok busy consider "p = InsStart k v" "map_of (lru_entries s) k = None" | "p = InsPut k v" "map_of (lru_entries s) k = None"
    | "p = InsCheck" "map_of (lru_entries s) k = Some v"
    by (cases p) auto
  then show ?thesis
  proof cases
    case 1
    then have "k \<notin> set (map_keys (cache_map_m s))" using lru_present [OF wf, of k] by auto
    then have "insert_find k s = None" using lru_absent(1) [OF wf] by (simp add: insert_find_def)
    then show ?thesis using 1 wf InsStart by simp
  next
    case 2
    from put_section_new [OF wf 2(2), of room v] space 2 show ?thesis by (auto simp: InsStart)
  next
    case 3
    have "length (cache_map_m s) = length (LRU_list_m s)" using wf index_length [of "cache_map_m s" "LRU_list_m s"] by (simp add: lru_wf_def)
    then have "insert_check s = Inr None" using wf by (simp add: insert_check_def lru_wf_def)
    then show ?thesis using 3 wf InsStart by simp
  qed
qed (use ok in simp_all)

lemma thread_ok_frame:
  assumes "thread_ok m s p0 p" and "(\<exists>k. p0 = AtStart k) \<longrightarrow> nodes_of s \<subseteq> nodes_of s'"
    and "map_of (lru_entries s') = map_of (lru_entries s)
      \<or> (\<exists>k v. map_of (lru_entries s) k = None \<and> map_of (lru_entries s') = (map_of (lru_entries s))(k \<mapsto> v)
          \<and> (\<forall>v'. p0 \<noteq> InsStart k v'))"
  shows "thread_ok m s' p0 p"
  using assms by (cases p0; cases p) (auto split: if_splits option.splits)

section \<open>All threads\<close>

text \<open>With lookups among the threads the hash table must have room for the new keys, too.\<close>

definition growth_inv :: "nat \<Rightarrow> (bytes \<Rightarrow> 'v option) \<Rightarrow> 'v cache_pc list \<Rightarrow> u32 \<Rightarrow> 'v cache_conf \<Rightarrow> bool" where
  "growth_inv room m ps cap c \<longleftrightarrow> (\<exists>ts s. c = Threads ts s \<and> lru_wf s \<and> capacity_m s = cap \<and> list_all2 (thread_ok m s) ps ts \<and> m \<subseteq>\<^sub>m map_of (lru_entries s)
     \<and> length (LRU_list_m s) + sum_list (map still_puts ts) \<le> unat cap
     \<and> ((\<exists>k. AtStart k \<in> set ps) \<longrightarrow> length (LRU_list_m s) + sum_list (map still_puts ts) \<le> room))"

lemma growth_step:
  assumes st: "lru_step room (Threads ts s) c" and inv: "growth_inv room m ps cap (Threads ts s)" and dist: "distinct (ins_keys ps)"
  shows "growth_inv room m ps cap c \<and> (\<exists>ts' s'. c = Threads ts' s' \<and> map_of (lru_entries s) \<subseteq>\<^sub>m map_of (lru_entries s'))"
proof -
  from inv have wf: "lru_wf s" and m0: "m \<subseteq>\<^sub>m map_of (lru_entries s)" and cap: "capacity_m s = cap" and ok: "list_all2 (thread_ok m s) ps ts"
    and space: "length (LRU_list_m s) + sum_list (map still_puts ts) \<le> unat cap"
    and room: "(\<exists>k. AtStart k \<in> set ps) \<longrightarrow> length (LRU_list_m s) + sum_list (map still_puts ts) \<le> room"
    by (auto simp: growth_inv_def)
  have len: "length ps = length ts" using ok by (rule list_all2_lengthD)
  have one: "\<exists>p' s'. cache_section room (ts ! i) s = Inr (p', s') \<and> lru_wf s' \<and> capacity_m s' = capacity_m s \<and> thread_ok m s' (ps ! i) p'
    \<and> length (LRU_list_m s') + still_puts p' = length (LRU_list_m s) + still_puts (ts ! i)
    \<and> ((\<exists>k. AtStart k \<in> set ps) \<longrightarrow> nodes_of s \<subseteq> nodes_of s')
    \<and> (map_of (lru_entries s') = map_of (lru_entries s)
       \<or> (\<exists>k v. ps ! i = InsStart k v \<and> map_of (lru_entries s) k = None \<and> map_of (lru_entries s') = (map_of (lru_entries s))(k \<mapsto> v)))"
    if i: "i < length ts" "\<not> cache_done (ts ! i)" for i
  proof -
    have "still_puts (ts ! i) \<le> sum_list (map still_puts ts)" using elem_le_sum_list [of i "map still_puts ts"] i(1) by simp
    then have le: "length (LRU_list_m s) + still_puts (ts ! i) \<le> length (LRU_list_m s) + sum_list (map still_puts ts)" by simp
    obtain p' s' where "cache_section room (ts ! i) s = Inr (p', s')" "lru_wf s'" "capacity_m s' = capacity_m s"
      "thread_ok m s' (ps ! i) p'"
      "length (LRU_list_m s') + still_puts p' = length (LRU_list_m s) + still_puts (ts ! i)"
      "length (LRU_list_m s) + still_puts (ts ! i) \<le> room \<longrightarrow> nodes_of s \<subseteq> nodes_of s'"
      "map_of (lru_entries s') = map_of (lru_entries s)
       \<or> (\<exists>k v. ps ! i = InsStart k v \<and> map_of (lru_entries s) k = None \<and> map_of (lru_entries s') = (map_of (lru_entries s))(k \<mapsto> v))"
      using growth_section [OF wf list_all2_nthD2 [OF ok i(1)] m0 i(2), of room] le space cap by auto
    then show ?thesis using le room le_trans [OF le] by blast
  qed
  from st show ?thesis
  proof (rule lru_step_ThreadsE)
    fix i p s1
    assume i: "c = Threads (ts[i := p]) s1" "i < length ts" "\<not> cache_done (ts ! i)" "cache_section room (ts ! i) s = Inr (p, s1)"
    from one [OF i(2,3)] i(4) have s1: "lru_wf s1" "capacity_m s1 = capacity_m s" "thread_ok m s1 (ps ! i) p"
      "length (LRU_list_m s1) + still_puts p = length (LRU_list_m s) + still_puts (ts ! i)" "(\<exists>k. AtStart k \<in> set ps) \<longrightarrow> nodes_of s \<subseteq> nodes_of s1"
      and ch: "map_of (lru_entries s1) = map_of (lru_entries s)
       \<or> (\<exists>k v. ps ! i = InsStart k v \<and> map_of (lru_entries s) k = None \<and> map_of (lru_entries s1) = (map_of (lru_entries s))(k \<mapsto> v))"
      by auto
    have "thread_ok m s1 (ps ! j) (ts[i := p] ! j)" if j: "j < length ts" for j
    proof (cases "j = i")
      case False
      have "thread_ok m s1 (ps ! j) (ts ! j)"
      proof (rule thread_ok_frame [OF list_all2_nthD2 [OF ok j]])
        show "(\<exists>k. ps ! j = AtStart k) \<longrightarrow> nodes_of s \<subseteq> nodes_of s1"
          using s1(5) nth_mem [of j ps] j len by metis
        show "map_of (lru_entries s1) = map_of (lru_entries s)
          \<or> (\<exists>k v. map_of (lru_entries s) k = None \<and> map_of (lru_entries s1) = (map_of (lru_entries s))(k \<mapsto> v)
              \<and> (\<forall>v'. ps ! j \<noteq> InsStart k v'))"
          using ch ins_keys_distinct [OF dist, of i j] i(2) j False len by metis
      qed
      then show ?thesis using False by simp
    qed (use s1(3) i(2) in simp)
    then have "list_all2 (thread_ok m s1) ps (ts[i := p])" using len by (simp add: list_all2_conv_all_nth)
    moreover have "length (LRU_list_m s1) + sum_list (map still_puts (ts[i := p])) = length (LRU_list_m s) + sum_list (map still_puts ts)"
    proof -
      have "still_puts (ts ! i) \<le> sum_list (map still_puts ts)" using elem_le_sum_list [of i "map still_puts ts"] i(2) by simp
      then show ?thesis using s1(4) i(2) by (simp add: map_update sum_list_update)
    qed
    moreover have le: "map_of (lru_entries s) \<subseteq>\<^sub>m map_of (lru_entries s1)" using ch by (auto simp: map_le_def)
    ultimately have "growth_inv room m ps cap c" using i(1) s1(1,2) cap space room map_le_trans [OF m0] by (simp add: growth_inv_def)
    with le show ?thesis using i(1) by blast
  next
    fix i f
    assume "i < length ts" "\<not> cache_done (ts ! i)" "cache_section room (ts ! i) s = Inl f"
    with one [of i] show ?thesis by auto
  qed
qed

lemma growth_steps:
  assumes "lru_steps room (Threads ts s) c" and "growth_inv room m ps cap (Threads ts s)" and "distinct (ins_keys ps)"
  shows "growth_inv room m ps cap c"
  using assms(1)
proof (induction rule: rtranclp_induct)
  case (step c d)
  then show ?case using growth_step [OF _ _ assms(3)] by (auto simp: growth_inv_def)
qed (rule assms(2))

section \<open>Property\<close>

text \<open>
  C20: as long as nothing has to be erased -- the keys inserted concurrently are new and pairwise
  different and the cache has room for them --, any number of insertions are safe under every
  interleaving of their critical sections, also when the map rehashes: no bad iterator, the index stays
  intact, nothing is lost, and a finished insertion has stored its entry. If the hash table has room for
  the new keys, too, any number of lookups may run beside them, and a finished lookup has returned what
  is stored under its key, or nothing if the key was not there when the run began.
\<close>

theorem concurrent_insertions_safe:
  assumes "lru_wf s" and "lru_steps room (Threads ps s) c"
    and "\<forall>p \<in> set ps. (\<exists>k. p = AtStart k) \<or> (\<exists>k v. p = InsStart k v \<and> map_of (lru_entries s) k = None)"
    and "distinct (ins_keys ps)" and "length (lru_entries s) + length (ins_keys ps) \<le> unat (capacity_m s)"
    and "(\<exists>k. AtStart k \<in> set ps) \<longrightarrow> length (lru_entries s) + length (ins_keys ps) \<le> room"
  shows "\<exists>ts s'. c = Threads ts s' \<and> lru_wf s' \<and> map_of (lru_entries s) \<subseteq>\<^sub>m map_of (lru_entries s')
    \<and> (\<forall>i < length ps. \<forall>r. ts ! i = CacheDone r \<longrightarrow>
        (case ps ! i of
           AtStart k \<Rightarrow> r = map_of (lru_entries s') k \<or> r = None \<and> map_of (lru_entries s) k = None
         | InsStart k v \<Rightarrow> map_of (lru_entries s') k = Some v
         | _ \<Rightarrow> False))"
proof -
  have n: "sum_list (map still_puts qs) = length (ins_keys qs)"
    if "\<forall>p \<in> set qs. (\<exists>k. p = AtStart k) \<or> (\<exists>k v. p = InsStart k v \<and> map_of (lru_entries s) k = None)" for qs
    using that by (induction qs) auto
  have "thread_ok (map_of (lru_entries s)) s (ps ! i) (ps ! i)" if "i < length ps" for i
    using assms(3) that by (auto dest!: bspec [OF _ nth_mem])
  then have "growth_inv room (map_of (lru_entries s)) ps (capacity_m s) (Threads ps s)"
    using assms(1,5,6) n [OF assms(3)] by (simp add: growth_inv_def list_all2_conv_all_nth) (simp add: lru_entries_def)
  from growth_steps [OF assms(2) this assms(4)] obtain ts s' where c: "c = Threads ts s'" "lru_wf s'"
    "list_all2 (thread_ok (map_of (lru_entries s)) s') ps ts" "map_of (lru_entries s) \<subseteq>\<^sub>m map_of (lru_entries s')"
    by (auto simp: growth_inv_def)
  have "case ps ! i of AtStart k \<Rightarrow> r = map_of (lru_entries s') k \<or> r = None \<and> map_of (lru_entries s) k = None
      | InsStart k v \<Rightarrow> map_of (lru_entries s') k = Some v | _ \<Rightarrow> False"
    if "i < length ps" "ts ! i = CacheDone r" for i r
    using list_all2_nthD [OF c(3) that(1)] that(2) by (cases "ps ! i") (auto split: option.splits)
  with c show ?thesis by blast
qed

theorem concurrent_insertions_safe_witness:
  "\<exists>ts s'. run_turns 4 [0, 1, 2, 0, 1, 1, 0, 0, 2] (Threads [InsStart ''c'' 30, InsStart ''d'' 40, AtStart ''a'']
      (two_entries\<lparr>capacity_m := 4\<rparr>)) = Threads ts s' \<and> lru_wf s' \<and> map_of (lru_entries s') ''a'' = Some 10"
proof -
  let ?ps = "[InsStart ''c'' 30, InsStart ''d'' 40, AtStart ''a''] :: nat cache_pc list" and ?s = "two_entries\<lparr>capacity_m := 4\<rparr>"
  have e: "lru_entries ?s = [(''b'', 20), (''a'', 10)]" using two_entries_wf(2) by (simp add: lru_entries_def)
  have wf: "lru_wf ?s" using two_entries_wf(1) by (simp add: lru_wf_def two_entries_def)
  have "\<exists>ts s'. run_turns 4 [0, 1, 2, 0, 1, 1, 0, 0, 2] (Threads ?ps ?s) = Threads ts s' \<and> lru_wf s'
    \<and> map_of (lru_entries ?s) \<subseteq>\<^sub>m map_of (lru_entries s')
    \<and> (\<forall>i < length ?ps. \<forall>r. ts ! i = CacheDone r \<longrightarrow>
        (case ?ps ! i of
           AtStart k \<Rightarrow> r = map_of (lru_entries s') k \<or> r = None \<and> map_of (lru_entries ?s) k = None
         | InsStart k v \<Rightarrow> map_of (lru_entries s') k = Some v
         | _ \<Rightarrow> False))"
    by (rule concurrent_insertions_safe [OF wf run_turns_steps]) (simp_all add: e)
  then obtain ts s' where "run_turns 4 [0, 1, 2, 0, 1, 1, 0, 0, 2] (Threads ?ps ?s) = Threads ts s'" "lru_wf s'"
    "map_of (lru_entries ?s) \<subseteq>\<^sub>m map_of (lru_entries s')" by (elim exE conjE) (rule that)
  moreover from this(3) have "map_of (lru_entries s') ''a'' = Some 10" by (simp add: e map_le_def dom_def)
  ultimately show ?thesis by blast
qed

end
