(* ===== verification/Block_Queue.thy ===== *)
theory Block_Queue
  imports Prelude
begin

text \<open>
  The contract between the ring buffer and its clients. A queue of blocks promises: a write on a
  queue with room appends the message its callback produces, a write on a full queue changes
  nothing and reports it, a read of a published index returns that message and leaves the
  messages as they are, and a read of an unpublished index reports it. The client is the vector
  of queues of a cache entry (\<^verbatim>\<open>BufferVector\<close>), which grows by one queue whenever the last one is
  full: under the contract it is one unbounded log, whose message \<open>i\<close> is block \<open>i mod c\<close> of
  queue \<open>i div c\<close>.
\<close>

section \<open>Callbacks\<close>

text \<open>
  A \<^verbatim>\<open>WriteCallback\<close> fills the 64 bytes it is given and may change what it captures (here the
  producer, which resets its \<^verbatim>\<open>message_size_\<close>). \<open>cb_writes cb s sz m s'\<close>: called in state \<open>s\<close> it
  puts the \<open>sz\<close> bytes \<open>m\<close> at the start of the block and leaves \<open>s'\<close>.
\<close>

type_synonym 's write_callback = "bytes \<Rightarrow> 's \<Rightarrow> fault + (bytes \<times> 's)"

definition cb_writes :: "'s write_callback \<Rightarrow> 's \<Rightarrow> u32 \<Rightarrow> bytes \<Rightarrow> 's \<Rightarrow> bool" where
  "cb_writes cb s sz m s' \<longleftrightarrow> unat sz = length m \<and> length m \<le> BLOCK_SIZE_BYTES \<and>
     (\<forall>d. length d = BLOCK_SIZE_BYTES \<longrightarrow> cb d s = Inr (memcpy_at 0 m d, s'))"

section \<open>Vectors of queues\<close>

definition vec_msgs :: "('q \<Rightarrow> bytes list) \<Rightarrow> 'q list \<Rightarrow> bytes list" where
  "vec_msgs msgs qs = concat (map msgs qs)"

definition vec_wf ::
  "('q \<Rightarrow> bool) \<Rightarrow> ('q \<Rightarrow> bytes list) \<Rightarrow> ('q \<Rightarrow> nat) \<Rightarrow> nat \<Rightarrow> 'q list \<Rightarrow> bool"
where
  "vec_wf qwf msgs cap c qs \<longleftrightarrow> (\<forall>q \<in> set qs. qwf q \<and> cap q = c)
     \<and> (\<forall>q \<in> set (butlast qs). length (msgs q) = c)"

lemma vec_msgs_simps [simp]:
  "vec_msgs f [] = []" "vec_msgs f (qs @ rs) = vec_msgs f qs @ vec_msgs f rs" "vec_msgs f [q] = f q"
  by (simp_all add: vec_msgs_def)

lemma vec_wf_Nil [simp]: "vec_wf qwf msgs cap c []"
  by (simp add: vec_wf_def)

lemma vec_wf_snoc:
  "vec_wf qwf msgs cap c (qs @ [q]) \<longleftrightarrow>
     vec_wf qwf msgs cap c qs \<and> (qs \<noteq> [] \<longrightarrow> length (msgs (last qs)) = c) \<and> qwf q \<and> cap q = c"
proof (cases qs rule: rev_cases)
  case (snoc ys y)
  have "butlast (ys @ [y, q]) = ys @ [y]" by (simp add: butlast_append)
  then show ?thesis by (auto simp: vec_wf_def snoc)
qed (simp add: vec_wf_def)

section \<open>The contract and what a vector gets from it\<close>

locale block_queue =
  fixes new :: "u32 \<Rightarrow> 'q"
    and qwf :: "'q \<Rightarrow> bool"
    and msgs :: "'q \<Rightarrow> bytes list"
    and cap :: "'q \<Rightarrow> nat"
    and wr :: "u32 \<Rightarrow> 's write_callback \<Rightarrow> 'q \<Rightarrow> 's \<Rightarrow> fault + (bool \<times> 'q \<times> 's)"
    and rd :: "u32 \<Rightarrow> 'q \<Rightarrow> bytes \<Rightarrow> u32 \<Rightarrow> fault + (bool \<times> 'q \<times> bytes \<times> u32)"
  assumes new_wf: "qwf (new c)" and new_msgs: "msgs (new c) = []" and new_cap: "cap (new c) = unat c"
    and msgs_le_cap: "qwf q \<Longrightarrow> length (msgs q) \<le> cap q"
    and cap_bound: "qwf q \<Longrightarrow> cap q < 4294967296"
    and write_full: "qwf q \<Longrightarrow> cap q \<le> length (msgs q) \<Longrightarrow> wr sz cb q s = Inr (False, q, s)"
    and write_ok: "qwf q \<Longrightarrow> length (msgs q) < cap q \<Longrightarrow> cb_writes cb s sz m s' \<Longrightarrow>
      \<exists>q'. wr sz cb q s = Inr (True, q', s') \<and> qwf q' \<and> msgs q' = msgs q @ [m] \<and> cap q' = cap q"
    and read_absent: "qwf q \<Longrightarrow> length (msgs q) \<le> unat i \<Longrightarrow> unat i < cap q \<Longrightarrow>
      rd i q d n = Inr (False, q, d, n)"
    and read_ok: "qwf q \<Longrightarrow> unat i < length (msgs q) \<Longrightarrow> length d = BLOCK_SIZE_BYTES \<Longrightarrow>
      \<exists>q'. rd i q d n = Inr (True, q', memcpy_at 0 (msgs q ! unat i) d,
             of_nat (length (msgs q ! unat i))) \<and> qwf q' \<and> msgs q' = msgs q \<and> cap q' = cap q"
begin

abbreviation "vwf \<equiv> vec_wf qwf msgs cap"
abbreviation "vmsgs \<equiv> vec_msgs msgs"

lemma vec_emplace:
  assumes "vwf (unat c) qs" and "qs \<noteq> [] \<Longrightarrow> length (msgs (last qs)) = unat c"
  shows "vwf (unat c) (qs @ [new c])" "vmsgs (qs @ [new c]) = vmsgs qs"
  using assms by (simp_all add: vec_wf_snoc new_wf new_cap new_msgs)

lemma vec_write_last:
  assumes "vwf c qs" and "qs \<noteq> []" and "length (msgs (last qs)) < c" and "cb_writes cb s sz m s'"
  shows "\<exists>q'. wr sz cb (last qs) s = Inr (True, q', s') \<and> vwf c (butlast qs @ [q'])
    \<and> vmsgs (butlast qs @ [q']) = vmsgs qs @ [m]"
proof -
  obtain rs q where qs: "qs = rs @ [q]" using assms(2) by (cases qs rule: rev_cases) auto
  have q: "qwf q" "cap q = c" "vwf c rs" "rs \<noteq> [] \<Longrightarrow> length (msgs (last rs)) = c"
    using assms(1) by (simp_all add: qs vec_wf_snoc)
  then obtain q' where "wr sz cb q s = Inr (True, q', s')" "qwf q'" "msgs q' = msgs q @ [m]"
    "cap q' = c"
    using write_ok [OF q(1) _ assms(4)] assms(3) by (auto simp: qs)
  then show ?thesis using q by (auto simp: qs vec_wf_snoc)
qed

lemma vec_last_full:
  assumes "vwf c qs" and "qs \<noteq> []" and "\<not> length (msgs (last qs)) < c"
  shows "length (msgs (last qs)) = c" "wr sz cb (last qs) s = Inr (False, last qs, s)"
proof -
  obtain rs q where qs: "qs = rs @ [q]" using assms(2) by (cases qs rule: rev_cases) auto
  have q: "qwf q" "cap q = c" using assms(1) by (simp_all add: qs vec_wf_snoc)
  then show "length (msgs (last qs)) = c" using msgs_le_cap [of q] assms(3) by (simp add: qs)
  then show "wr sz cb (last qs) s = Inr (False, last qs, s)"
    using q by (simp add: qs write_full)
qed

text \<open>The message index of a vector and the queue and block that hold it.\<close>

lemma vec_index:
  assumes "vwf c qs" and "0 < c" and "i < length (vmsgs qs)"
  shows "i div c < length qs" "i mod c < length (msgs (qs ! (i div c)))"
    "vmsgs qs ! i = msgs (qs ! (i div c)) ! (i mod c)"
proof -
  have full: "length x = c" if "x \<in> set (butlast (map msgs qs))" for x
    using that assms(1) by (auto simp: vec_wf_def simp flip: map_butlast)
  have last: "length (last (map msgs qs)) \<le> c" if "map msgs qs \<noteq> []"
    using that assms(1) msgs_le_cap by (cases qs rule: rev_cases) (auto simp: vec_wf_snoc)
  have "i < length (concat (map msgs qs))" using assms(3) by (simp add: vec_msgs_def)
  note all = nth_concat_uniform [of "map msgs qs" c i, OF full assms(2) last this]
  then show k: "i div c < length qs" by simp
  from all k show "i mod c < length (msgs (qs ! (i div c)))"
    "vmsgs qs ! i = msgs (qs ! (i div c)) ! (i mod c)"
    by (simp_all add: vec_msgs_def)
qed

lemma vec_upd:
  assumes "vwf c qs" and "k < length qs" and "qwf q'" and "msgs q' = msgs (qs ! k)" and "cap q' = c"
  shows "vwf c (qs[k := q'])" "vmsgs (qs[k := q']) = vmsgs qs"
proof -
  have same: "map msgs (qs[k := q']) = map msgs qs"
    using assms(2,4) by (simp add: map_update list_update_same_conv)
  then show "vmsgs (qs[k := q']) = vmsgs qs" by (simp add: vec_msgs_def)
  have full: "\<forall>m \<in> set (butlast (map msgs qs)). length m = c"
    using assms(1) by (auto simp: vec_wf_def simp flip: map_butlast)
  have "\<forall>q \<in> set (butlast (qs[k := q'])). length (msgs q) = c"
  proof
    fix q assume "q \<in> set (butlast (qs[k := q']))"
    then have "msgs q \<in> set (butlast (map msgs (qs[k := q'])))" by (simp flip: map_butlast)
    then show "length (msgs q) = c" using full unfolding same by blast
  qed
  moreover have "\<forall>q \<in> set (qs[k := q']). qwf q \<and> cap q = c"
    using assms by (auto simp: vec_wf_def dest!: set_update_subset_insert [THEN subsetD])
  ultimately show "vwf c (qs[k := q'])" by (simp add: vec_wf_def)
qed

lemma vec_read_ok:
  assumes "vwf c qs" and "0 < c" and "i < length (vmsgs qs)" and "length d = BLOCK_SIZE_BYTES"
    and "unat j = i mod c"
  shows "\<exists>q'. rd j (qs ! (i div c)) d n
        = Inr (True, q', memcpy_at 0 (vmsgs qs ! i) d, of_nat (length (vmsgs qs ! i)))
      \<and> vwf c (qs[i div c := q']) \<and> vmsgs (qs[i div c := q']) = vmsgs qs"
proof -
  let ?q = "qs ! (i div c)"
  note idx = vec_index [OF assms(1-3)]
  have q: "qwf ?q" "cap ?q = c" using assms(1) idx(1) by (auto simp: vec_wf_def)
  from read_ok [OF q(1) _ assms(4), of j n] obtain q' where
    r: "rd j ?q d n = Inr (True, q', memcpy_at 0 (vmsgs qs ! i) d, of_nat (length (vmsgs qs ! i)))"
    and q': "qwf q'" "msgs q' = msgs ?q" "cap q' = c"
    using idx q(2) assms(5) by auto
  from vec_upd [OF assms(1) idx(1) q'] r show ?thesis by blast
qed

lemma vec_read_absent:
  assumes "vwf c qs" and "0 < c" and "length (vmsgs qs) \<le> i" and "i div c < length qs"
    and "unat j = i mod c"
  shows "rd j (qs ! (i div c)) d n = Inr (False, qs ! (i div c), d, n)"
proof -
  obtain rs q where qs: "qs = rs @ [q]" using assms(4) by (cases qs rule: rev_cases) auto
  have full: "\<forall>r \<in> set rs. length (msgs r) = c" and q: "qwf q" "cap q = c"
    using assms(1) by (auto simp: vec_wf_def qs)
  have lrs: "length (vmsgs rs) = length rs * c"
    using full by (induction rs) (auto simp: vec_msgs_def)
  have ge: "length rs * c + length (msgs q) \<le> i" using assms(3) lrs by (simp add: qs)
  then have "length rs \<le> i div c" using assms(2) by (simp add: less_eq_div_iff_mult_less_eq)
  then have k: "i div c = length rs" using assms(4) by (simp add: qs)
  have "i div c * c + i mod c = i" by simp
  then have "length (msgs q) \<le> i mod c" using ge k by simp
  then show ?thesis using q assms(2,5) by (simp add: qs k nth_append read_absent)
qed

end

end
