(* ===== verification/Ring_Buffer.thy ===== *)
theory Ring_Buffer
  imports Block_Queue
begin

text \<open>
  \<^verbatim>\<open>ring_buffer.h\<close> and \<^verbatim>\<open>ring_buffer.cc\<close>: the single-producer, multiple-consumer queue of
  64-byte blocks, with one call of \<open>rb_write\<close> or \<open>rb_read\<close> as one step (theory
  \<open>Ring_Concurrent\<close> splits the calls into their atomic accesses). The invariant \<open>rb_wf\<close>, the
  messages a queue holds (\<open>rb_msgs\<close>), the laws of the two operations, and the contract
  \<open>block_queue\<close> that the vectors of a cache entry rely on.
\<close>

section \<open>Data\<close>

record block =
  version_m :: u32
  size_m :: u32
  data_m :: bytes

record header =
  block_counter_m :: u32

record ring_buffer_queue =
  ring_buffer_capacity_m :: u32
  blocks_m :: "block list"
  header_m :: header

section \<open>Operations\<close>

definition empty_block :: block where
  "empty_block = \<lparr>version_m = 0, size_m = 0, data_m = replicate BLOCK_SIZE_BYTES (CHR 0x00)\<rparr>"

definition new_RingBufferQueue :: "u32 \<Rightarrow> ring_buffer_queue" where
  "new_RingBufferQueue ringBufferCapacity =
     \<lparr>ring_buffer_capacity_m = ringBufferCapacity,
      blocks_m = replicate (unat ringBufferCapacity) empty_block,
      header_m = \<lparr>block_counter_m = 0\<rparr>\<rparr>"

definition rb_write ::
  "u32 \<Rightarrow> 's write_callback \<Rightarrow> ring_buffer_queue \<Rightarrow> 's \<Rightarrow> fault + (bool \<times> ring_buffer_queue \<times> 's)"
where
  "rb_write sz writeCb q s =
    (if block_counter_m (header_m q) \<ge> ring_buffer_capacity_m q then Inr (False, q, s)
     else
       let blockIndex = block_counter_m (header_m q);
           q1 = q\<lparr>header_m := (header_m q)\<lparr>block_counter_m := blockIndex + 1\<rparr>\<rparr>
       in if length (blocks_m q1) \<le> unat blockIndex then Inl OutOfBounds
          else
            let block = blocks_m q1 ! unat blockIndex;
                currentVersion = version_m block + 1;
                block1 = (if version_m block mod 2 = 1
                          then block\<lparr>version_m := currentVersion\<rparr> else block);
                currentVersion1 = (if version_m block mod 2 = 1
                          then currentVersion + 1 else currentVersion);
                block2 = block1\<lparr>size_m := sz\<rparr>
            in bindR (writeCb (data_m block2) s) (\<lambda>(d, s').
                 let block3 = block2\<lparr>data_m := d, version_m := currentVersion1\<rparr>
                 in Inr (True, q1\<lparr>blocks_m := (blocks_m q1)[unat blockIndex := block3]\<rparr>, s')))"

text \<open>
  \<^verbatim>\<open>read\<close> has no bounds check: a block index past the array is undefined behaviour, and so is
  a block size above 64, which would make \<^verbatim>\<open>memcpy\<close> leave both arrays. \<open>data\<close> and \<open>sz\<close>
  are the caller's variables, returned as the call leaves them.
\<close>

definition rb_read ::
  "u32 \<Rightarrow> ring_buffer_queue \<Rightarrow> bytes \<Rightarrow> u32 \<Rightarrow> fault + (bool \<times> ring_buffer_queue \<times> bytes \<times> u32)"
where
  "rb_read blockIndex q data sz =
    (if length (blocks_m q) \<le> unat blockIndex then Inl OutOfBounds
     else
       let block = blocks_m q ! unat blockIndex;
           version = version_m block
       in if version mod 2 = 1 then
            let sz' = size_m block
            in if unat sz' > BLOCK_SIZE_BYTES \<or> unat sz' > length data then Inl OutOfBounds
               else
                 let data' = memcpy_at 0 (take (unat sz') (data_m block)) data;
                     block' = block\<lparr>version_m := version + 2\<rparr>
                 in Inr (True, q\<lparr>blocks_m := (blocks_m q)[unat blockIndex := block']\<rparr>, data', sz')
          else Inr (False, q, data, sz))"

section \<open>Invariant and abstraction\<close>

definition block_wf :: "block \<Rightarrow> bool" where
  "block_wf b \<longleftrightarrow> length (data_m b) = BLOCK_SIZE_BYTES \<and> unat (size_m b) \<le> BLOCK_SIZE_BYTES"

definition rb_count :: "ring_buffer_queue \<Rightarrow> nat" where
  "rb_count q = unat (block_counter_m (header_m q))"

definition rb_cap :: "ring_buffer_queue \<Rightarrow> nat" where
  "rb_cap q = unat (ring_buffer_capacity_m q)"

definition rb_wf :: "ring_buffer_queue \<Rightarrow> bool" where
  "rb_wf q \<longleftrightarrow> length (blocks_m q) = rb_cap q \<and> rb_count q \<le> rb_cap q
     \<and> (\<forall>b \<in> set (blocks_m q). block_wf b)
     \<and> (\<forall>i < rb_cap q. if i < rb_count q then odd (unat (version_m (blocks_m q ! i)))
                       else version_m (blocks_m q ! i) = 0)"

definition block_msg :: "block \<Rightarrow> bytes" where
  "block_msg b = take (unat (size_m b)) (data_m b)"

lemma block_msg_version [simp]: "block_msg (b\<lparr>version_m := v\<rparr>) = block_msg b"
  by (simp add: block_msg_def)

definition rb_msgs :: "ring_buffer_queue \<Rightarrow> bytes list" where
  "rb_msgs q = map block_msg (take (rb_count q) (blocks_m q))"

lemma length_rb_msgs: "rb_wf q \<Longrightarrow> length (rb_msgs q) = rb_count q"
  by (simp add: rb_wf_def rb_msgs_def)

lemma rb_msgs_nth: "rb_wf q \<Longrightarrow> i < rb_count q \<Longrightarrow> rb_msgs q ! i = block_msg (blocks_m q ! i)"
  by (simp add: rb_wf_def rb_msgs_def)

lemma rb_msg_size: "rb_wf q \<Longrightarrow> m \<in> set (rb_msgs q) \<Longrightarrow> length m \<le> BLOCK_SIZE_BYTES"
  by (auto simp: rb_wf_def rb_msgs_def block_msg_def block_wf_def dest: in_set_takeD)

section \<open>Laws of the operations\<close>

lemma new_rb:
  "rb_wf (new_RingBufferQueue c)" "rb_msgs (new_RingBufferQueue c) = []"
  "rb_cap (new_RingBufferQueue c) = unat c"
  by (simp_all add: rb_wf_def rb_msgs_def rb_cap_def rb_count_def new_RingBufferQueue_def
      empty_block_def block_wf_def)

lemma rb_write_full:
  "rb_wf q \<Longrightarrow> rb_cap q \<le> length (rb_msgs q) \<Longrightarrow> rb_write sz cb q s = Inr (False, q, s)"
  by (simp add: rb_write_def length_rb_msgs word_le_nat_alt rb_cap_def rb_count_def)

lemma rb_write_ok:
  assumes wf: "rb_wf q" and room: "length (rb_msgs q) < rb_cap q" and cb: "cb_writes cb s sz m s'"
  shows "\<exists>q'. rb_write sz cb q s = Inr (True, q', s') \<and> rb_wf q'
    \<and> rb_msgs q' = rb_msgs q @ [m] \<and> rb_cap q' = rb_cap q"
proof -
  let ?i = "rb_count q"
  let ?b = "blocks_m q ! ?i"
  let ?b' = "?b\<lparr>size_m := sz, data_m := memcpy_at 0 m (data_m ?b), version_m := 1\<rparr>"
  let ?q' = "q\<lparr>header_m := (header_m q)\<lparr>block_counter_m := block_counter_m (header_m q) + 1\<rparr>,
               blocks_m := (blocks_m q)[?i := ?b']\<rparr>"
  have i: "?i < rb_cap q" and len: "length (blocks_m q) = rb_cap q"
    using room wf by (simp_all add: length_rb_msgs rb_wf_def)
  then have b: "block_wf ?b" "version_m ?b = 0"
    using wf by (simp_all add: rb_wf_def)
  then have d: "length (data_m ?b) = BLOCK_SIZE_BYTES" by (simp add: block_wf_def)
  have m: "unat sz = length m" "length m \<le> BLOCK_SIZE_BYTES"
    and call: "cb (data_m ?b) s = Inr (memcpy_at 0 m (data_m ?b), s')"
    using cb d by (simp_all add: cb_writes_def)
  have "rb_cap q \<le> 4294967295"
    by (simp add: rb_cap_def)
  then have cnt: "rb_count ?q' = Suc ?i"
    using i by (simp add: rb_count_def u32_simps)
  have cap: "rb_cap ?q' = rb_cap q" by (simp add: rb_cap_def)
  have "rb_write sz cb q s = Inr (True, ?q', s')"
    using i len b call
    by (simp add: rb_write_def rb_count_def [symmetric] rb_cap_def [symmetric] word_le_nat_alt Let_def)
  moreover have "block_wf ?b'"
    using m d by (simp add: block_wf_def)
  then have "rb_wf ?q'"
    using wf i len cnt cap
    by (auto simp: rb_wf_def nth_list_update less_Suc_eq dest!: set_update_subset_insert [THEN subsetD])
  moreover have "block_msg ?b' = m"
    using m by (simp add: block_msg_def take_memcpy_at_0)
  then have "rb_msgs ?q' = rb_msgs q @ [m]"
    using i len unfolding rb_msgs_def cnt by (simp add: take_Suc_conv_app_nth)
  ultimately show ?thesis using cap by blast
qed

lemma rb_read_absent:
  assumes "rb_wf q" and "length (rb_msgs q) \<le> unat i" and "unat i < rb_cap q"
  shows "rb_read i q d n = Inr (False, q, d, n)"
  using assms by (auto simp: rb_read_def rb_wf_def length_rb_msgs Let_def)

text \<open>A read leaves what the queue holds unchanged: the version it stores is odd again.\<close>

lemma rb_read_ok:
  assumes wf: "rb_wf q" and i: "unat i < length (rb_msgs q)" and d: "length d = BLOCK_SIZE_BYTES"
  shows "\<exists>q'. rb_read i q d n = Inr (True, q', memcpy_at 0 (rb_msgs q ! unat i) d,
           of_nat (length (rb_msgs q ! unat i))) \<and> rb_wf q' \<and> rb_msgs q' = rb_msgs q \<and> rb_cap q' = rb_cap q"
proof -
  let ?b = "blocks_m q ! unat i"
  let ?q' = "q\<lparr>blocks_m := (blocks_m q)[unat i := ?b\<lparr>version_m := version_m ?b + 2\<rparr>]\<rparr>"
  have ii: "unat i < rb_count q" and len: "length (blocks_m q) = rb_cap q"
    using wf i by (simp_all add: length_rb_msgs rb_wf_def)
  moreover from wf have le: "rb_count q \<le> rb_cap q" by (simp add: rb_wf_def)
  ultimately have b: "block_wf ?b" "odd (unat (version_m ?b))"
    using wf by (simp_all add: rb_wf_def)
  have msg: "rb_msgs q ! unat i = take (unat (size_m ?b)) (data_m ?b)"
    using wf ii by (simp add: rb_msgs_nth block_msg_def)
  then have size: "of_nat (length (rb_msgs q ! unat i)) = size_m ?b"
    using b by (simp add: block_wf_def min_absorb2)
  have "rb_read i q d n = Inr (True, ?q', memcpy_at 0 (rb_msgs q ! unat i) d, size_m ?b)"
    using ii le len b d msg by (simp add: rb_read_def block_wf_def u32_mod_2_unat Let_def)
  moreover have cnt: "rb_count ?q' = rb_count q" "rb_cap ?q' = rb_cap q"
    by (simp_all add: rb_count_def rb_cap_def)
  moreover have "block_wf (?b\<lparr>version_m := version_m ?b + 2\<rparr>)" using b by (simp add: block_wf_def)
  then have "rb_wf ?q'"
    using wf ii b cnt
    by (auto simp: rb_wf_def nth_list_update dest!: set_update_subset_insert [THEN subsetD])
  moreover have "map block_msg (blocks_m ?q') = map block_msg (blocks_m q)"
    using ii le len by (simp add: map_update list_update_same_conv)
  then have "rb_msgs ?q' = rb_msgs q"
    by (simp add: rb_msgs_def cnt take_map [symmetric])
  ultimately show ?thesis using size by auto
qed

section \<open>The contract holds\<close>

lemma rb_wf_bounds: "rb_wf q \<Longrightarrow> length (rb_msgs q) \<le> rb_cap q" "rb_cap q < 4294967296"
  by (simp_all add: length_rb_msgs) (simp_all add: rb_wf_def rb_cap_def)

interpretation rbq: block_queue new_RingBufferQueue rb_wf rb_msgs rb_cap rb_write rb_read
  by unfold_locales (simp_all add: new_rb rb_wf_bounds rb_write_full rb_write_ok rb_read_absent rb_read_ok)

section \<open>Sequences of writes and reads\<close>

text \<open>
  Any sequence of calls on one queue, and what the caller gets to know: the result of every write, and the
  result, the array and the size variable of every read. \<open>RingRead i d n\<close> is given the array \<open>d\<close> and the
  variable \<open>n\<close>.
\<close>

datatype ring_op = RingWrite bytes | RingRead u32 bytes u32

datatype ring_result = Written bool | Read bool bytes u32

fun ring_run :: "ring_op list \<Rightarrow> ring_buffer_queue \<Rightarrow> fault + (ring_result list \<times> ring_buffer_queue)" where
  "ring_run [] q = Inr ([], q)"
| "ring_run (RingWrite m # ops) q =
     bindR (rb_write (of_nat (length m)) (\<lambda>d s. Inr (memcpy_at 0 m d, s)) q ()) (\<lambda>(ok, q1, _).
     bindR (ring_run ops q1) (\<lambda>(rs, q2). Inr (Written ok # rs, q2)))"
| "ring_run (RingRead i d n # ops) q =
     bindR (rb_read i q d n) (\<lambda>(ok, q1, d', n').
     bindR (ring_run ops q1) (\<lambda>(rs, q2). Inr (Read ok d' n' # rs, q2)))"

text \<open>
  The specification: a log of at most \<open>c\<close> messages. A write appends, if there is room; a read of a message
  that is there copies it, a read of one that is not yet there leaves the caller's variables alone.
\<close>

fun log_run :: "nat \<Rightarrow> ring_op list \<Rightarrow> bytes list \<Rightarrow> ring_result list" where
  "log_run c [] ms = []"
| "log_run c (RingWrite m # ops) ms =
     (if length ms < c then Written True # log_run c ops (ms @ [m]) else Written False # log_run c ops ms)"
| "log_run c (RingRead i d n # ops) ms =
     (if unat i < length ms
      then Read True (ms ! unat i @ drop (length (ms ! unat i)) d) (of_nat (length (ms ! unat i))) # log_run c ops ms
      else Read False d n # log_run c ops ms)"

fun ring_op_ok :: "nat \<Rightarrow> ring_op \<Rightarrow> bool" where
  "ring_op_ok c (RingWrite m) \<longleftrightarrow> length m \<le> BLOCK_SIZE_BYTES"
| "ring_op_ok c (RingRead i d n) \<longleftrightarrow> unat i < c \<and> length d = BLOCK_SIZE_BYTES"

lemma memcpy_cb_writes:
  "length m \<le> BLOCK_SIZE_BYTES \<Longrightarrow> cb_writes (\<lambda>d s. Inr (memcpy_at 0 m d, s)) s (of_nat (length m)) m s"
  by (simp add: cb_writes_def BLOCK_SIZE_BYTES_def u32_simps)

lemma ring_run_log:
  assumes "rb_wf q" and "\<forall>op \<in> set ops. ring_op_ok (rb_cap q) op"
  shows "\<exists>q'. ring_run ops q = Inr (log_run (rb_cap q) ops (rb_msgs q), q') \<and> rb_wf q'"
  using assms
proof (induction ops arbitrary: q)
  case Nil
  then show ?case by simp
next
  case (Cons op ops)
  have ok: "\<forall>op \<in> set ops. ring_op_ok (rb_cap q) op" using Cons.prems(2) by simp
  show ?case
  proof (cases op)
    case (RingWrite m)
    have m: "length m \<le> BLOCK_SIZE_BYTES" using Cons.prems(2) RingWrite by simp
    show ?thesis
    proof (cases "length (rb_msgs q) < rb_cap q")
      case True
      obtain q1 where w: "rb_write (of_nat (length m)) (\<lambda>d s. Inr (memcpy_at 0 m d, s)) q () = Inr (True, q1, ())"
        and q1: "rb_wf q1" "rb_msgs q1 = rb_msgs q @ [m]" "rb_cap q1 = rb_cap q"
        using rb_write_ok [OF Cons.prems(1) True memcpy_cb_writes [OF m], of "()"] by (elim exE conjE) (rule that)
      obtain q2 where "ring_run ops q1 = Inr (log_run (rb_cap q) ops (rb_msgs q @ [m]), q2)" "rb_wf q2"
        using Cons.IH [OF q1(1)] ok by (auto simp only: q1)
      then show ?thesis using w True by (simp add: RingWrite)
    next
      case False
      then have "rb_write (of_nat (length m)) (\<lambda>d s. Inr (memcpy_at 0 m d, s)) q () = Inr (False, q, ())"
        using rb_write_full [OF Cons.prems(1)] by simp
      moreover obtain q2 where "ring_run ops q = Inr (log_run (rb_cap q) ops (rb_msgs q), q2)" "rb_wf q2"
        using Cons.IH [OF Cons.prems(1) ok] by blast
      ultimately show ?thesis using False by (simp add: RingWrite)
    qed
  next
    case (RingRead i d n)
    have r: "unat i < rb_cap q" "length d = BLOCK_SIZE_BYTES" using Cons.prems(2) RingRead by simp_all
    show ?thesis
    proof (cases "unat i < length (rb_msgs q)")
      case True
      from rb_read_ok [OF Cons.prems(1) True r(2), of n] obtain q1 where
        rd: "rb_read i q d n = Inr (True, q1, memcpy_at 0 (rb_msgs q ! unat i) d, of_nat (length (rb_msgs q ! unat i)))"
        and q1: "rb_wf q1" "rb_msgs q1 = rb_msgs q" "rb_cap q1 = rb_cap q" by (elim exE conjE) (rule that)
      obtain q2 where "ring_run ops q1 = Inr (log_run (rb_cap q) ops (rb_msgs q), q2)" "rb_wf q2"
        using Cons.IH [OF q1(1)] ok by (auto simp only: q1)
      then show ?thesis using rd True by (simp add: RingRead memcpy_at_def)
    next
      case False
      then have "rb_read i q d n = Inr (False, q, d, n)" using rb_read_absent [OF Cons.prems(1)] r(1) by simp
      moreover obtain q2 where "ring_run ops q = Inr (log_run (rb_cap q) ops (rb_msgs q), q2)" "rb_wf q2"
        using Cons.IH [OF Cons.prems(1) ok] by blast
      ultimately show ?thesis using False by (simp add: RingRead)
    qed
  qed
qed

section \<open>Properties\<close>

text \<open>
  C27: on a new queue every sequence of writes of at most 64 bytes and reads into 64-byte arrays of
  indices within the capacity runs without a fault and gives the results of a log: the first \<open>c\<close> writes
  succeed, further ones fail; a read of an index returns, as often as it is repeated and whatever is
  written in between, the message written there and its size, and leaves the rest of the array alone;
  before that it fails and leaves the array and the size alone.
\<close>

theorem ring_implements_log:
  assumes "\<forall>op \<in> set ops. ring_op_ok (unat c) op"
  shows "\<exists>q. ring_run ops (new_RingBufferQueue c) = Inr (log_run (unat c) ops [], q)"
  using ring_run_log [of "new_RingBufferQueue c" ops] assms by (auto simp: new_rb)

theorem ring_implements_log_witness:
  "\<exists>q. ring_run [RingRead 0 (replicate 64 CHR ''-'') 7, RingWrite ''ab'', RingRead 0 (replicate 64 CHR ''-'') 7,
      RingWrite ''c'', RingRead 0 (replicate 64 CHR ''-'') 7] (new_RingBufferQueue 1)
    = Inr ([Read False (replicate 64 CHR ''-'') 7, Written True, Read True (''ab'' @ replicate 62 CHR ''-'') 2,
        Written False, Read True (''ab'' @ replicate 62 CHR ''-'') 2], q)"
proof -
  define d where "d = replicate 64 CHR ''-''"
  let ?ops = "[RingRead 0 d 7, RingWrite ''ab'', RingRead 0 d 7, RingWrite ''c'', RingRead 0 d 7]"
  have d: "length d = 64" "drop 2 d = replicate 62 CHR ''-''" by (simp_all add: d_def)
  then have "log_run (unat (1 :: u32)) ?ops []
      = [Read False d 7, Written True, Read True (''ab'' @ replicate 62 CHR ''-'') 2, Written False,
         Read True (''ab'' @ replicate 62 CHR ''-'') 2]" by (simp add: numeral_2_eq_2)
  moreover have "\<forall>op \<in> set ?ops. ring_op_ok (unat (1 :: u32)) op" using d(1) by (simp add: BLOCK_SIZE_BYTES_def)
  ultimately show ?thesis using ring_implements_log [of ?ops 1] by (simp only: flip: d_def)
qed

text \<open>
  A write on a full queue reports failure and changes neither the queue nor the state of the
  callback, and a read of a block that has not been published reports failure and changes neither
  the queue nor the caller's variables.
\<close>

lemma ring_refuses:
  assumes "rb_wf q"
  shows "(length (rb_msgs q) = rb_cap q \<longrightarrow> rb_write sz cb q s = Inr (False, q, s))
    \<and> (length (rb_msgs q) \<le> unat i \<and> unat i < rb_cap q \<longrightarrow> rb_read i q d n = Inr (False, q, d, n))"
  by (simp add: rb_write_full [OF assms] rb_read_absent [OF assms])

lemma ring_refuses_examples:
  "rb_write 2 (\<lambda>d s. Inr (d, s)) (new_RingBufferQueue 0) () = Inr (False, new_RingBufferQueue 0, ())
   \<and> rb_read 1 (new_RingBufferQueue 2) [] 7 = Inr (False, new_RingBufferQueue 2, [], 7)"
  using ring_refuses [of "new_RingBufferQueue 0" 2 "\<lambda>d s. Inr (d, s)" "()" 0 "[]" 0]
    ring_refuses [of "new_RingBufferQueue 2" 2 "\<lambda>d s. Inr (d, s)" "()" 1 "[]" 7] by (simp add: new_rb)

end
