(* ===== verification/Ring_Concurrent.thy ===== *)
theory Ring_Concurrent
  imports Ring_Buffer
begin

text \<open>
  \<^verbatim>\<open>RingBufferQueue::write\<close> and \<^verbatim>\<open>RingBufferQueue::read\<close> split into their accesses to shared
  memory: each atomic load, store or \<^verbatim>\<open>fetch_add\<close> is one step, and so is each single byte that
  the write callback or the \<^verbatim>\<open>memcpy\<close> of a read copies. One writer (the producer of an entry) and
  any number of readers interleave arbitrarily. The accesses take effect in the order of the
  program: the acquire and release orders of \<^verbatim>\<open>version_\<close> publish the relaxed and plain accesses
  of a block, and nothing else is relied upon.
\<close>

section \<open>The writer\<close>

text \<open>
  The program counter of a \<^verbatim>\<open>write\<close> of the message \<open>m\<close> (size and callback as the producer uses
  them: the callback copies as many bytes as the size says) with its local variables: the block index
  and \<^verbatim>\<open>currentVersion\<close>.
\<close>

datatype write_pc =
    WIdle
  | WCheck bytes
  | WClaim bytes
  | WLoad bytes u32
  | WParity bytes u32 u32
  | WEven bytes u32 u32
  | WSize bytes u32 u32
  | WCopy bytes nat u32 u32
  | WPublish bytes u32 u32
  | WDone bool

fun w_idle :: "write_pc \<Rightarrow> bool" where
  "w_idle WIdle = True" | "w_idle (WDone b) = True" | "w_idle _ = False"

definition on_block :: "u32 \<Rightarrow> (block \<Rightarrow> block) \<Rightarrow> ring_buffer_queue \<Rightarrow> ring_buffer_queue" where
  "on_block i g q = q\<lparr>blocks_m := (blocks_m q)[unat i := g (blocks_m q ! unat i)]\<rparr>"

fun w_access :: "write_pc \<Rightarrow> ring_buffer_queue \<Rightarrow> fault + (write_pc \<times> ring_buffer_queue)" where
  "w_access WIdle q = Inr (WIdle, q)"
| "w_access (WCheck m) q =
     Inr (if block_counter_m (header_m q) \<ge> ring_buffer_capacity_m q then WDone False else WClaim m, q)"
| "w_access (WClaim m) q =
     (let blockIndex = block_counter_m (header_m q)
      in if length (blocks_m q) \<le> unat blockIndex then Inl OutOfBounds
         else Inr (WLoad m blockIndex, q\<lparr>header_m := (header_m q)\<lparr>block_counter_m := blockIndex + 1\<rparr>\<rparr>))"
| "w_access (WLoad m i) q = Inr (WParity m i (version_m (blocks_m q ! unat i) + 1), q)"
| "w_access (WParity m i v) q =
     Inr (if version_m (blocks_m q ! unat i) mod 2 = 1 then WEven m i v else WSize m i v, q)"
| "w_access (WEven m i v) q = Inr (WSize m i (v + 1), on_block i (\<lambda>b. b\<lparr>version_m := v\<rparr>) q)"
| "w_access (WSize m i v) q = Inr (WCopy m 0 i v, on_block i (\<lambda>b. b\<lparr>size_m := of_nat (length m)\<rparr>) q)"
| "w_access (WCopy m n i v) q =
     (if length m \<le> n then Inr (WPublish m i v, q)
      else if BLOCK_SIZE_BYTES \<le> n then Inl OutOfBounds
      else Inr (WCopy m (Suc n) i v, on_block i (\<lambda>b. b\<lparr>data_m := (data_m b)[n := m ! n]\<rparr>) q))"
| "w_access (WPublish m i v) q = Inr (WDone True, on_block i (\<lambda>b. b\<lparr>version_m := v\<rparr>) q)"
| "w_access (WDone b) q = Inr (WDone b, q)"

section \<open>The readers\<close>

text \<open>
  The program counter of a \<^verbatim>\<open>read\<close> of block \<open>i\<close> into the array \<open>d\<close> of its caller; at the end
  the result is \<open>None\<close> for \<^verbatim>\<open>false\<close>, or the array and the size.
\<close>

datatype read_pc =
    RStart u32 bytes
  | RSize u32 u32 bytes
  | RCopy u32 u32 u32 nat bytes
  | RStore u32 u32 u32 bytes
  | RDone u32 "(bytes \<times> u32) option"

fun r_done :: "read_pc \<Rightarrow> bool" where
  "r_done (RDone i r) = True" | "r_done _ = False"

fun r_access :: "read_pc \<Rightarrow> ring_buffer_queue \<Rightarrow> fault + (read_pc \<times> ring_buffer_queue)" where
  "r_access (RStart i d) q =
     (if length (blocks_m q) \<le> unat i then Inl OutOfBounds
      else let version = version_m (blocks_m q ! unat i)
           in Inr (if version mod 2 = 1 then RSize i version d else RDone i None, q))"
| "r_access (RSize i v d) q = Inr (RCopy i v (size_m (blocks_m q ! unat i)) 0 d, q)"
| "r_access (RCopy i v sz n d) q =
     (if unat sz \<le> n then Inr (RStore i v sz d, q)
      else if BLOCK_SIZE_BYTES \<le> n \<or> length d \<le> n then Inl OutOfBounds
      else Inr (RCopy i v sz (Suc n) (d[n := data_m (blocks_m q ! unat i) ! n]), q))"
| "r_access (RStore i v sz d) q = Inr (RDone i (Some (d, sz)), on_block i (\<lambda>b. b\<lparr>version_m := v + 2\<rparr>) q)"
| "r_access (RDone i r) q = Inr (RDone i r, q)"

section \<open>All threads together\<close>

text \<open>
  A configuration: the writer, the reads that were started, the queue, and the list of the messages
  whose writes have returned \<^verbatim>\<open>true\<close> (a history variable). At any time the producer may start the
  next write of at most 64 bytes, and anybody a read of an index below the capacity.
\<close>

datatype ring_conf = Ring write_pc "read_pc list" ring_buffer_queue "bytes list" | RingFault fault

fun log_of :: "write_pc \<Rightarrow> bytes list \<Rightarrow> bytes list" where
  "log_of (WPublish m i v) ms = ms @ [m]"
| "log_of w ms = ms"

inductive ring_step :: "ring_conf \<Rightarrow> ring_conf \<Rightarrow> bool" where
  call_write: "w_idle w \<Longrightarrow> length m \<le> BLOCK_SIZE_BYTES \<Longrightarrow>
    ring_step (Ring w rs q ms) (Ring (WCheck m) rs q ms)"
| call_read: "unat i < rb_cap q \<Longrightarrow> length d = BLOCK_SIZE_BYTES \<Longrightarrow>
    ring_step (Ring w rs q ms) (Ring w (rs @ [RStart i d]) q ms)"
| write_access: "\<not> w_idle w \<Longrightarrow> w_access w q = Inr (w', q') \<Longrightarrow>
    ring_step (Ring w rs q ms) (Ring w' rs q' (log_of w ms))"
| write_fault: "\<not> w_idle w \<Longrightarrow> w_access w q = Inl e \<Longrightarrow> ring_step (Ring w rs q ms) (RingFault e)"
| read_access: "k < length rs \<Longrightarrow> \<not> r_done (rs ! k) \<Longrightarrow> r_access (rs ! k) q = Inr (r, q') \<Longrightarrow>
    ring_step (Ring w rs q ms) (Ring w (rs[k := r]) q' ms)"
| read_fault: "k < length rs \<Longrightarrow> \<not> r_done (rs ! k) \<Longrightarrow> r_access (rs ! k) q = Inl e \<Longrightarrow>
    ring_step (Ring w rs q ms) (RingFault e)"

inductive_cases ring_stepE: "ring_step (Ring w rs q ms) c"
inductive_simps ring_step_fault [simp]: "ring_step (RingFault e) c"

abbreviation ring_steps :: "ring_conf \<Rightarrow> ring_conf \<Rightarrow> bool" where
  "ring_steps \<equiv> ring_step\<^sup>*\<^sup>*"

abbreviation ring_start :: "u32 \<Rightarrow> ring_conf" where
  "ring_start cap \<equiv> Ring WIdle [] (new_RingBufferQueue cap) []"

section \<open>The invariant\<close>

text \<open>
  Blocks below the length of the log are published: odd version, and the message of the log. The
  block that the writer has claimed is the next one, and like the blocks above it still has version 0,
  so no reader looks at it.
\<close>

definition blk :: "ring_buffer_queue \<Rightarrow> nat \<Rightarrow> block" where
  "blk q j = blocks_m q ! j"

definition ring_ok :: "ring_buffer_queue \<Rightarrow> bytes list \<Rightarrow> bool" where
  "ring_ok q ms \<longleftrightarrow> length (blocks_m q) = rb_cap q \<and> length ms \<le> rb_cap q
     \<and> (\<forall>j < rb_cap q. length (data_m (blk q j)) = BLOCK_SIZE_BYTES)
     \<and> (\<forall>j < length ms. odd (unat (version_m (blk q j))) \<and> block_msg (blk q j) = ms ! j
          \<and> unat (size_m (blk q j)) = length (ms ! j) \<and> length (ms ! j) \<le> BLOCK_SIZE_BYTES)
     \<and> (\<forall>j. length ms \<le> j \<and> j < rb_cap q \<longrightarrow> version_m (blk q j) = 0)"

fun claimed :: "write_pc \<Rightarrow> bool" where
  "claimed (WLoad m i) = True" | "claimed (WParity m i v) = True" | "claimed (WEven m i v) = True"
| "claimed (WSize m i v) = True" | "claimed (WCopy m n i v) = True" | "claimed (WPublish m i v) = True"
| "claimed _ = False"

fun writer_ok :: "ring_buffer_queue \<Rightarrow> nat \<Rightarrow> write_pc \<Rightarrow> bool" where
  "writer_ok q j (WCheck m) \<longleftrightarrow> length m \<le> BLOCK_SIZE_BYTES"
| "writer_ok q j (WClaim m) \<longleftrightarrow> length m \<le> BLOCK_SIZE_BYTES \<and> j < rb_cap q"
| "writer_ok q j (WLoad m i) \<longleftrightarrow> length m \<le> BLOCK_SIZE_BYTES \<and> unat i = j \<and> j < rb_cap q"
| "writer_ok q j (WParity m i v) \<longleftrightarrow> length m \<le> BLOCK_SIZE_BYTES \<and> unat i = j \<and> j < rb_cap q \<and> v = 1"
| "writer_ok q j (WEven m i v) \<longleftrightarrow> False"
| "writer_ok q j (WSize m i v) \<longleftrightarrow> length m \<le> BLOCK_SIZE_BYTES \<and> unat i = j \<and> j < rb_cap q \<and> v = 1"
| "writer_ok q j (WCopy m n i v) \<longleftrightarrow> length m \<le> BLOCK_SIZE_BYTES \<and> unat i = j \<and> j < rb_cap q \<and> v = 1
     \<and> unat (size_m (blk q j)) = length m \<and> n \<le> length m \<and> take n (data_m (blk q j)) = take n m"
| "writer_ok q j (WPublish m i v) \<longleftrightarrow> length m \<le> BLOCK_SIZE_BYTES \<and> unat i = j \<and> j < rb_cap q \<and> v = 1
     \<and> unat (size_m (blk q j)) = length m \<and> take (length m) (data_m (blk q j)) = m"
| "writer_ok q j (WDone b) \<longleftrightarrow> (b \<or> rb_cap q \<le> j)"
| "writer_ok q j WIdle \<longleftrightarrow> True"

fun reader_ok :: "nat \<Rightarrow> bytes list \<Rightarrow> read_pc \<Rightarrow> bool" where
  "reader_ok cap ms (RStart i d) \<longleftrightarrow> unat i < cap \<and> length d = BLOCK_SIZE_BYTES"
| "reader_ok cap ms (RSize i v d) \<longleftrightarrow> unat i < length ms \<and> odd (unat v) \<and> length d = BLOCK_SIZE_BYTES"
| "reader_ok cap ms (RCopy i v sz n d) \<longleftrightarrow> unat i < length ms \<and> odd (unat v) \<and> length d = BLOCK_SIZE_BYTES
     \<and> unat sz = length (ms ! unat i) \<and> n \<le> unat sz \<and> take n d = take n (ms ! unat i)"
| "reader_ok cap ms (RStore i v sz d) \<longleftrightarrow> unat i < length ms \<and> odd (unat v) \<and> length d = BLOCK_SIZE_BYTES
     \<and> unat sz = length (ms ! unat i) \<and> take (unat sz) d = ms ! unat i"
| "reader_ok cap ms (RDone i None) \<longleftrightarrow> unat i < cap"
| "reader_ok cap ms (RDone i (Some (d, sz))) \<longleftrightarrow> unat i < length ms \<and> length d = BLOCK_SIZE_BYTES
     \<and> unat sz = length (ms ! unat i) \<and> take (unat sz) d = ms ! unat i"

fun ring_inv :: "u32 \<Rightarrow> ring_conf \<Rightarrow> bool" where
  "ring_inv cap (Ring w rs q ms) \<longleftrightarrow> ring_buffer_capacity_m q = cap \<and> ring_ok q ms
     \<and> rb_count q = length ms + (if claimed w then 1 else 0)
     \<and> writer_ok q (length ms) w \<and> (\<forall>r \<in> set rs. reader_ok (unat cap) ms r)"
| "ring_inv cap (RingFault e) \<longleftrightarrow> False"

lemma ring_inv_start: "ring_inv cap (ring_start cap)"
  by (simp add: ring_ok_def new_RingBufferQueue_def rb_cap_def rb_count_def blk_def empty_block_def)

text \<open>A message that is appended to the log does not disturb the readers.\<close>

lemma reader_ok_append:
  assumes "reader_ok cap ms r"
  shows "reader_ok cap (ms @ [m]) r"
proof (cases r)
  case (RDone i x)
  with assms show ?thesis by (cases x) (auto simp: nth_append)
qed (use assms in \<open>auto simp: nth_append\<close>)

lemma on_block_frame [simp]:
  "ring_buffer_capacity_m (on_block i g q) = ring_buffer_capacity_m q" "rb_cap (on_block i g q) = rb_cap q"
  "rb_count (on_block i g q) = rb_count q" "length (blocks_m (on_block i g q)) = length (blocks_m q)"
  by (simp_all add: on_block_def rb_cap_def rb_count_def)

lemma blk_on_block:
  "unat i < length (blocks_m q) \<Longrightarrow> blk (on_block i g q) j = (if j = unat i then g (blk q j) else blk q j)"
  by (auto simp: blk_def on_block_def nth_list_update)

text \<open>What an access may do to a block: prepare the next one, publish it, renew the version of a published one.\<close>

lemma ring_ok_prepare:
  assumes "ring_ok q ms" and "unat i = length ms" and "length ms < rb_cap q"
    and "\<And>b. version_m (g b) = version_m b" and "\<And>b. length (data_m (g b)) = length (data_m b)"
  shows "ring_ok (on_block i g q) ms"
  using assms by (simp add: ring_ok_def blk_on_block)

lemma ring_ok_publish:
  assumes "ring_ok q ms" and "unat i = length ms" and "length ms < rb_cap q" and "length m \<le> BLOCK_SIZE_BYTES"
    and "unat (size_m (blk q (length ms))) = length m" and "take (length m) (data_m (blk q (length ms))) = m"
  shows "ring_ok (on_block i (\<lambda>b. b\<lparr>version_m := 1\<rparr>) q) (ms @ [m])"
  using assms by (auto simp: ring_ok_def blk_on_block nth_append block_msg_def less_Suc_eq)

lemma ring_ok_renew:
  assumes "ring_ok q ms" and "unat i < length ms" and "odd (unat v)"
  shows "ring_ok (on_block i (\<lambda>b. b\<lparr>version_m := v\<rparr>) q) ms"
  using assms by (auto simp: ring_ok_def blk_on_block block_msg_def)

lemma counter_next:
  assumes "rb_count q < rb_cap q"
  shows "rb_count (q\<lparr>header_m := (header_m q)\<lparr>block_counter_m := block_counter_m (header_m q) + 1\<rparr>\<rparr>) = Suc (rb_count q)"
proof -
  have "rb_cap q \<le> 4294967295" by (simp add: rb_cap_def)
  then show ?thesis using assms by (simp add: rb_count_def u32_simps)
qed

lemma ring_ok_header [simp]: "ring_ok (q\<lparr>header_m := h\<rparr>) ms = ring_ok q ms"
  by (simp add: ring_ok_def rb_cap_def blk_def)

lemma rb_cap_header [simp]: "rb_cap (q\<lparr>header_m := h\<rparr>) = rb_cap q"
  by (simp add: rb_cap_def)

lemma write_preserves:
  assumes inv: "ring_inv cap (Ring w rs q ms)" and w: "\<not> w_idle w"
  shows "\<exists>w' q'. w_access w q = Inr (w', q') \<and> ring_inv cap (Ring w' rs q' (log_of w ms))"
proof -
  have q: "ring_buffer_capacity_m q = cap" "ring_ok q ms" "rb_count q = length ms + (if claimed w then 1 else 0)"
    "writer_ok q (length ms) w" "\<forall>r \<in> set rs. reader_ok (unat cap) ms r" "length (blocks_m q) = rb_cap q"
    "length ms \<le> rb_cap q"
    using inv by (simp_all add: ring_ok_def)
  note [simp] = q(1,6)
  show ?thesis
  proof (cases w)
    case (WCheck m)
    then show ?thesis using q by (auto simp: word_le_nat_alt rb_count_def rb_cap_def)
  next
    case (WClaim m)
    then have c: "rb_count q = length ms" "length ms < rb_cap q" using q by simp_all
    then show ?thesis using q(2,4,5) WClaim counter_next [of q]
      by (simp add: rb_count_def [symmetric] Let_def)
  next
    case (WLoad m i)
    then have "version_m (blocks_m q ! unat i) = 0" using q(2,4) by (simp add: ring_ok_def blk_def)
    then show ?thesis using q WLoad by simp
  next
    case (WParity m i v)
    then have "version_m (blocks_m q ! unat i) = 0" using q(2,4) by (simp add: ring_ok_def blk_def)
    then show ?thesis using q WParity by simp
  next
    case (WSize m i v)
    then have l: "length m \<le> BLOCK_SIZE_BYTES" "unat i = length ms" "length ms < rb_cap q" "v = 1" using q by simp_all
    have "unat (of_nat (length m) :: u32) = length m" using l(1) by (simp add: u32_simps BLOCK_SIZE_BYTES_def)
    then show ?thesis using q WSize l by (simp add: ring_ok_prepare blk_on_block)
  next
    case (WCopy m n i v)
    then have l: "length m \<le> BLOCK_SIZE_BYTES" "unat i = length ms" "length ms < rb_cap q" "v = 1"
      "unat (size_m (blk q (length ms))) = length m" "n \<le> length m" "take n (data_m (blk q (length ms))) = take n m"
      using q by simp_all
    show ?thesis
    proof (cases "length m \<le> n")
      case True
      then show ?thesis using q WCopy l by simp
    next
      case False
      have d: "length (data_m (blk q (length ms))) = BLOCK_SIZE_BYTES" using q(2) l(3) by (simp add: ring_ok_def)
      have "take (Suc n) ((data_m (blk q (length ms)))[n := m ! n]) = take (Suc n) m"
        using False l(1,7) d by (simp add: take_Suc_conv_app_nth)
      then show ?thesis using q WCopy l False by (simp add: ring_ok_prepare blk_on_block)
    qed
  next
    case (WPublish m i v)
    then have l: "length m \<le> BLOCK_SIZE_BYTES" "unat i = length ms" "length ms < rb_cap q" "v = 1"
      "unat (size_m (blk q (length ms))) = length m" "take (length m) (data_m (blk q (length ms))) = m"
      using q by simp_all
    from ring_ok_publish [OF q(2) l(2,3,1,5,6)] show ?thesis
      using q WPublish l(4) reader_ok_append by auto
  qed (use w q in auto)
qed

lemma writer_ok_other:
  assumes "unat i < j" and "unat i < length (blocks_m q)"
  shows "writer_ok (on_block i g q) j w = writer_ok q j w"
  using assms by (cases w) (simp_all add: blk_on_block)

lemma read_preserves:
  assumes inv: "ring_inv cap (Ring w rs q ms)" and k: "k < length rs" "\<not> r_done (rs ! k)"
  shows "\<exists>r q'. r_access (rs ! k) q = Inr (r, q') \<and> ring_inv cap (Ring w (rs[k := r]) q' ms)"
proof -
  have q: "ring_buffer_capacity_m q = cap" "ring_ok q ms" "rb_count q = length ms + (if claimed w then 1 else 0)"
    "writer_ok q (length ms) w" "\<forall>r \<in> set rs. reader_ok (unat cap) ms r" "length (blocks_m q) = rb_cap q"
    "length ms \<le> rb_cap q"
    using inv by (simp_all add: ring_ok_def)
  have cap: "rb_cap q = unat cap" using q(1) by (simp add: rb_cap_def)
  have r: "reader_ok (unat cap) ms (rs ! k)" using q(5) k(1) by simp
  have keep: "ring_inv cap (Ring w (rs[k := r']) q ms)" if "reader_ok (unat cap) ms r'" for r'
    using inv that by (auto dest!: set_update_subset_insert [THEN subsetD])
  show ?thesis
  proof (cases "rs ! k")
    case (RStart i d)
    have "odd (unat (version_m (blocks_m q ! unat i))) \<Longrightarrow> unat i < length ms"
      using q(2) cap r RStart by (force simp: ring_ok_def blk_def not_less)
    then have o: "reader_ok (unat cap) ms (if odd (unat (version_m (blocks_m q ! unat i)))
        then RSize i (version_m (blocks_m q ! unat i)) d else RDone i None)"
      using r RStart by simp
    show ?thesis using r RStart q(6) cap keep [OF o] by (simp add: u32_mod_2_unat Let_def)
  next
    case (RSize i v d)
    have "unat (size_m (blocks_m q ! unat i)) = length (ms ! unat i)"
      using q(2) r RSize by (simp add: ring_ok_def blk_def)
    then have o: "reader_ok (unat cap) ms (RCopy i v (size_m (blocks_m q ! unat i)) 0 d)" using r RSize by simp
    show ?thesis using RSize keep [OF o] by simp
  next
    case (RCopy i v sz n d)
    then have l: "unat i < length ms" "unat sz = length (ms ! unat i)" "take n d = take n (ms ! unat i)"
      "length d = BLOCK_SIZE_BYTES" using r by simp_all
    have m: "length (ms ! unat i) \<le> BLOCK_SIZE_BYTES" "block_msg (blk q (unat i)) = ms ! unat i"
      "unat (size_m (blk q (unat i))) = length (ms ! unat i)"
      using q(2) l(1) by (simp_all add: ring_ok_def)
    show ?thesis
    proof (cases "unat sz \<le> n")
      case True
      then have o: "reader_ok (unat cap) ms (RStore i v sz d)" using r RCopy l by simp
      show ?thesis using True RCopy keep [OF o] by simp
    next
      case False
      then have n: "n < length (ms ! unat i)" "n < BLOCK_SIZE_BYTES" using l(2) m(1) by simp_all
      have "ms ! unat i ! n = data_m (blocks_m q ! unat i) ! n"
        using m(2,3) n(1) by (metis blk_def block_msg_def nth_take)
      then have "take (Suc n) (d[n := data_m (blocks_m q ! unat i) ! n]) = take (Suc n) (ms ! unat i)"
        using n l(3,4) by (simp add: take_Suc_conv_app_nth)
      then have o: "reader_ok (unat cap) ms (RCopy i v sz (Suc n) (d[n := data_m (blocks_m q ! unat i) ! n]))"
        using r RCopy n l by simp
      show ?thesis using False RCopy n l keep [OF o] by simp
    qed
  next
    case (RStore i v sz d)
    then have l: "unat i < length ms" "odd (unat v)" using r by simp_all
    let ?q = "on_block i (\<lambda>b. b\<lparr>version_m := v + 2\<rparr>) q"
    have "ring_ok ?q ms" using ring_ok_renew [OF q(2) l(1), of "v + 2"] l(2) by simp
    moreover have "writer_ok ?q (length ms) w" using q(4) l(1) q(6,7) by (simp add: writer_ok_other)
    moreover have "\<forall>x \<in> set (rs[k := RDone i (Some (d, sz))]). reader_ok (unat cap) ms x"
      using q(5) r RStore by (auto dest!: set_update_subset_insert [THEN subsetD])
    ultimately show ?thesis using RStore q(1,3) by simp
  qed (use k in simp)
qed

lemma ring_step_preserves:
  assumes "ring_step c c'" and "ring_inv cap c"
  shows "ring_inv cap c'"
  using assms
proof (induction rule: ring_step.induct)
  case (call_write w m rs q ms)
  then show ?case by (cases w) auto
next
  case (call_read i q d w rs ms)
  then show ?case by (auto simp: rb_cap_def)
next
  case (write_access w q w' q' rs ms)
  then show ?case using write_preserves [of cap w rs q ms] by auto
next
  case (write_fault w q e rs ms)
  then show ?case using write_preserves [of cap w rs q ms] by auto
next
  case (read_access k rs q r q' w ms)
  then show ?case using read_preserves [of cap w rs q ms k] by auto
next
  case (read_fault k rs q e w ms)
  then show ?case using read_preserves [of cap w rs q ms k] by auto
qed

lemma ring_reachable:
  assumes "ring_steps (ring_start cap) c"
  shows "ring_inv cap c"
  using assms by (induction rule: rtranclp_induct) (auto intro: ring_inv_start ring_step_preserves simp del: ring_inv.simps)

section \<open>A call on its own\<close>

text \<open>Without interference the accesses of a call compose to the call as one step.\<close>

fun w_run :: "nat \<Rightarrow> write_pc \<Rightarrow> ring_buffer_queue \<Rightarrow> fault + (write_pc \<times> ring_buffer_queue)" where
  "w_run 0 w q = Inr (w, q)"
| "w_run (Suc n) w q = bindR (w_access w q) (\<lambda>(w', q'). w_run n w' q')"

fun r_run :: "nat \<Rightarrow> read_pc \<Rightarrow> ring_buffer_queue \<Rightarrow> fault + (read_pc \<times> ring_buffer_queue)" where
  "r_run 0 r q = Inr (r, q)"
| "r_run (Suc n) r q = bindR (r_access r q) (\<lambda>(r', q'). r_run n r' q')"

lemma w_run_done [simp]: "w_run n (WDone b) q = Inr (WDone b, q)"
  by (induction n) auto

lemma r_run_done [simp]: "r_run n (RDone i x) q = Inr (RDone i x, q)"
  by (induction n) auto

lemma w_run_add: "w_run (a + b) w q = bindR (w_run a w q) (\<lambda>(w', q'). w_run b w' q')"
  by (induction a arbitrary: w q) (auto simp: bindR_def split: sum.split prod.split)

lemma r_run_add: "r_run (a + b) r q = bindR (r_run a r q) (\<lambda>(r', q'). r_run b r' q')"
  by (induction a arbitrary: r q) (auto simp: bindR_def split: sum.split prod.split)

lemma on_block_twice [simp]:
  "unat i < length (blocks_m q) \<Longrightarrow> on_block i h (on_block i g q) = on_block i (h \<circ> g) q"
  by (simp add: on_block_def)

lemma on_block_cong:
  "g (blocks_m q ! unat i) = h (blocks_m q ! unat i) \<Longrightarrow> on_block i g q = on_block i h q"
  by (simp add: on_block_def)

lemma memcpy_byte:
  assumes "n < length m" and "length m \<le> length d"
  shows "memcpy_at (Suc n) (drop (Suc n) m) (d[n := m ! n]) = memcpy_at n (drop n m) d"
  using assms by (simp add: memcpy_at_def take_Suc_conv_app_nth Cons_nth_drop_Suc [symmetric])

lemma w_run_copy:
  assumes "n + k = length m" and "length m \<le> BLOCK_SIZE_BYTES" and "unat i < length (blocks_m q)"
    and "length (data_m (blocks_m q ! unat i)) = BLOCK_SIZE_BYTES"
  shows "w_run (Suc k + f) (WCopy m n i v) q
    = w_run f (WPublish m i v) (on_block i (\<lambda>b. b\<lparr>data_m := memcpy_at n (drop n m) (data_m b)\<rparr>) q)"
  using assms
proof (induction k arbitrary: n q)
  case 0
  have "on_block i (\<lambda>b. b\<lparr>data_m := memcpy_at n (drop n m) (data_m b)\<rparr>) q = on_block i (\<lambda>b. b) q"
    by (rule on_block_cong) (use 0 in \<open>simp add: memcpy_at_def\<close>)
  then show ?case using 0 by (simp add: on_block_def)
next
  case (Suc k)
  let ?q1 = "on_block i (\<lambda>b. b\<lparr>data_m := (data_m b)[n := m ! n]\<rparr>) q"
  have n: "n < length m" using Suc.prems(1) by simp
  have "w_run (Suc k + f) (WCopy m (Suc n) i v) ?q1
      = w_run f (WPublish m i v) (on_block i (\<lambda>b. b\<lparr>data_m := memcpy_at (Suc n) (drop (Suc n) m) (data_m b)\<rparr>) ?q1)"
    by (rule Suc.IH) (use Suc.prems in \<open>simp_all add: on_block_def\<close>)
  also have "on_block i (\<lambda>b. b\<lparr>data_m := memcpy_at (Suc n) (drop (Suc n) m) (data_m b)\<rparr>) ?q1
      = on_block i (\<lambda>b. b\<lparr>data_m := memcpy_at n (drop n m) (data_m b)\<rparr>) q"
    unfolding on_block_twice [OF Suc.prems(3)]
    by (rule on_block_cong) (use Suc.prems n in \<open>simp add: memcpy_byte\<close>)
  finally show ?case using n Suc.prems(2) by simp
qed

lemma r_run_copy:
  assumes "n + k = unat sz" and "unat sz \<le> BLOCK_SIZE_BYTES" and "length d = BLOCK_SIZE_BYTES"
    and "length (data_m (blocks_m q ! unat i)) = BLOCK_SIZE_BYTES"
  shows "r_run (Suc k + f) (RCopy i v sz n d) q
    = r_run f (RStore i v sz (memcpy_at n (drop n (take (unat sz) (data_m (blocks_m q ! unat i)))) d)) q"
  using assms
proof (induction k arbitrary: n d)
  case 0
  then show ?case by (simp add: memcpy_at_def)
next
  case (Suc k)
  let ?m = "take (unat sz) (data_m (blocks_m q ! unat i))"
  have n: "n < length ?m" "length ?m \<le> length d" "?m ! n = data_m (blocks_m q ! unat i) ! n" using Suc.prems by simp_all
  have "r_run (Suc k + f) (RCopy i v sz (Suc n) (d[n := ?m ! n])) q
      = r_run f (RStore i v sz (memcpy_at (Suc n) (drop (Suc n) ?m) (d[n := ?m ! n]))) q"
    by (rule Suc.IH) (use Suc.prems in simp_all)
  then show ?case using n Suc.prems memcpy_byte [OF n(1,2)] by simp
qed

lemma r_run_copy_fault:
  assumes "n + k = BLOCK_SIZE_BYTES" and "BLOCK_SIZE_BYTES < unat sz" and "length d = BLOCK_SIZE_BYTES"
  shows "r_run (Suc k + f) (RCopy i v sz n d) q = Inl OutOfBounds"
  using assms by (induction k arbitrary: n d) simp_all

lemma write_accesses:
  assumes m: "length m \<le> BLOCK_SIZE_BYTES" and d: "\<forall>b \<in> set (blocks_m q). length (data_m b) = BLOCK_SIZE_BYTES"
  shows "w_run (length m + 8) (WCheck m) q
    = bindR (rb_write (of_nat (length m)) (\<lambda>d s. Inr (memcpy_at 0 m d, s)) q ()) (\<lambda>(b, q', _). Inr (WDone b, q'))"
proof (cases "block_counter_m (header_m q) \<ge> ring_buffer_capacity_m q")
  case True
  then show ?thesis by (simp add: rb_write_def eval_nat_numeral)
next
  case room: False
  let ?i = "block_counter_m (header_m q)"
  let ?q1 = "q\<lparr>header_m := (header_m q)\<lparr>block_counter_m := ?i + 1\<rparr>\<rparr>"
  show ?thesis
  proof (cases "length (blocks_m q) \<le> unat ?i")
    case True
    then show ?thesis using room by (simp add: rb_write_def Let_def eval_nat_numeral)
  next
    case False
    then have i: "unat ?i < length (blocks_m q)" by simp
    then have di: "length (data_m (blocks_m q ! unat ?i)) = BLOCK_SIZE_BYTES" using d by simp
    let ?sz = "\<lambda>b. b\<lparr>size_m := of_nat (length m)\<rparr>"
    have copy: "w_run (Suc (length m) + f) (WCopy m 0 ?i v) (on_block ?i g ?q1)
        = w_run f (WPublish m ?i v) (on_block ?i (\<lambda>b. (g b)\<lparr>data_m := memcpy_at 0 m (data_m (g b))\<rparr>) ?q1)"
      if "\<And>b. data_m (g b) = data_m b" for f v g
    proof -
      have len: "unat ?i < length (blocks_m ?q1)" using i by simp
      have "w_run (Suc (length m) + f) (WCopy m 0 ?i v) (on_block ?i g ?q1)
        = w_run f (WPublish m ?i v) (on_block ?i (\<lambda>b. b\<lparr>data_m := memcpy_at 0 (drop 0 m) (data_m b)\<rparr>) (on_block ?i g ?q1))"
        by (rule w_run_copy) (use m i di that in \<open>simp_all add: on_block_def\<close>)
      then show ?thesis by (simp only: drop_0 on_block_twice [OF len] comp_def)
    qed
    show ?thesis
    proof (cases "version_m (blocks_m q ! unat ?i) mod 2 = 1")
      case True
      let ?v = "version_m (blocks_m q ! unat ?i) + 1"
      have n: "length m + 8 = 6 + (Suc (length m) + 1)" by simp
      have pre: "w_run 6 (WCheck m) q = Inr (WCopy m 0 ?i (?v + 1), on_block ?i (?sz \<circ> (\<lambda>b. b\<lparr>version_m := ?v\<rparr>)) ?q1)"
        using room i True by (simp add: eval_nat_numeral Let_def)
      have "w_run (length m + 8) (WCheck m) q = w_run (Suc (length m) + 1) (WCopy m 0 ?i (?v + 1))
          (on_block ?i (?sz \<circ> (\<lambda>b. b\<lparr>version_m := ?v\<rparr>)) ?q1)"
        unfolding n w_run_add pre by simp
      also have "\<dots> = Inr (WDone True, on_block ?i (\<lambda>b. b\<lparr>size_m := of_nat (length m),
          data_m := memcpy_at 0 m (data_m b), version_m := ?v + 1\<rparr>) ?q1)"
        using i by (subst copy) (simp_all add: comp_def)
      finally show ?thesis using room i True by (simp add: rb_write_def Let_def on_block_def)
    next
      case ev: False
      let ?v = "version_m (blocks_m q ! unat ?i) + 1"
      have n: "length m + 8 = 5 + (Suc (length m) + 2)" by simp
      have pre: "w_run 5 (WCheck m) q = Inr (WCopy m 0 ?i ?v, on_block ?i ?sz ?q1)"
        using room i ev by (simp add: eval_nat_numeral Let_def)
      have "w_run (length m + 8) (WCheck m) q = w_run (Suc (length m) + 2) (WCopy m 0 ?i ?v) (on_block ?i ?sz ?q1)"
        unfolding n w_run_add pre by simp
      also have "\<dots> = Inr (WDone True, on_block ?i (\<lambda>b. b\<lparr>size_m := of_nat (length m),
          data_m := memcpy_at 0 m (data_m b), version_m := ?v\<rparr>) ?q1)"
        using i by (subst copy) (simp_all add: eval_nat_numeral comp_def)
      finally show ?thesis using room i ev by (simp add: rb_write_def Let_def on_block_def)
    qed
  qed
qed

lemma read_accesses:
  assumes d: "\<forall>b \<in> set (blocks_m q). length (data_m b) = BLOCK_SIZE_BYTES" "length d = BLOCK_SIZE_BYTES"
  shows "r_run 68 (RStart i d) q
    = bindR (rb_read i q d n) (\<lambda>(b, q', d', sz). Inr (RDone i (if b then Some (d', sz) else None), q'))"
proof (cases "length (blocks_m q) \<le> unat i")
  case True
  then show ?thesis by (simp add: rb_read_def eval_nat_numeral)
next
  case False
  let ?b = "blocks_m q ! unat i"
  have di: "length (data_m ?b) = BLOCK_SIZE_BYTES" using d(1) False by simp
  show ?thesis
  proof (cases "version_m ?b mod 2 = 1")
    case ev: False
    then show ?thesis using False by (simp add: rb_read_def Let_def eval_nat_numeral)
  next
    case odd: True
    have "r_run 68 (RStart i d) q = r_run 66 (RCopy i (version_m ?b) (size_m ?b) 0 d) q"
      using False odd by (simp add: eval_nat_numeral)
    also have "\<dots> = bindR (rb_read i q d n) (\<lambda>(b, q', d', sz). Inr (RDone i (if b then Some (d', sz) else None), q'))"
    proof (cases "BLOCK_SIZE_BYTES < unat (size_m ?b)")
      case True
      then show ?thesis
        using r_run_copy_fault [of 0 BLOCK_SIZE_BYTES "size_m ?b" d 1 i "version_m ?b" q] d(2) False odd
        by (simp add: rb_read_def Let_def BLOCK_SIZE_BYTES_def)
    next
      case small: False
      define f where "f = 64 - unat (size_m ?b)"
      have f: "66 = Suc (unat (size_m ?b)) + Suc f" using small by (simp add: f_def BLOCK_SIZE_BYTES_def)
      show ?thesis unfolding f
        using r_run_copy [of 0 "unat (size_m ?b)" "size_m ?b" d q i "Suc f" "version_m ?b"] small d(2) di False odd
        by (simp add: rb_read_def Let_def on_block_def)
    qed
    finally show ?thesis .
  qed
qed

text \<open>The run in which the threads take turns as the list says: the writer, or a reader.\<close>

fun ring_turns :: "nat option list \<Rightarrow> ring_conf \<Rightarrow> ring_conf" where
  "ring_turns [] c = c"
| "ring_turns (x # xs) (RingFault e) = RingFault e"
| "ring_turns (None # xs) (Ring w rs q ms) =
     (if w_idle w then ring_turns xs (Ring w rs q ms)
      else case w_access w q of Inl e \<Rightarrow> RingFault e
           | Inr (w', q') \<Rightarrow> ring_turns xs (Ring w' rs q' (log_of w ms)))"
| "ring_turns (Some k # xs) (Ring w rs q ms) =
     (if length rs \<le> k \<or> r_done (rs ! k) then ring_turns xs (Ring w rs q ms)
      else case r_access (rs ! k) q of Inl e \<Rightarrow> RingFault e
           | Inr (r, q') \<Rightarrow> ring_turns xs (Ring w (rs[k := r]) q' ms))"

lemma ring_turns_steps: "ring_steps c (ring_turns xs c)"
proof (induction xs c rule: ring_turns.induct)
  case (3 xs w rs q ms)
  then show ?case
    by (auto split: sum.split intro: write_fault converse_rtranclp_into_rtranclp [of ring_step, OF ring_step.write_access])
next
  case (4 k xs w rs q ms)
  then show ?case
    by (auto simp: not_le split: sum.split intro: read_fault
      converse_rtranclp_into_rtranclp [of ring_step, OF ring_step.read_access])
qed auto

section \<open>Properties\<close>

text \<open>
  C9: whatever one writer and any number of readers do concurrently on a new queue, no access leaves
  an array, no read that returns \<^verbatim>\<open>true\<close> is torn -- it returns exactly the message of a completed
  write of this index --, no byte is copied out of a block while the writer copies into it, the log
  stays within the capacity, and a write returns \<^verbatim>\<open>false\<close> only when the queue is full.
\<close>

theorem concurrent_ring_safe:
  assumes "ring_steps (ring_start cap) c"
  shows "\<exists>w rs q ms. c = Ring w rs q ms \<and> length ms \<le> unat cap
    \<and> (\<forall>i d sz. RDone i (Some (d, sz)) \<in> set rs \<longrightarrow>
         unat i < length ms \<and> unat sz = length (ms ! unat i) \<and> take (unat sz) d = ms ! unat i)
    \<and> (\<forall>m n i v j v' sz n' d. w = WCopy m n i v \<longrightarrow> RCopy j v' sz n' d \<in> set rs \<longrightarrow> i \<noteq> j)
    \<and> (w = WDone False \<longrightarrow> length ms = unat cap)"
proof -
  note inv = ring_reachable [OF assms]
  then obtain w rs q ms where c: "c = Ring w rs q ms" by (cases c) auto
  have i: "ring_buffer_capacity_m q = cap" "ring_ok q ms" "writer_ok q (length ms) w" "\<forall>r \<in> set rs. reader_ok (unat cap) ms r"
    using inv by (simp_all add: c)
  have "length ms \<le> unat cap" using i(1,2) by (auto simp: ring_ok_def rb_cap_def)
  moreover have "unat i < length ms \<and> unat sz = length (ms ! unat i) \<and> take (unat sz) d = ms ! unat i"
    if "RDone i (Some (d, sz)) \<in> set rs" for i d sz
    using i(4) that by fastforce
  moreover have "i' \<noteq> j" if "w = WCopy m n i' v" "RCopy j v' sz n' d \<in> set rs" for m n i' v j v' sz n' d
    using i(3,4) that by fastforce
  moreover have "length ms = unat cap" if "w = WDone False"
    using i(1-3) that by (auto simp: ring_ok_def rb_cap_def)
  ultimately show ?thesis using c by blast
qed

text \<open>
  A read that starts before the write of a one-byte message, is refused, and one that starts in the
  middle of it and returns the message.
\<close>

definition demo_turns :: ring_conf where
  "demo_turns = ring_turns ([Some 0] @ replicate 8 None @ replicate 6 (Some 1))
     (Ring (WCheck ''a'') [RStart 0 (replicate 64 CHR ''-''), RStart 0 (replicate 64 CHR ''-'')] (new_RingBufferQueue 1) [])"

lemma demo_turns: "\<exists>q. demo_turns
  = Ring (WDone True) [RDone 0 None, RDone 0 (Some (CHR ''a'' # replicate 63 CHR ''-'', 1))] q [''a'']"
  by (simp add: demo_turns_def eval_nat_numeral new_RingBufferQueue_def empty_block_def on_block_def BLOCK_SIZE_BYTES_def)

theorem concurrent_ring_safe_witness:
  "\<exists>q. ring_steps (ring_start 1) (Ring (WDone True) [RDone 0 None, RDone 0 (Some (CHR ''a'' # replicate 63 CHR ''-'', 1))] q [''a''])
    \<and> take 1 (CHR ''a'' # replicate 63 CHR ''-'') = [''a''] ! 0"
proof -
  obtain q where q: "demo_turns = Ring (WDone True) [RDone 0 None, RDone 0 (Some (CHR ''a'' # replicate 63 CHR ''-'', 1))] q [''a'']"
    using demo_turns by blast
  let ?r = "RStart 0 (replicate 64 CHR ''-'')" and ?q = "new_RingBufferQueue 1"
  have "ring_step (ring_start 1) (Ring (WCheck ''a'') [] ?q [])"
    by (rule call_write) (simp_all add: BLOCK_SIZE_BYTES_def)
  moreover have "ring_step (Ring (WCheck ''a'') [] ?q []) (Ring (WCheck ''a'') [?r] ?q [])"
    using call_read [of 0 ?q "replicate 64 CHR ''-''" _ "[]"] by (simp add: new_rb BLOCK_SIZE_BYTES_def)
  moreover have "ring_step (Ring (WCheck ''a'') [?r] ?q []) (Ring (WCheck ''a'') [?r, ?r] ?q [])"
    using call_read [of 0 ?q "replicate 64 CHR ''-''" _ "[?r]"] by (simp add: new_rb BLOCK_SIZE_BYTES_def)
  ultimately have "ring_steps (ring_start 1) (Ring (WCheck ''a'') [?r, ?r] ?q [])"
    by (meson rtranclp.rtrancl_into_rtrancl rtranclp.rtrancl_refl)
  then have st: "ring_steps (ring_start 1) demo_turns"
    unfolding demo_turns_def by (rule rtranclp_trans [OF _ ring_turns_steps])
  from concurrent_ring_safe [OF this] have "take (unat (1 :: u32)) (CHR ''a'' # replicate 63 CHR ''-'') = [''a''] ! unat (0 :: u32)"
    unfolding q by fastforce
  then show ?thesis using st unfolding q by auto
qed

text \<open>
  C26: a block stays readable once it is published, no matter how the stores of its version by other
  readers interleave with the version's wrap-around: in every reachable configuration a read of an
  index below the number of completed writes, started now, passes the version check, and a read of
  any other index is refused.
\<close>

theorem published_block_stays_readable:
  assumes "ring_steps (ring_start cap) (Ring w rs q ms)" and "unat i < unat cap"
  shows "r_access (RStart i d) q
    = Inr (if unat i < length ms then RSize i (version_m (blocks_m q ! unat i)) d else RDone i None, q)"
proof -
  have i: "ring_buffer_capacity_m q = cap" "ring_ok q ms" using ring_reachable [OF assms(1)] by simp_all
  then have len: "\<not> length (blocks_m q) \<le> unat i" "rb_cap q = unat cap"
    using assms(2) by (auto simp: ring_ok_def rb_cap_def)
  have "odd (unat (version_m (blocks_m q ! unat i))) \<longleftrightarrow> unat i < length ms"
    using i(2) assms(2) len(2) by (cases "unat i < length ms") (auto simp: ring_ok_def blk_def)
  then show ?thesis using len by (simp add: u32_mod_2_unat Let_def)
qed

theorem published_block_stays_readable_witness:
  "r_access (RStart 0 (replicate 64 CHR ''-'')) (new_RingBufferQueue 1) = Inr (RDone 0 None, new_RingBufferQueue 1)"
  using published_block_stays_readable [of 1 WIdle "[]" "new_RingBufferQueue 1" "[]" 0] by simp

text \<open>
  Without interference the accesses of a call, one after the other, are the call of theory
  \<open>Ring_Buffer\<close> as one step: same result, same queue, same faults, for a write of a message of at
  most 64 bytes and for a read into a 64-byte array.
\<close>

lemma ring_accesses_compose:
  assumes "\<forall>b \<in> set (blocks_m q). length (data_m b) = BLOCK_SIZE_BYTES"
    and "length m \<le> BLOCK_SIZE_BYTES" and "length d = BLOCK_SIZE_BYTES"
  shows "w_run (length m + 8) (WCheck m) q
      = bindR (rb_write (of_nat (length m)) (\<lambda>d s. Inr (memcpy_at 0 m d, s)) q ()) (\<lambda>(b, q', _). Inr (WDone b, q'))
    \<and> r_run 68 (RStart i d) q
      = bindR (rb_read i q d n) (\<lambda>(b, q', d', sz). Inr (RDone i (if b then Some (d', sz) else None), q'))"
  using write_accesses [OF assms(2,1)] read_accesses [OF assms(1,3)] by blast

lemma ring_accesses_compose_example:
  "w_run 10 (WCheck ''ab'') (new_RingBufferQueue 1)
      = bindR (rb_write 2 (\<lambda>d s. Inr (memcpy_at 0 ''ab'' d, s)) (new_RingBufferQueue 1) ()) (\<lambda>(b, q', _). Inr (WDone b, q'))"
  using ring_accesses_compose [of "new_RingBufferQueue 1" "''ab''" "replicate 64 CHR ''-''"]
  by (simp add: new_RingBufferQueue_def empty_block_def BLOCK_SIZE_BYTES_def)

end
