(* ===== verification/Cache_Entry.thy ===== *)
theory Cache_Entry
  imports Ring_Buffer
begin

text \<open>
  \<^verbatim>\<open>struct CacheEntry\<close> of \<^verbatim>\<open>cache_entry.h\<close>: the response of the origin server as three growing
  vectors of ring buffers and the two block counters that tell a reader how many blocks a
  finished section has. The three \<^verbatim>\<open>shared_mutex\<close>es guard single accesses to the vectors; every
  access of the model is one step, so they carry no state of their own.
\<close>

section \<open>Data\<close>

text \<open>The three vectors, in the order a response is transmitted.\<close>

datatype sect = HeadersSec | DataSec | TrailersSec

instantiation sect :: linorder
begin

definition sect_rank :: "sect \<Rightarrow> nat" where
  "sect_rank s = (case s of HeadersSec \<Rightarrow> 0 | DataSec \<Rightarrow> 1 | TrailersSec \<Rightarrow> 2)"

definition less_eq_sect :: "sect \<Rightarrow> sect \<Rightarrow> bool" where
  "less_eq_sect a b \<longleftrightarrow> sect_rank a \<le> sect_rank b"

definition less_sect :: "sect \<Rightarrow> sect \<Rightarrow> bool" where
  "less_sect a b \<longleftrightarrow> sect_rank a < sect_rank b"

instance
  by standard (auto simp: less_eq_sect_def less_sect_def sect_rank_def split: sect.splits)

end

record cache_entry =
  single_buffer_blocks_capacity_m :: u32
  headers_block_count_m :: u32
  data_block_count_m :: u32
  headers_buffers_m :: "ring_buffer_queue list"
  data_buffers_m :: "ring_buffer_queue list"
  trailers_buffers_m :: "ring_buffer_queue list"

definition new_CacheEntry :: "u32 \<Rightarrow> cache_entry" where
  "new_CacheEntry ringBufferCapacity =
     \<lparr>single_buffer_blocks_capacity_m = ringBufferCapacity,
      headers_block_count_m = UINT32_MAX, data_block_count_m = UINT32_MAX,
      headers_buffers_m = [], data_buffers_m = [], trailers_buffers_m = []\<rparr>"

text \<open>The vector a section names, and its replacement by an updated one.\<close>

fun sec_buffers :: "sect \<Rightarrow> cache_entry \<Rightarrow> ring_buffer_queue list" where
  "sec_buffers HeadersSec e = headers_buffers_m e"
| "sec_buffers DataSec e = data_buffers_m e"
| "sec_buffers TrailersSec e = trailers_buffers_m e"

fun set_buffers :: "sect \<Rightarrow> ring_buffer_queue list \<Rightarrow> cache_entry \<Rightarrow> cache_entry" where
  "set_buffers HeadersSec qs e = e\<lparr>headers_buffers_m := qs\<rparr>"
| "set_buffers DataSec qs e = e\<lparr>data_buffers_m := qs\<rparr>"
| "set_buffers TrailersSec qs e = e\<lparr>trailers_buffers_m := qs\<rparr>"

lemma sec_set_buffers [simp]:
  "sec_buffers s' (set_buffers s qs e) = (if s' = s then qs else sec_buffers s' e)"
  by (cases s; cases s') simp_all

lemma set_buffers_fields [simp]:
  "single_buffer_blocks_capacity_m (set_buffers s qs e) = single_buffer_blocks_capacity_m e"
  "headers_block_count_m (set_buffers s qs e) = headers_block_count_m e"
  "data_block_count_m (set_buffers s qs e) = data_block_count_m e"
  by (cases s; simp)+

lemma set_buffers_twice [simp]: "set_buffers s qs (set_buffers s rs e) = set_buffers s qs e"
  by (cases s) simp_all

lemma sec_buffers_count_upd [simp]:
  "sec_buffers s (e\<lparr>headers_block_count_m := n\<rparr>) = sec_buffers s e"
  "sec_buffers s (e\<lparr>data_block_count_m := n\<rparr>) = sec_buffers s e"
  by (cases s; simp)+

section \<open>Invariant and abstraction\<close>

abbreviation entry_cap :: "cache_entry \<Rightarrow> nat" where
  "entry_cap e \<equiv> unat (single_buffer_blocks_capacity_m e)"

definition entry_wf :: "cache_entry \<Rightarrow> bool" where
  "entry_wf e \<longleftrightarrow> (\<forall>s. rbq.vwf (entry_cap e) (sec_buffers s e))"

text \<open>The messages published in a section: what a reader that starts at block 0 can read.\<close>

definition sec_msgs :: "sect \<Rightarrow> cache_entry \<Rightarrow> bytes list" where
  "sec_msgs s e = rbq.vmsgs (sec_buffers s e)"

lemma entry_wf_new: "entry_wf (new_CacheEntry c)"
proof -
  have "sec_buffers s (new_CacheEntry c) = []" for s by (cases s) (simp_all add: new_CacheEntry_def)
  then show ?thesis by (simp add: entry_wf_def)
qed

lemma sec_msgs_new: "sec_msgs s (new_CacheEntry c) = []"
  by (cases s) (simp_all add: sec_msgs_def new_CacheEntry_def)

lemma entry_wf_sec: "entry_wf e \<Longrightarrow> rbq.vwf (entry_cap e) (sec_buffers s e)"
  by (simp add: entry_wf_def)

lemma entry_wf_set:
  "entry_wf e \<Longrightarrow> rbq.vwf (entry_cap e) qs \<Longrightarrow> entry_wf (set_buffers s qs e)"
  by (simp add: entry_wf_def)

lemma sec_msgs_set [simp]:
  "sec_msgs s' (set_buffers s qs e) = (if s' = s then rbq.vmsgs qs else sec_msgs s' e)"
  by (simp add: sec_msgs_def)

text \<open>
  \<open>entry_ext s ms e e'\<close>: \<open>e'\<close> is \<open>e\<close> with \<open>ms\<close> published in section \<open>s\<close>, perhaps in more
  buffers, and nothing else changed.
\<close>

definition entry_ext :: "sect \<Rightarrow> bytes list \<Rightarrow> cache_entry \<Rightarrow> cache_entry \<Rightarrow> bool" where
  "entry_ext s ms e e' \<longleftrightarrow> entry_wf e' \<and> sec_msgs s e' = sec_msgs s e @ ms
     \<and> (\<exists>qs. length (sec_buffers s e) \<le> length qs \<and> e' = set_buffers s qs e)"

lemma entry_ext_refl: "entry_wf e \<Longrightarrow> entry_ext s [] e e"
  by (auto simp: entry_ext_def intro!: exI [of _ "sec_buffers s e"]) (cases s; simp)

lemma entry_ext_trans:
  "entry_ext s ms e e' \<Longrightarrow> entry_ext s ns e' e'' \<Longrightarrow> entry_ext s (ms @ ns) e e''"
  by (auto simp: entry_ext_def) (metis le_trans)

lemma entry_ext_frame:
  assumes "entry_ext s ms e e'"
  shows "entry_wf e'" "sec_msgs s e' = sec_msgs s e @ ms" "\<And>s'. s' \<noteq> s \<Longrightarrow> sec_msgs s' e' = sec_msgs s' e"
    "single_buffer_blocks_capacity_m e' = single_buffer_blocks_capacity_m e"
    "headers_block_count_m e' = headers_block_count_m e"
    "data_block_count_m e' = data_block_count_m e"
    "length (sec_buffers s' e) \<le> length (sec_buffers s' e')"
  using assms by (auto simp: entry_ext_def)

end
