(* ===== verification/Codec.thy ===== *)
theory Codec
  imports Prelude
begin

text \<open>
  The block format of a cached response, as pure functions on lists: what the writer is supposed
  to produce and the reader is supposed to accept. A string is cut into full 64-byte blocks
  followed by one shorter, possibly empty block; a batch ends with a delimiter block, empty or,
  when the stream ends there, full of ones.
\<close>

section \<open>Strings\<close>

function chunks :: "bytes \<Rightarrow> bytes list" where
  "chunks s = (if length s < BLOCK_SIZE_BYTES then [s]
               else take BLOCK_SIZE_BYTES s # chunks (drop BLOCK_SIZE_BYTES s))"
  by pat_completeness auto
termination
  by (relation "measure length") (auto simp: BLOCK_SIZE_BYTES_def)

declare chunks.simps [simp del]

lemma chunks_short: "length s < BLOCK_SIZE_BYTES \<Longrightarrow> chunks s = [s]"
  by (simp add: chunks.simps [of s])

lemma chunks_long:
  "BLOCK_SIZE_BYTES \<le> length s \<Longrightarrow>
     chunks s = take BLOCK_SIZE_BYTES s # chunks (drop BLOCK_SIZE_BYTES s)"
  by (simp add: chunks.simps [of s])

lemma chunks_64: "length s = BLOCK_SIZE_BYTES \<Longrightarrow> chunks s = [s, []]"
  by (simp add: chunks_long chunks_short)

lemma concat_chunks: "concat (chunks s) = s"
proof (induction s rule: chunks.induct)
  case (1 s)
  show ?case
  proof (cases "length s < BLOCK_SIZE_BYTES")
    case False
    with 1 show ?thesis by (simp add: chunks_long)
  qed (simp add: chunks_short)
qed

text \<open>All blocks but the last are full, and the last is not: the reader finds the end of a string.\<close>

lemma chunks_shape:
  "\<exists>fs r. chunks s = fs @ [r] \<and> (\<forall>b \<in> set fs. length b = BLOCK_SIZE_BYTES)
     \<and> length r < BLOCK_SIZE_BYTES"
proof (induction s rule: chunks.induct)
  case (1 s)
  show ?case
  proof (cases "length s < BLOCK_SIZE_BYTES")
    case True
    then show ?thesis by (intro exI [of _ "[]"] exI [of _ s]) (simp add: chunks_short)
  next
    case False
    with 1 obtain fs r where "chunks (drop BLOCK_SIZE_BYTES s) = fs @ [r]"
      "\<forall>b \<in> set fs. length b = BLOCK_SIZE_BYTES" "length r < BLOCK_SIZE_BYTES"
      by blast
    with False show ?thesis
      by (intro exI [of _ "take BLOCK_SIZE_BYTES s # fs"] exI [of _ r]) (simp add: chunks_long)
  qed
qed

lemma length_chunks: "length (chunks s) = Suc (length s div BLOCK_SIZE_BYTES)"
proof (induction s rule: chunks.induct)
  case (1 s)
  show ?case
  proof (cases "length s < BLOCK_SIZE_BYTES")
    case False
    with 1 show ?thesis by (simp add: chunks_long le_div_geq)
  qed (simp add: chunks_short)
qed

lemma hd_chunks: "hd (chunks s) = take BLOCK_SIZE_BYTES s" "chunks s \<noteq> []"
  by (cases "length s < BLOCK_SIZE_BYTES"; simp add: chunks_short chunks_long)+

section \<open>Strings of more than 4 GiB\<close>

text \<open>
  The writer's position in the string, \<^verbatim>\<open>data_offset_\<close>, is a \<^verbatim>\<open>uint32_t\<close> and 0 means "finished":
  only the first \<open>2\<^sup>3\<^sup>2\<close> bytes of a string reach the cache.
\<close>

definition enc_limit :: nat where
  "enc_limit = 4294967296"

definition enc_str :: "bytes \<Rightarrow> bytes list" where
  "enc_str s = chunks (take enc_limit s)"

lemma enc_str_short: "length s \<le> enc_limit \<Longrightarrow> enc_str s = chunks s"
  by (simp add: enc_str_def)

lemma enc_str_tiny: "length s < 64 \<Longrightarrow> enc_str s = [s]"
  by (simp add: enc_str_short enc_limit_def chunks_short BLOCK_SIZE_BYTES_def)

section \<open>Headers, data and trailers\<close>

definition end_block :: bytes where
  "end_block = replicate BLOCK_SIZE_BYTES (CHR 0xFF)"

definition delimiter :: "bool \<Rightarrow> bytes" where
  "delimiter end_stream = (if end_stream then end_block else [])"

definition enc_pairs :: "(bytes \<times> bytes) list \<Rightarrow> bytes list" where
  "enc_pairs kvs = concat (map (\<lambda>(k, v). enc_str k @ enc_str v) kvs)"

definition enc_map :: "(bytes \<times> bytes) list \<Rightarrow> bool \<Rightarrow> bytes list" where
  "enc_map kvs end_stream = enc_pairs kvs @ [delimiter end_stream]"

definition enc_data :: "bytes \<Rightarrow> bool \<Rightarrow> bytes list" where
  "enc_data d end_stream = enc_str d @ [delimiter end_stream]"

lemma enc_pairs_simps [simp]:
  "enc_pairs [] = []" "enc_pairs ((k, v) # kvs) = enc_str k @ enc_str v @ enc_pairs kvs"
  by (simp_all add: enc_pairs_def)

lemma length_end_block [simp]: "length end_block = BLOCK_SIZE_BYTES"
  by (simp add: end_block_def)

end
