(* ===== verification/Envoy_Api.thy ===== *)
theory Envoy_Api
  imports Prelude
begin

text \<open>
  Envoy's side of the interface, which is not part of this repository. A header map is a value of
  an arbitrary type \<open>'h\<close>; what the filter calls on it is a record of functions that every
  definition using it takes as an argument:
  \<^item> \<open>hm_create\<close>: \<^verbatim>\<open>ResponseHeaderMapImpl::create()\<close> and \<^verbatim>\<open>ResponseTrailerMapImpl::create()\<close>;
  \<^item> \<open>hm_add\<close>: \<^verbatim>\<open>addCopy(key, value)\<close>;
  \<^item> \<open>hm_entries\<close>: the key and value of the entries in the order in which \<^verbatim>\<open>iterate\<close> visits them;
  \<^item> \<open>hm_lower\<close>: what the constructor of \<^verbatim>\<open>LowerCaseString\<close> makes of a key;
  \<^item> \<open>hm_status\<close>: \<^verbatim>\<open>getStatusValue()\<close>;
  \<^item> \<open>buf_rest\<close>: what \<^verbatim>\<open>encodeData\<close> leaves in the buffer it is given (Envoy moves the bytes
    out of it, so documented behaviour is that nothing is left).
\<close>

record 'h envoy_api =
  hm_create :: 'h
  hm_add :: "'h \<Rightarrow> bytes \<Rightarrow> bytes \<Rightarrow> 'h"
  hm_entries :: "'h \<Rightarrow> (bytes \<times> bytes) list"
  hm_lower :: "bytes \<Rightarrow> bytes"
  hm_status :: "'h \<Rightarrow> bytes"
  buf_rest :: "bytes \<Rightarrow> bytes"

text \<open>The calls a consumer makes on the decoder callbacks of the request it serves.\<close>

datatype 'h response_event =
    EncodeHeaders 'h bool
  | EncodeData bytes bool
  | EncodeTrailers 'h

text \<open>The header map that adding the entries \<open>kvs\<close> one after the other gives.\<close>

definition hm_add_all :: "'h envoy_api \<Rightarrow> (bytes \<times> bytes) list \<Rightarrow> 'h \<Rightarrow> 'h" where
  "hm_add_all api kvs m = fold (\<lambda>(k, v) m. hm_add api m (hm_lower api k) v) kvs m"

definition hm_rebuild :: "'h envoy_api \<Rightarrow> (bytes \<times> bytes) list \<Rightarrow> 'h" where
  "hm_rebuild api kvs = hm_add_all api kvs (hm_create api)"

lemma hm_add_all_simps [simp]:
  "hm_add_all api [] m = m"
  "hm_add_all api ((k, v) # kvs) m = hm_add_all api kvs (hm_add api m (hm_lower api k) v)"
  by (simp_all add: hm_add_all_def)

text \<open>An instance, for witnesses: a header map is the list of its entries.\<close>

definition list_api :: "(bytes \<times> bytes) list envoy_api" where
  "list_api = \<lparr>hm_create = [], hm_add = (\<lambda>m k v. m @ [(k, v)]), hm_entries = (\<lambda>m. m), hm_lower = (\<lambda>k. k),
     hm_status = (\<lambda>m. case map_of m '':status'' of None \<Rightarrow> [] | Some v \<Rightarrow> v), buf_rest = (\<lambda>_. [])\<rparr>"

lemma list_api_simps [simp]:
  "hm_create list_api = []" "hm_add list_api m k v = m @ [(k, v)]" "hm_entries list_api m = m"
  "hm_lower list_api k = k" "buf_rest list_api b = []"
  by (simp_all add: list_api_def)

lemma list_api_rebuild: "hm_rebuild list_api kvs = kvs"
proof -
  have "hm_add_all list_api kvs m = m @ kvs" for m by (induction kvs arbitrary: m) auto
  then show ?thesis by (simp add: hm_rebuild_def)
qed

end
