(* ===== verification/Producer.thy ===== *)
theory Producer
  imports Cache_Entry Codec Envoy_Api
begin

text \<open>
  \<^verbatim>\<open>class CacheEntryProducer\<close> of \<^verbatim>\<open>cache_entry.h\<close> and \<^verbatim>\<open>cache_entry.cc\<close>: the writer that cuts the
  headers, data and trailers of a response into blocks and publishes them in the cache entry.
  Each operation takes the producer and the entry its \<^verbatim>\<open>cache_entry_ptr_\<close> points to. The shared
  pointers \<^verbatim>\<open>buffers_\<close> and \<^verbatim>\<open>shared_mtx_\<close> always point into that entry, at the vector and the
  mutex of one section, so both are the section's name. The lemmas show that every operation
  publishes exactly the blocks theory \<open>Codec\<close> specifies and touches nothing else.
\<close>

section \<open>State\<close>

type_synonym entry_id = nat

record producer =
  cache_entry_ptr_m :: "entry_id option"
  buffers_m :: "sect option"
  current_block_count_m :: u32
  headers_write_complete_m :: bool
  data_write_complete_m :: bool
  data_block_m :: bytes
  message_size_m :: u32
  data_offset_m :: u32

definition new_CacheEntryProducer :: producer where
  "new_CacheEntryProducer =
     \<lparr>cache_entry_ptr_m = None, buffers_m = None, current_block_count_m = 0,
      headers_write_complete_m = False, data_write_complete_m = False,
      data_block_m = replicate BLOCK_SIZE_BYTES (CHR 0x00), message_size_m = 0, data_offset_m = 0\<rparr>"

text \<open>\<open>a\<close> is the address of the new entry.\<close>

definition initCacheEntry :: "u32 \<Rightarrow> entry_id \<Rightarrow> producer \<Rightarrow> producer \<times> cache_entry" where
  "initCacheEntry ringBufferCapacity a p =
     (p\<lparr>cache_entry_ptr_m := Some a\<rparr>, new_CacheEntry ringBufferCapacity)"

definition getCacheEntryPtr :: "producer \<Rightarrow> entry_id option" where
  "getCacheEntryPtr p = cache_entry_ptr_m p"

section \<open>Writing blocks\<close>

definition writeBlockCb :: "producer write_callback" where
  "writeBlockCb data p =
    (let n = unat (message_size_m p)
     in if n > length data \<or> n > length (data_block_m p) then Inl OutOfBounds
        else Inr (memcpy_at 0 (take n (data_block_m p)) data, p\<lparr>message_size_m := 0\<rparr>))"

definition writeBlockToBuffer :: "producer \<Rightarrow> cache_entry \<Rightarrow> fault + (producer \<times> cache_entry)" where
  "writeBlockToBuffer p e =
    (case buffers_m p of
       None \<Rightarrow> Inl NullDeref
     | Some sec \<Rightarrow>
         let bufs = sec_buffers sec e in
         bindR (if bufs = [] then Inr (False, p, e)
                else bindR (rb_write (message_size_m p) writeBlockCb (last bufs) p)
                       (\<lambda>(ok, q, p1). Inr (ok, p1, set_buffers sec (butlast bufs @ [q]) e)))
           (\<lambda>(written, p1, e1).
         bindR (if written then Inr (p1, e1)
                else let bufs1 = sec_buffers sec e1
                               @ [new_RingBufferQueue (single_buffer_blocks_capacity_m e1)]
                     in bindR (rb_write (message_size_m p1) writeBlockCb (last bufs1) p1)
                          (\<lambda>(ok, q, p2). Inr (p2, set_buffers sec (butlast bufs1 @ [q]) e1)))
           (\<lambda>(p2, e2). Inr (p2\<lparr>current_block_count_m := current_block_count_m p2 + 1\<rparr>, e2))))"

text \<open>
  The arithmetic of \<^verbatim>\<open>writeToBlock\<close> is that of the code: \<^verbatim>\<open>remainingSpace\<close> is computed in 32 bits,
  \<^verbatim>\<open>remainingDataSize\<close> in 64, and \<^verbatim>\<open>data_offset_\<close> wraps at \<open>2\<^sup>3\<^sup>2\<close>.
\<close>

definition writeToBlock :: "bytes \<Rightarrow> producer \<Rightarrow> fault + (bool \<times> producer)" where
  "writeToBlock data p =
    (let remainingSpace = unat (of_nat BLOCK_SIZE_BYTES - message_size_m p);
         remainingDataSize = unat ((of_nat (length data) :: u64) - ucast (data_offset_m p));
         bytesToWrite = min remainingSpace remainingDataSize;
         pos = unat (message_size_m p); from_pos = unat (data_offset_m p)
     in if length (data_block_m p) < pos + bytesToWrite \<or> length data < from_pos + bytesToWrite
        then Inl OutOfBounds
        else
          let p1 = p\<lparr>data_block_m := memcpy_at pos (take bytesToWrite (drop from_pos data)) (data_block_m p),
                     message_size_m := message_size_m p + of_nat bytesToWrite\<rparr>
          in if message_size_m p1 = of_nat BLOCK_SIZE_BYTES then
               (if remainingSpace < remainingDataSize
                then Inr (True, p1\<lparr>data_offset_m := data_offset_m p1 + of_nat bytesToWrite\<rparr>)
                else if data_offset_m p1 \<noteq> 0 then Inr (True, p1\<lparr>data_offset_m := 0\<rparr>)
                else Inr (True, p1))
             else (if data_offset_m p1 \<noteq> 0 then Inr (False, p1\<lparr>data_offset_m := 0\<rparr>)
                   else Inr (False, p1)))"

text \<open>The loop of \<^verbatim>\<open>writeStringToBuffer\<close>; it diverges if no block can ever be written.\<close>

partial_function (option) writeString_loop ::
  "bytes \<Rightarrow> bool \<Rightarrow> producer \<Rightarrow> cache_entry \<Rightarrow> (producer \<times> cache_entry) run"
where
  "writeString_loop data firstWrite p e =
    (if firstWrite \<or> data_offset_m p \<noteq> 0 then
       (case writeToBlock data p of
          Inl f \<Rightarrow> Some (Inl f)
        | Inr (full, p1) \<Rightarrow>
            if full then
              (case writeBlockToBuffer p1 e of
                 Inl f \<Rightarrow> Some (Inl f)
               | Inr (p2, e2) \<Rightarrow> writeString_loop data False p2 e2)
            else Some (Inr (p1, e)))
     else Some (Inr (p, e)))"

definition writeStringToBuffer :: "bytes \<Rightarrow> producer \<Rightarrow> cache_entry \<Rightarrow> (producer \<times> cache_entry) run" where
  "writeStringToBuffer data p e =
     bindRun (writeString_loop data True p e) (\<lambda>(p1, e1). Some (writeBlockToBuffer p1 e1))"

definition writeDelimiterBlock :: "bool \<Rightarrow> producer \<Rightarrow> cache_entry \<Rightarrow> fault + (producer \<times> cache_entry)" where
  "writeDelimiterBlock end_stream p e =
    (if end_stream then
       writeBlockToBuffer (p\<lparr>message_size_m := of_nat BLOCK_SIZE_BYTES, data_block_m := end_block\<rparr>) e
     else writeBlockToBuffer p e)"

section \<open>The public operations\<close>

text \<open>\<^verbatim>\<open>iterate\<close> with \<^verbatim>\<open>collectAndWriteHeadersCb\<close>, which never stops the iteration.\<close>

fun iterate_write :: "(bytes \<times> bytes) list \<Rightarrow> producer \<Rightarrow> cache_entry \<Rightarrow> (producer \<times> cache_entry) run" where
  "iterate_write [] p e = Some (Inr (p, e))"
| "iterate_write ((k, v) # kvs) p e =
     bindRun (writeStringToBuffer k p e) (\<lambda>(p1, e1).
     bindRun (writeStringToBuffer v p1 e1) (\<lambda>(p2, e2).
     iterate_write kvs p2 e2))"

definition writeHeaders ::
  "'h envoy_api \<Rightarrow> 'h \<Rightarrow> bool \<Rightarrow> producer \<Rightarrow> cache_entry \<Rightarrow> (producer \<times> cache_entry) run"
where
  "writeHeaders api headers end_stream p e =
     bindRun (iterate_write (hm_entries api headers) (p\<lparr>buffers_m := Some HeadersSec\<rparr>) e)
       (\<lambda>(p1, e1). Some (writeDelimiterBlock end_stream p1 e1))"

definition headersWriteComplete :: "producer \<Rightarrow> cache_entry \<Rightarrow> producer \<times> cache_entry" where
  "headersWriteComplete p e =
     (p\<lparr>current_block_count_m := 0, headers_write_complete_m := True\<rparr>,
      e\<lparr>headers_block_count_m := current_block_count_m p\<rparr>)"

definition writeData :: "bytes \<Rightarrow> bool \<Rightarrow> producer \<Rightarrow> cache_entry \<Rightarrow> (producer \<times> cache_entry) run" where
  "writeData data end_stream p e =
     bindRun (writeStringToBuffer data (p\<lparr>buffers_m := Some DataSec\<rparr>) e)
       (\<lambda>(p1, e1). Some (writeDelimiterBlock end_stream p1 e1))"

definition dataWriteComplete :: "producer \<Rightarrow> cache_entry \<Rightarrow> producer \<times> cache_entry" where
  "dataWriteComplete p e =
     (p\<lparr>data_write_complete_m := True\<rparr>, e\<lparr>data_block_count_m := current_block_count_m p\<rparr>)"

definition writeTrailers ::
  "'h envoy_api \<Rightarrow> 'h \<Rightarrow> producer \<Rightarrow> cache_entry \<Rightarrow> (producer \<times> cache_entry) run"
where
  "writeTrailers api trailers p e =
     bindRun (iterate_write (hm_entries api trailers) (p\<lparr>buffers_m := Some TrailersSec\<rparr>) e)
       (\<lambda>(p1, e1). Some (writeDelimiterBlock False p1 e1))"

definition writeComplete :: "producer \<Rightarrow> cache_entry \<Rightarrow> fault + (producer \<times> cache_entry)" where
  "writeComplete p e =
    (if \<not> headers_write_complete_m p then
       Inr (p, e\<lparr>headers_block_count_m := current_block_count_m p\<rparr>)
     else if \<not> data_write_complete_m p then
       Inr (p, e\<lparr>data_block_count_m := current_block_count_m p\<rparr>)
     else writeDelimiterBlock True p e)"

section \<open>What an operation publishes\<close>

text \<open>
  \<open>appends sec ms (p, e) (p', e')\<close>: going from \<open>(p, e)\<close> to \<open>(p', e')\<close>, the producer published
  the blocks \<open>ms\<close> in section \<open>sec\<close>, counted them, and changed nothing else a later operation or a
  reader can see. \<open>producer_ready\<close> holds between operations: the block under construction is
  empty.
\<close>

definition producer_ready :: "producer \<Rightarrow> bool" where
  "producer_ready p \<longleftrightarrow> length (data_block_m p) = BLOCK_SIZE_BYTES \<and> message_size_m p = 0
     \<and> data_offset_m p = 0"

definition appends ::
  "sect \<Rightarrow> bytes list \<Rightarrow> producer \<times> cache_entry \<Rightarrow> producer \<times> cache_entry \<Rightarrow> bool"
where
  "appends sec ms s s' \<longleftrightarrow> entry_ext sec ms (snd s) (snd s')
     \<and> buffers_m (fst s') = buffers_m (fst s)
     \<and> cache_entry_ptr_m (fst s') = cache_entry_ptr_m (fst s)
     \<and> headers_write_complete_m (fst s') = headers_write_complete_m (fst s)
     \<and> data_write_complete_m (fst s') = data_write_complete_m (fst s)
     \<and> current_block_count_m (fst s') = current_block_count_m (fst s) + of_nat (length ms)"

lemma appends_trans:
  "appends sec ms s s' \<Longrightarrow> appends sec ns s' s'' \<Longrightarrow> appends sec (ms @ ns) s s''"
  by (auto simp: appends_def dest: entry_ext_trans)

lemma appends_refl: "entry_wf e \<Longrightarrow> appends sec [] (p, e) (p, e)"
  by (simp add: appends_def entry_ext_refl)

lemma appends_from_upd:
  "appends sec ms (p\<lparr>data_block_m := b, message_size_m := n, data_offset_m := k\<rparr>, e) s'
     \<longleftrightarrow> appends sec ms (p, e) s'"
  by (simp add: appends_def)

lemma appends_entry:
  assumes "appends sec ms (p, e) (p', e')"
  shows "entry_wf e'" "entry_cap e' = entry_cap e" "buffers_m p' = buffers_m p"
    "sec_msgs sec e' = sec_msgs sec e @ ms"
  using assms entry_ext_frame [of sec ms e e'] by (simp_all add: appends_def)

text \<open>What the operations need of the entry and of \<^verbatim>\<open>buffers_\<close>.\<close>

definition can_write :: "sect \<Rightarrow> producer \<Rightarrow> cache_entry \<Rightarrow> bool" where
  "can_write sec p e \<longleftrightarrow> entry_wf e \<and> 0 < entry_cap e \<and> buffers_m p = Some sec"

lemma can_write_appends: "can_write sec p e \<Longrightarrow> appends sec ms (p, e) (p', e') \<Longrightarrow> can_write sec p' e'"
  using appends_entry [of sec ms p e p' e'] by (simp add: can_write_def)

section \<open>Blocks\<close>

lemma writeBlockCb_writes:
  assumes "length (data_block_m p) = BLOCK_SIZE_BYTES" and "unat (message_size_m p) \<le> BLOCK_SIZE_BYTES"
  shows "cb_writes writeBlockCb p (message_size_m p)
    (take (unat (message_size_m p)) (data_block_m p)) (p\<lparr>message_size_m := 0\<rparr>)"
  using assms by (simp add: cb_writes_def writeBlockCb_def)

text \<open>One block is published, in the last buffer or in a new one, and the block is empty again.\<close>

lemma writeBlockToBuffer_appends:
  assumes "can_write sec p e" and "length (data_block_m p) = BLOCK_SIZE_BYTES"
    and "unat (message_size_m p) \<le> BLOCK_SIZE_BYTES"
    and m: "m = take (unat (message_size_m p)) (data_block_m p)"
  shows "\<exists>e'. writeBlockToBuffer p e
      = Inr (p\<lparr>message_size_m := 0, current_block_count_m := current_block_count_m p + 1\<rparr>, e')
    \<and> appends sec [m] (p, e) (p\<lparr>message_size_m := 0, current_block_count_m := current_block_count_m p + 1\<rparr>, e')"
proof -
  let ?bufs = "sec_buffers sec e" and ?c = "entry_cap e"
  let ?p' = "p\<lparr>message_size_m := 0\<rparr>"
  let ?new = "new_RingBufferQueue (single_buffer_blocks_capacity_m e)"
  have sec: "buffers_m p = Some sec" and c: "0 < ?c" and ewf: "entry_wf e"
    using assms(1) by (simp_all add: can_write_def)
  have v: "rbq.vwf ?c ?bufs" using ewf by (rule entry_wf_sec)
  note cb = writeBlockCb_writes [OF assms(2,3), folded m]
  have app: "appends sec [m] (p, e) (?p'\<lparr>current_block_count_m := current_block_count_m p + 1\<rparr>,
      set_buffers sec qs e)" if "rbq.vwf ?c qs" "rbq.vmsgs qs = rbq.vmsgs ?bufs @ [m]"
        "length ?bufs \<le> length qs" for qs
    using that ewf by (auto simp: appends_def entry_ext_def entry_wf_set sec_msgs_def)
  show ?thesis
  proof (cases "?bufs \<noteq> [] \<and> length (rb_msgs (last ?bufs)) < ?c")
    case True
    then obtain q' where w: "rb_write (message_size_m p) writeBlockCb (last ?bufs) p = Inr (True, q', ?p')"
      and q': "rbq.vwf ?c (butlast ?bufs @ [q'])" "rbq.vmsgs (butlast ?bufs @ [q']) = rbq.vmsgs ?bufs @ [m]"
      using rbq.vec_write_last [OF v _ _ cb] by blast
    show ?thesis using True w app [OF q'] by (simp add: writeBlockToBuffer_def sec Let_def)
  next
    case False
    have full: "length (rb_msgs (last ?bufs)) = ?c"
      "rb_write (message_size_m p) writeBlockCb (last ?bufs) p = Inr (False, last ?bufs, p)"
      if "?bufs \<noteq> []" using rbq.vec_last_full [OF v that] False that by auto
    note emp = rbq.vec_emplace [of "single_buffer_blocks_capacity_m e" ?bufs, OF v full(1)]
    have "length (rb_msgs (last (?bufs @ [?new]))) < ?c" using c by (simp add: new_rb)
    from rbq.vec_write_last [OF emp(1) _ this cb] obtain q'
      where w: "rb_write (message_size_m p) writeBlockCb ?new p = Inr (True, q', ?p')"
        and q': "rbq.vwf ?c (?bufs @ [q'])" "rbq.vmsgs (?bufs @ [q']) = rbq.vmsgs ?bufs @ [m]"
      by (auto simp: emp(2) new_rb)
    have "set_buffers sec ?bufs e = e" by (cases sec) simp_all
    then show ?thesis using full(2) w app [OF q'] 
      by (cases "?bufs = []") (simp_all add: writeBlockToBuffer_def sec Let_def)
  qed
qed

lemma writeDelimiterBlock_appends:
  assumes "can_write sec p e" and "producer_ready p"
  shows "\<exists>p' e'. writeDelimiterBlock end_stream p e = Inr (p', e') \<and> producer_ready p'
    \<and> appends sec [delimiter end_stream] (p, e) (p', e')"
proof (cases end_stream)
  case True
  let ?p = "p\<lparr>message_size_m := of_nat BLOCK_SIZE_BYTES, data_block_m := end_block\<rparr>"
  have "can_write sec ?p e" using assms(1) by (simp add: can_write_def)
  from writeBlockToBuffer_appends [OF this _ _ refl] True assms(2) show ?thesis
    by (auto simp: writeDelimiterBlock_def delimiter_def producer_ready_def BLOCK_SIZE_BYTES_def
        end_block_def appends_def)
next
  case False
  with writeBlockToBuffer_appends [OF assms(1) _ _ refl] assms(2) show ?thesis
    by (auto simp: writeDelimiterBlock_def delimiter_def producer_ready_def)
qed

section \<open>Strings\<close>

text \<open>
  One round of \<^verbatim>\<open>writeToBlock\<close> from an empty block: the next at most 64 bytes are copied; the
  position moves on, or becomes 0 when the string is finished -- or when it reaches \<open>2\<^sup>3\<^sup>2\<close>.
\<close>

lemma writeToBlock_empty:
  assumes "length (data_block_m p) = BLOCK_SIZE_BYTES" and "message_size_m p = 0"
    and "unat (data_offset_m p) \<le> length data" and "length data < 18446744073709551616"
  defines "rest \<equiv> drop (unat (data_offset_m p)) data"
  shows "writeToBlock data p = Inr (BLOCK_SIZE_BYTES \<le> length rest,
    p\<lparr>data_block_m := memcpy_at 0 (take BLOCK_SIZE_BYTES rest) (data_block_m p),
      message_size_m := of_nat (min BLOCK_SIZE_BYTES (length rest)),
      data_offset_m := (if BLOCK_SIZE_BYTES < length rest then data_offset_m p + 64 else 0)\<rparr>)"
proof -
  have sp: "unat (of_nat BLOCK_SIZE_BYTES - message_size_m p) = BLOCK_SIZE_BYTES"
    using assms(2) by (simp add: BLOCK_SIZE_BYTES_def)
  have of_len: "unat (of_nat (length data) :: u64) = length data"
    using assms(4) by (simp add: unat_of_nat)
  have uc: "unat (ucast (data_offset_m p) :: u64) = unat (data_offset_m p)"
    by (simp add: unsigned_ucast_eq take_bit_nat_eq_self order_less_trans [OF unat_u32_less])
  have "(ucast (data_offset_m p) :: u64) \<le> of_nat (length data)"
    unfolding word_le_nat_alt of_len uc by (rule assms(3))
  then have rs: "unat ((of_nat (length data) :: u64) - ucast (data_offset_m p)) = length rest"
    by (simp only: unat_sub of_len uc) (simp add: rest_def)
  have len: "unat (data_offset_m p) + min BLOCK_SIZE_BYTES (length rest) \<le> length data"
    using assms(3) by (simp add: rest_def)
  have full: "(of_nat (min BLOCK_SIZE_BYTES (length rest)) :: u32) = of_nat BLOCK_SIZE_BYTES
      \<longleftrightarrow> BLOCK_SIZE_BYTES \<le> length rest"
    by (auto simp: word_unat_eq_iff u32_simps BLOCK_SIZE_BYTES_def min_def)
  show ?thesis
  proof (cases "BLOCK_SIZE_BYTES < length rest")
    case True
    then have "min BLOCK_SIZE_BYTES (length rest) = BLOCK_SIZE_BYTES" by simp
    with True show ?thesis using assms(1,2) len
      by (simp add: writeToBlock_def sp rs Let_def flip: rest_def) (simp add: BLOCK_SIZE_BYTES_def)
  next
    case False
    then have mn: "min BLOCK_SIZE_BYTES (length rest) = length rest" by simp
    show ?thesis
    proof (cases "BLOCK_SIZE_BYTES = length rest")
      case True
      then show ?thesis using assms(1,2) len full
        by (simp add: writeToBlock_def sp rs Let_def flip: rest_def)
    next
      case neq: False
      then have "(of_nat (length rest) :: u32) \<noteq> of_nat BLOCK_SIZE_BYTES" and lt: "length rest < BLOCK_SIZE_BYTES"
        using False full mn by auto
      then show ?thesis using assms(1,2) len False
        by (simp add: writeToBlock_def sp rs mn Let_def flip: rest_def)
    qed
  qed
qed

lemma writeString_loop_stop: "data_offset_m p = 0 \<Longrightarrow> writeString_loop data False p e = Some (Inr (p, e))"
  by (simp add: writeString_loop.simps)

text \<open>One round of the loop: a full block is published, or the rest is left in the block.\<close>

lemma writeString_round:
  assumes "can_write sec p e" and "length (data_block_m p) = BLOCK_SIZE_BYTES"
    and "message_size_m p = 0" and "firstWrite \<or> data_offset_m p \<noteq> 0"
    and "unat (data_offset_m p) \<le> length data" and "length data < 18446744073709551616"
    and rest: "rest = drop (unat (data_offset_m p)) data" and full: "BLOCK_SIZE_BYTES \<le> length rest"
  shows "\<exists>p2 e2. writeString_loop data firstWrite p e = writeString_loop data False p2 e2
    \<and> appends sec [take BLOCK_SIZE_BYTES rest] (p, e) (p2, e2)
    \<and> length (data_block_m p2) = BLOCK_SIZE_BYTES \<and> message_size_m p2 = 0
    \<and> data_offset_m p2 = (if BLOCK_SIZE_BYTES < length rest then data_offset_m p + 64 else 0)"
proof -
  obtain p1 where w: "writeToBlock data p = Inr (True, p1)"
    and p1: "p1 = p\<lparr>data_block_m := take BLOCK_SIZE_BYTES rest, message_size_m := of_nat BLOCK_SIZE_BYTES,
      data_offset_m := (if BLOCK_SIZE_BYTES < length rest then data_offset_m p + 64 else 0)\<rparr>"
    using writeToBlock_empty [of p data] assms
    by (simp add: memcpy_at_0_full min_absorb1)
  have "can_write sec p1 e" "length (data_block_m p1) = BLOCK_SIZE_BYTES"
    "unat (message_size_m p1) \<le> BLOCK_SIZE_BYTES"
    "take BLOCK_SIZE_BYTES rest = take (unat (message_size_m p1)) (data_block_m p1)"
    using assms(1) full by (simp_all add: p1 can_write_def)
  from writeBlockToBuffer_appends [OF this] obtain p2 e2
    where b: "writeBlockToBuffer p1 e = Inr (p2, e2)" and ap: "appends sec [take BLOCK_SIZE_BYTES rest] (p1, e) (p2, e2)"
      and p2: "p2 = p1\<lparr>message_size_m := 0, current_block_count_m := current_block_count_m p1 + 1\<rparr>"
    by blast
  have "writeString_loop data firstWrite p e = writeString_loop data False p2 e2"
    using assms(4) w b by (simp add: writeString_loop.simps [of data firstWrite p e])
  moreover have "appends sec [take BLOCK_SIZE_BYTES rest] (p, e) (p2, e2)"
    using ap by (simp add: p1 appends_def)
  ultimately show ?thesis using full by (intro exI [of _ p2] exI [of _ e2]) (simp add: p2 p1)
qed

lemma writeString_last:
  assumes "can_write sec p e" and "length (data_block_m p) = BLOCK_SIZE_BYTES"
    and "message_size_m p = 0" and "firstWrite \<or> data_offset_m p \<noteq> 0"
    and "unat (data_offset_m p) \<le> length data" and "length data < 18446744073709551616"
    and rest: "rest = drop (unat (data_offset_m p)) data" and short: "length rest < BLOCK_SIZE_BYTES"
  shows "\<exists>p1. writeString_loop data firstWrite p e = Some (Inr (p1, e)) \<and> appends sec [] (p, e) (p1, e)
    \<and> length (data_block_m p1) = BLOCK_SIZE_BYTES \<and> unat (message_size_m p1) \<le> BLOCK_SIZE_BYTES
    \<and> data_offset_m p1 = 0 \<and> take (unat (message_size_m p1)) (data_block_m p1) = rest"
proof -
  obtain p1 where w: "writeToBlock data p = Inr (False, p1)"
    and p1: "p1 = p\<lparr>data_block_m := memcpy_at 0 rest (data_block_m p),
      message_size_m := of_nat (length rest), data_offset_m := 0\<rparr>"
    using writeToBlock_empty [of p data] assms by (simp add: min_absorb2)
  have "unat (message_size_m p1) = length rest"
    using short by (simp add: p1 u32_simps BLOCK_SIZE_BYTES_def)
  moreover have "writeString_loop data firstWrite p e = Some (Inr (p1, e))"
    using assms(4) w by (simp add: writeString_loop.simps [of data firstWrite p e])
  moreover have "appends sec [] (p, e) (p1, e)"
    using assms(1) by (simp add: p1 appends_def can_write_def entry_ext_refl)
  ultimately show ?thesis using short assms(2)
    by (intro exI [of _ p1]) (simp add: p1 take_memcpy_at_0)
qed

text \<open>
  The loop, started at a position that is a multiple of 64: it publishes all blocks of the rest
  of the string but the last one, which it leaves in the block under construction.
\<close>

lemma writeString_loop_appends:
  assumes "can_write sec p e" and "length (data_block_m p) = BLOCK_SIZE_BYTES"
    and "message_size_m p = 0" and "firstWrite \<or> data_offset_m p \<noteq> 0"
    and "unat (data_offset_m p) \<le> length data" and "64 dvd unat (data_offset_m p)"
    and "length data < 18446744073709551616"
  shows "\<exists>p1 e1 ms. writeString_loop data firstWrite p e = Some (Inr (p1, e1))
    \<and> appends sec ms (p, e) (p1, e1) \<and> length (data_block_m p1) = BLOCK_SIZE_BYTES
    \<and> unat (message_size_m p1) \<le> BLOCK_SIZE_BYTES \<and> data_offset_m p1 = 0
    \<and> ms @ [take (unat (message_size_m p1)) (data_block_m p1)]
        = chunks (drop (unat (data_offset_m p)) (take enc_limit data))"
  using assms
proof (induction "length data - unat (data_offset_m p)" arbitrary: p e firstWrite rule: less_induct)
  case less
  let ?off = "unat (data_offset_m p)"
  define rest where rest: "rest = drop ?off data"
  define todo where todo: "todo = drop ?off (take enc_limit data)"
  note prems = less.prems
  have off: "?off + 64 \<le> enc_limit"
  proof -
    obtain k where k: "?off = 64 * k" using prems(6) by blast
    have "?off < 4294967296" by simp
    then have "k < 67108864" using k by linarith
    then show ?thesis using k by (simp add: enc_limit_def)
  qed
  have todo': "todo = take (enc_limit - ?off) rest" by (simp add: todo rest drop_take)
  show ?case
  proof (cases "BLOCK_SIZE_BYTES \<le> length rest")
    case False
    then have "length rest < enc_limit - ?off" using off by (simp add: BLOCK_SIZE_BYTES_def)
    then have "chunks todo = [rest]" using False by (simp add: todo' chunks_short)
    then show ?thesis using writeString_last [OF prems(1-5,7) rest] False
      by (auto simp flip: todo)
  next
    case True
    then obtain p2 e2 where step: "writeString_loop data firstWrite p e = writeString_loop data False p2 e2"
      and ap: "appends sec [take BLOCK_SIZE_BYTES rest] (p, e) (p2, e2)"
      and p2: "length (data_block_m p2) = BLOCK_SIZE_BYTES" "message_size_m p2 = 0"
        "data_offset_m p2 = (if BLOCK_SIZE_BYTES < length rest then data_offset_m p + 64 else 0)"
      using writeString_round [OF prems(1-5,7) rest] by blast
    have long: "BLOCK_SIZE_BYTES \<le> length todo"
      using True off by (simp add: todo' BLOCK_SIZE_BYTES_def)
    have hd: "take BLOCK_SIZE_BYTES todo = take BLOCK_SIZE_BYTES rest"
      using off by (auto simp: todo' BLOCK_SIZE_BYTES_def min_def)
    have tl: "drop BLOCK_SIZE_BYTES todo = drop (?off + 64) (take enc_limit data)"
      by (simp add: todo BLOCK_SIZE_BYTES_def add.commute)
    show ?thesis
    proof (cases "data_offset_m p2 = 0")
      case z: True
      have "drop BLOCK_SIZE_BYTES todo = []"
      proof (cases "BLOCK_SIZE_BYTES < length rest")
        case lt: True
        with z p2(3) have "unat (data_offset_m p + 64) = 0" by simp
        then have "?off + 64 = enc_limit"
          using off by (simp add: unat_plus_64_u32 enc_limit_def split: if_splits)
        then show ?thesis by (simp add: tl)
      next
        case False
        then show ?thesis by (simp add: todo')
      qed
      then have "[take BLOCK_SIZE_BYTES rest] @ [[]] = chunks todo"
        using long by (simp add: chunks_long hd chunks_short)
      then show ?thesis using step ap p2 writeString_loop_stop [OF z]
        by (intro exI [of _ p2] exI [of _ e2] exI [of _ "[take BLOCK_SIZE_BYTES rest]"])
          (simp add: z flip: todo)
    next
      case nz: False
      then have lt: "BLOCK_SIZE_BYTES < length rest" and p2': "data_offset_m p2 = data_offset_m p + 64"
        using p2(3) by (simp_all split: if_splits)
      have off2: "unat (data_offset_m p2) = ?off + 64"
        using off nz unat_eq_zero [of "data_offset_m p2"] unat_plus_64_u32 [of "data_offset_m p"]
        by (simp add: p2' enc_limit_def split: if_splits)
      have le: "?off + 64 \<le> length data" using lt by (simp add: rest BLOCK_SIZE_BYTES_def)
      have "\<exists>p3 e3 ms. writeString_loop data False p2 e2 = Some (Inr (p3, e3))
        \<and> appends sec ms (p2, e2) (p3, e3) \<and> length (data_block_m p3) = BLOCK_SIZE_BYTES
        \<and> unat (message_size_m p3) \<le> BLOCK_SIZE_BYTES \<and> data_offset_m p3 = 0
        \<and> ms @ [take (unat (message_size_m p3)) (data_block_m p3)]
            = chunks (drop (unat (data_offset_m p2)) (take enc_limit data))"
      proof (rule less.hyps)
        show "length data - unat (data_offset_m p2) < length data - ?off" using off2 le by simp
        show "can_write sec p2 e2" using prems(1) ap by (rule can_write_appends)
      qed (use p2 nz off2 le prems(6,7) in simp_all)
      then obtain p3 e3 ms where IH: "writeString_loop data False p2 e2 = Some (Inr (p3, e3))"
        "appends sec ms (p2, e2) (p3, e3)" "length (data_block_m p3) = BLOCK_SIZE_BYTES"
        "unat (message_size_m p3) \<le> BLOCK_SIZE_BYTES" "data_offset_m p3 = 0"
        "ms @ [take (unat (message_size_m p3)) (data_block_m p3)] = chunks (drop BLOCK_SIZE_BYTES todo)"
        by (auto simp: off2 tl)
      have "appends sec (take BLOCK_SIZE_BYTES rest # ms) (p, e) (p3, e3)"
        using appends_trans [OF ap IH(2)] by simp
      with step IH long show ?thesis
        by (intro exI [of _ p3] exI [of _ e3] exI [of _ "take BLOCK_SIZE_BYTES rest # ms"])
          (simp add: chunks_long [OF long] hd flip: todo)
    qed
  qed
qed

lemma writeStringToBuffer_appends:
  assumes "can_write sec p e" and "producer_ready p" and "length data < 18446744073709551616"
  shows "\<exists>p' e'. writeStringToBuffer data p e = Some (Inr (p', e')) \<and> producer_ready p'
    \<and> appends sec (enc_str data) (p, e) (p', e')"
proof -
  have "\<exists>p1 e1 ms. writeString_loop data True p e = Some (Inr (p1, e1))
    \<and> appends sec ms (p, e) (p1, e1) \<and> length (data_block_m p1) = BLOCK_SIZE_BYTES
    \<and> unat (message_size_m p1) \<le> BLOCK_SIZE_BYTES \<and> data_offset_m p1 = 0
    \<and> ms @ [take (unat (message_size_m p1)) (data_block_m p1)]
        = chunks (drop (unat (data_offset_m p)) (take enc_limit data))"
    by (rule writeString_loop_appends) (use assms in \<open>simp_all add: producer_ready_def\<close>)
  then obtain p1 e1 ms where loop: "writeString_loop data True p e = Some (Inr (p1, e1))"
    and ap: "appends sec ms (p, e) (p1, e1)" and blk: "length (data_block_m p1) = BLOCK_SIZE_BYTES"
    and sz: "unat (message_size_m p1) \<le> BLOCK_SIZE_BYTES" and off: "data_offset_m p1 = 0"
    and ms: "ms @ [take (unat (message_size_m p1)) (data_block_m p1)] = enc_str data"
    using assms(2) by (auto simp: producer_ready_def enc_str_def)
  have "can_write sec p1 e1" using assms(1) ap by (rule can_write_appends)
  from writeBlockToBuffer_appends [OF this blk sz refl] obtain p' e' where
    w: "writeBlockToBuffer p1 e1 = Inr (p', e')"
    and ap2: "appends sec [take (unat (message_size_m p1)) (data_block_m p1)] (p1, e1) (p', e')"
    and p': "p' = p1\<lparr>message_size_m := 0, current_block_count_m := current_block_count_m p1 + 1\<rparr>"
    by blast
  have "appends sec (enc_str data) (p, e) (p', e')"
    using appends_trans [OF ap ap2] ms by simp
  moreover have "producer_ready p'" using blk off by (simp add: p' producer_ready_def)
  ultimately show ?thesis by (auto simp: writeStringToBuffer_def loop w)
qed

section \<open>Headers, data and trailers\<close>

definition sizes_ok :: "(bytes \<times> bytes) list \<Rightarrow> bool" where
  "sizes_ok kvs \<longleftrightarrow> (\<forall>(k, v) \<in> set kvs. length k < 18446744073709551616
     \<and> length v < 18446744073709551616)"

lemma sizes_ok_simps [simp]:
  "sizes_ok []"
  "sizes_ok ((k, v) # kvs) \<longleftrightarrow> length k < 18446744073709551616 \<and> length v < 18446744073709551616
     \<and> sizes_ok kvs"
  by (auto simp: sizes_ok_def)

lemma iterate_write_appends:
  assumes "can_write sec p e" and "producer_ready p" and "sizes_ok kvs"
  shows "\<exists>p' e'. iterate_write kvs p e = Some (Inr (p', e')) \<and> producer_ready p'
    \<and> appends sec (enc_pairs kvs) (p, e) (p', e')"
  using assms
proof (induction kvs arbitrary: p e)
  case Nil
  then show ?case by (auto simp: can_write_def appends_refl)
next
  case (Cons kv kvs)
  obtain k v where kv: "kv = (k, v)" by (cases kv)
  have sz: "length k < 18446744073709551616" "length v < 18446744073709551616" "sizes_ok kvs"
    using Cons.prems(3) by (simp_all add: kv)
  obtain p1 e1 where 1: "writeStringToBuffer k p e = Some (Inr (p1, e1))" "producer_ready p1"
    "appends sec (enc_str k) (p, e) (p1, e1)"
    using writeStringToBuffer_appends [OF Cons.prems(1,2) sz(1)] by blast
  have cw1: "can_write sec p1 e1" using Cons.prems(1) 1(3) by (rule can_write_appends)
  obtain p2 e2 where 2: "writeStringToBuffer v p1 e1 = Some (Inr (p2, e2))" "producer_ready p2"
    "appends sec (enc_str v) (p1, e1) (p2, e2)"
    using writeStringToBuffer_appends [OF cw1 1(2) sz(2)] by blast
  have cw2: "can_write sec p2 e2" using cw1 2(3) by (rule can_write_appends)
  obtain p3 e3 where 3: "iterate_write kvs p2 e2 = Some (Inr (p3, e3))" "producer_ready p3"
    "appends sec (enc_pairs kvs) (p2, e2) (p3, e3)"
    using Cons.IH [OF cw2 2(2) sz(3)] by blast
  have "appends sec (enc_pairs (kv # kvs)) (p, e) (p3, e3)"
    using appends_trans [OF 1(3) appends_trans [OF 2(3) 3(3)]] by (simp add: kv)
  with 1 2 3 show ?case by (simp add: kv)
qed

text \<open>A whole map: its entries and the delimiter.\<close>

lemma write_map_appends:
  assumes "can_write sec p e" and "producer_ready p" and "sizes_ok kvs"
  shows "\<exists>p' e'. bindRun (iterate_write kvs p e) (\<lambda>(p1, e1). Some (writeDelimiterBlock fin p1 e1))
      = Some (Inr (p', e')) \<and> producer_ready p' \<and> appends sec (enc_map kvs fin) (p, e) (p', e')"
proof -
  obtain p1 e1 where 1: "iterate_write kvs p e = Some (Inr (p1, e1))" "producer_ready p1"
    "appends sec (enc_pairs kvs) (p, e) (p1, e1)"
    using iterate_write_appends [OF assms] by blast
  have "can_write sec p1 e1" using assms(1) 1(3) by (rule can_write_appends)
  then obtain p2 e2 where 2: "writeDelimiterBlock fin p1 e1 = Inr (p2, e2)" "producer_ready p2"
    "appends sec [delimiter fin] (p1, e1) (p2, e2)"
    using writeDelimiterBlock_appends [OF _ 1(2)] by blast
  show ?thesis using 1 2 appends_trans [OF 1(3) 2(3)] by (simp add: enc_map_def)
qed

text \<open>
  The four writing operations as the filter calls them: from a well-formed entry and a producer
  between two operations, the blocks of the argument are published in the operation's section.
\<close>

definition producer_ok :: "producer \<Rightarrow> cache_entry \<Rightarrow> bool" where
  "producer_ok p e \<longleftrightarrow> producer_ready p \<and> entry_wf e \<and> 0 < entry_cap e"

lemma producer_ok_can_write: "producer_ok p e \<Longrightarrow> can_write sec (p\<lparr>buffers_m := Some sec\<rparr>) e"
  by (simp add: producer_ok_def can_write_def)

lemma producer_ok_appends: "producer_ok p e \<Longrightarrow> producer_ready p' \<Longrightarrow>
    appends sec ms (p\<lparr>buffers_m := b\<rparr>, e) (p', e') \<Longrightarrow> producer_ok p' e'"
  using appends_entry [of sec ms "p\<lparr>buffers_m := b\<rparr>" e p' e'] by (simp add: producer_ok_def)

lemma writeHeaders_appends:
  assumes "producer_ok p e" and "sizes_ok (hm_entries api h)"
  shows "\<exists>p' e'. writeHeaders api h fin p e = Some (Inr (p', e')) \<and> producer_ok p' e'
    \<and> appends HeadersSec (enc_map (hm_entries api h) fin) (p\<lparr>buffers_m := Some HeadersSec\<rparr>, e) (p', e')"
  using write_map_appends [OF producer_ok_can_write [OF assms(1)] _ assms(2), of HeadersSec fin]
    producer_ok_appends [OF assms(1)] assms(1)
  unfolding writeHeaders_def by (fastforce simp: producer_ok_def producer_ready_def)

lemma writeTrailers_appends:
  assumes "producer_ok p e" and "sizes_ok (hm_entries api t)"
  shows "\<exists>p' e'. writeTrailers api t p e = Some (Inr (p', e')) \<and> producer_ok p' e'
    \<and> appends TrailersSec (enc_map (hm_entries api t) False) (p\<lparr>buffers_m := Some TrailersSec\<rparr>, e) (p', e')"
  using write_map_appends [OF producer_ok_can_write [OF assms(1)] _ assms(2), of TrailersSec False]
    producer_ok_appends [OF assms(1)] assms(1)
  unfolding writeTrailers_def by (fastforce simp: producer_ok_def producer_ready_def)

lemma writeData_appends:
  assumes "producer_ok p e" and "length d < 18446744073709551616"
  shows "\<exists>p' e'. writeData d fin p e = Some (Inr (p', e')) \<and> producer_ok p' e'
    \<and> appends DataSec (enc_data d fin) (p\<lparr>buffers_m := Some DataSec\<rparr>, e) (p', e')"
proof -
  let ?p = "p\<lparr>buffers_m := Some DataSec\<rparr>"
  have cw: "can_write DataSec ?p e" using assms(1) by (rule producer_ok_can_write)
  have rdy: "producer_ready ?p" using assms(1) by (simp add: producer_ok_def producer_ready_def)
  obtain p1 e1 where 1: "writeStringToBuffer d ?p e = Some (Inr (p1, e1))" "producer_ready p1"
    "appends DataSec (enc_str d) (?p, e) (p1, e1)"
    using writeStringToBuffer_appends [OF cw rdy assms(2)] by blast
  have "can_write DataSec p1 e1" using cw 1(3) by (rule can_write_appends)
  then obtain p2 e2 where 2: "writeDelimiterBlock fin p1 e1 = Inr (p2, e2)" "producer_ready p2"
    "appends DataSec [delimiter fin] (p1, e1) (p2, e2)"
    using writeDelimiterBlock_appends [OF _ 1(2)] by blast
  have ap: "appends DataSec (enc_data d fin) (?p, e) (p2, e2)"
    using appends_trans [OF 1(3) 2(3)] by (simp add: enc_data_def)
  then show ?thesis using 1 2 producer_ok_appends [OF assms(1) 2(2) ap] by (simp add: writeData_def)
qed

section \<open>Properties\<close>

text \<open>
  C25: \<^verbatim>\<open>writeStringToBuffer\<close> returns, for every string and every capacity above 0, and publishes
  in the current section blocks whose concatenation is the string cut at \<open>2\<^sup>3\<^sup>2\<close> bytes: all blocks
  but the last are full, the last is not. Other sections and the messages already published stay.
\<close>

theorem writeString_blocks:
  assumes "can_write sec p e" and "producer_ready p" and "length data < 18446744073709551616"
  shows "\<exists>p' e' ms. writeStringToBuffer data p e = Some (Inr (p', e')) \<and> producer_ready p' \<and> entry_wf e'
    \<and> sec_msgs sec e' = sec_msgs sec e @ ms \<and> (\<forall>x. x \<noteq> sec \<longrightarrow> sec_msgs x e' = sec_msgs x e)
    \<and> concat ms = take 4294967296 data
    \<and> (\<forall>m \<in> set (butlast ms). length m = BLOCK_SIZE_BYTES) \<and> ms \<noteq> [] \<and> length (last ms) < BLOCK_SIZE_BYTES"
proof -
  from writeStringToBuffer_appends [OF assms] obtain p' e' where
    w: "writeStringToBuffer data p e = Some (Inr (p', e'))" "producer_ready p'"
    and ap: "appends sec (enc_str data) (p, e) (p', e')" by blast
  have "entry_ext sec (enc_str data) e e'" using ap by (simp add: appends_def)
  note f = entry_ext_frame [OF this]
  obtain fs r where "enc_str data = fs @ [r]" "\<forall>b \<in> set fs. length b = BLOCK_SIZE_BYTES"
    "length r < BLOCK_SIZE_BYTES"
    using chunks_shape [of "take enc_limit data"] by (auto simp: enc_str_def)
  moreover have "concat (enc_str data) = take 4294967296 data"
    by (simp add: enc_str_def concat_chunks enc_limit_def)
  ultimately show ?thesis using w f(1-3)
    by (intro exI [of _ p'] exI [of _ e'] exI [of _ "enc_str data"]) simp
qed

theorem writeString_blocks_witness:
  "\<exists>p' e' ms. writeStringToBuffer (replicate 70 CHR ''x'') (new_CacheEntryProducer\<lparr>buffers_m := Some DataSec\<rparr>)
      (new_CacheEntry 1) = Some (Inr (p', e'))
    \<and> sec_msgs DataSec e' = ms \<and> concat ms = replicate 70 CHR ''x''"
proof -
  have "can_write DataSec (new_CacheEntryProducer\<lparr>buffers_m := Some DataSec\<rparr>) (new_CacheEntry 1)"
    using entry_wf_new [of 1] by (simp add: can_write_def) (simp add: new_CacheEntry_def)
  moreover have "producer_ready (new_CacheEntryProducer\<lparr>buffers_m := Some DataSec\<rparr>)"
    by (simp add: producer_ready_def new_CacheEntryProducer_def)
  ultimately show ?thesis
    using writeString_blocks [of DataSec "new_CacheEntryProducer\<lparr>buffers_m := Some DataSec\<rparr>"
        "new_CacheEntry 1" "replicate 70 CHR ''x''"] by (simp add: sec_msgs_new) blast
qed

end
