(* ===== verification/Consumer.thy ===== *)
theory Consumer
  imports Producer
begin

text \<open>
  \<^verbatim>\<open>class CacheEntryConsumer\<close> of \<^verbatim>\<open>cache_entry.h\<close> and \<^verbatim>\<open>cache_entry.cc\<close>: the reader that replays a
  cached response to a request, while the response may still be being written. The busy-waiting
  loops read shared state that the writer and other readers change: a \<open>world\<close> is the entry and
  the number of accesses made so far, and before every access of the shared state an arbitrary
  \<open>interference\<close> may change the entry (\<open>sync\<close>). With the identity interference the functions are
  the sequential code. The loops that need not end are \<open>partial_function\<close>s: \<open>None\<close> means that
  the reader spins forever.
\<close>

section \<open>State\<close>

type_synonym callback_id = nat

record 'h consumer =
  cache_entry_ptr_c :: "entry_id option"
  decoder_callbacks_c :: "callback_id option"
  current_buffer_m :: "(sect \<times> nat) option"
  read_block_count_m :: u32
  buffer_index_m :: u32
  block_index_m :: u32
  key_length_m :: u32
  data_str_m :: bytes
  key_read_done_m :: bool
  data_batch_complete_m :: bool
  end_stream_m :: bool
  headers_m :: "'h option"
  trailers_m :: "'h option"
  data_c :: bytes
  data_block_c :: bytes
  message_size_c :: u32

text \<open>
  \<open>current_buffer_m\<close> is a shared pointer to a queue that a vector of the entry also holds: the
  section and the index of that queue. The static members:
\<close>

record consumer_statics =
  is_block_with_ones_initialized_m :: bool
  block_with_ones_m :: bytes

definition initial_statics :: consumer_statics where
  "initial_statics = \<lparr>is_block_with_ones_initialized_m = False,
     block_with_ones_m = replicate BLOCK_SIZE_BYTES (CHR 0x00)\<rparr>"

definition CacheEntryConsumer_fields :: "'h consumer" where
  "CacheEntryConsumer_fields =
     \<lparr>cache_entry_ptr_c = None, decoder_callbacks_c = None, current_buffer_m = None,
      read_block_count_m = 0, buffer_index_m = 0, block_index_m = 0, key_length_m = 0,
      data_str_m = [], key_read_done_m = False, data_batch_complete_m = False,
      end_stream_m = False, headers_m = None, trailers_m = None, data_c = [],
      data_block_c = replicate BLOCK_SIZE_BYTES (CHR 0x00), message_size_c = 0\<rparr>"

text \<open>The constructor, as its two steps on the static members and as a whole.\<close>

definition ctor_claim :: "consumer_statics \<Rightarrow> bool \<times> consumer_statics" where
  "ctor_claim st = (if \<not> is_block_with_ones_initialized_m st
     then (True, st\<lparr>is_block_with_ones_initialized_m := True\<rparr>) else (False, st))"

definition ctor_fill :: "bool \<Rightarrow> consumer_statics \<Rightarrow> consumer_statics" where
  "ctor_fill mine st = (if mine then st\<lparr>block_with_ones_m := end_block\<rparr> else st)"

definition new_CacheEntryConsumer :: "consumer_statics \<Rightarrow> consumer_statics \<times> 'h consumer" where
  "new_CacheEntryConsumer st =
     (let (mine, st1) = ctor_claim st in (ctor_fill mine st1, CacheEntryConsumer_fields))"

section \<open>Shared state\<close>

type_synonym world = "nat \<times> cache_entry"
type_synonym interference = "nat \<Rightarrow> cache_entry \<Rightarrow> cache_entry"

definition sync :: "interference \<Rightarrow> world \<Rightarrow> world" where
  "sync env w = (Suc (fst w), env (fst w) (snd w))"

text \<open>\<^verbatim>\<open>headers_block_count_\<close> and \<^verbatim>\<open>data_block_count_\<close>; the trailers have no counter.\<close>

fun block_count :: "sect \<Rightarrow> cache_entry \<Rightarrow> u32" where
  "block_count HeadersSec e = headers_block_count_m e"
| "block_count DataSec e = data_block_count_m e"
| "block_count TrailersSec e = UINT32_MAX"

section \<open>Parsing blocks\<close>

text \<open>
  The parsers run after a successful \<^verbatim>\<open>read\<close>, which has stored a size of at most 64 in
  \<^verbatim>\<open>message_size_\<close>. Passing a null map to the callbacks is a fault, like using it.
\<close>

definition isDataBlockIndicatingEndStream :: "bytes \<Rightarrow> 'h consumer \<Rightarrow> bool" where
  "isDataBlockIndicatingEndStream ones c \<longleftrightarrow> data_block_c c = ones"

definition add_entry :: "'h envoy_api \<Rightarrow> 'h option \<Rightarrow> bytes \<Rightarrow> u32 \<Rightarrow> fault + 'h" where
  "add_entry api m str len =
    (case m of
       None \<Rightarrow> Inl NullDeref
     | Some h \<Rightarrow> if length str < unat len then Inl OutOfBounds
                 else Inr (hm_add api h (hm_lower api (take (unat len) str)) (drop (unat len) str)))"

definition parseAndEncodeHeaders ::
  "'h envoy_api \<Rightarrow> bytes \<Rightarrow> 'h consumer \<Rightarrow> fault + ('h consumer \<times> 'h response_event list)"
where
  "parseAndEncodeHeaders api ones c =
    (if message_size_c c > 0 then
       if key_length_m c = 0 \<and> message_size_c c = of_nat BLOCK_SIZE_BYTES
          \<and> isDataBlockIndicatingEndStream ones c then
         (case headers_m c of
            None \<Rightarrow> Inl NullDeref
          | Some h \<Rightarrow> Inr (c\<lparr>end_stream_m := True, headers_m := None\<rparr>, [EncodeHeaders h True]))
       else
         let c1 = c\<lparr>data_str_m := data_str_m c @ take (unat (message_size_c c)) (data_block_c c)\<rparr>
         in if \<not> key_read_done_m c1 then
              let c2 = c1\<lparr>key_length_m := key_length_m c1 + message_size_c c1\<rparr>
              in if message_size_c c2 < of_nat BLOCK_SIZE_BYTES
                 then Inr (c2\<lparr>key_read_done_m := True\<rparr>, []) else Inr (c2, [])
            else if message_size_c c1 < of_nat BLOCK_SIZE_BYTES then
              bindR (add_entry api (headers_m c1) (data_str_m c1) (key_length_m c1)) (\<lambda>h.
                Inr (c1\<lparr>headers_m := Some h, data_str_m := [], key_length_m := 0,
                        key_read_done_m := False\<rparr>, []))
            else Inr (c1, [])
     else
       if key_length_m c = 0 then
         (case headers_m c of
            None \<Rightarrow> Inl NullDeref
          | Some h \<Rightarrow> Inr (c\<lparr>headers_m := Some (hm_create api)\<rparr>, [EncodeHeaders h False]))
       else if \<not> key_read_done_m c then Inr (c\<lparr>key_read_done_m := True\<rparr>, [])
       else
         bindR (add_entry api (headers_m c) (data_str_m c) (key_length_m c)) (\<lambda>h.
           Inr (c\<lparr>headers_m := Some h, data_str_m := [], key_length_m := 0,
                  key_read_done_m := False\<rparr>, [])))"

definition parseAndEncodeData ::
  "'h envoy_api \<Rightarrow> bytes \<Rightarrow> 'h consumer \<Rightarrow> fault + ('h consumer \<times> 'h response_event list)"
where
  "parseAndEncodeData api ones c =
    (if message_size_c c > 0 then
       if data_batch_complete_m c \<and> message_size_c c = of_nat BLOCK_SIZE_BYTES
          \<and> isDataBlockIndicatingEndStream ones c then
         Inr (c\<lparr>end_stream_m := True, data_c := buf_rest api (data_c c), data_batch_complete_m := False\<rparr>,
              [EncodeData (data_c c) True])
       else
         let c1 = c\<lparr>data_c := data_c c @ take (unat (message_size_c c)) (data_block_c c)\<rparr>
         in if message_size_c c1 < of_nat BLOCK_SIZE_BYTES
            then Inr (c1\<lparr>data_batch_complete_m := True\<rparr>, []) else Inr (c1, [])
     else
       if \<not> data_batch_complete_m c then Inr (c\<lparr>data_batch_complete_m := True\<rparr>, [])
       else Inr (c\<lparr>data_c := buf_rest api (data_c c), data_batch_complete_m := False\<rparr>,
                 [EncodeData (data_c c) False]))"

definition parseAndEncodeTrailers ::
  "'h envoy_api \<Rightarrow> bytes \<Rightarrow> 'h consumer \<Rightarrow> fault + ('h consumer \<times> 'h response_event list)"
where
  "parseAndEncodeTrailers api ones c =
    (if message_size_c c > 0 then
       if key_length_m c = 0 \<and> message_size_c c = of_nat BLOCK_SIZE_BYTES
          \<and> isDataBlockIndicatingEndStream ones c then
         (case trailers_m c of
            None \<Rightarrow> Inl NullDeref
          | Some t \<Rightarrow> Inr (c\<lparr>end_stream_m := True, trailers_m := None\<rparr>, [EncodeTrailers t]))
       else
         let c1 = c\<lparr>data_str_m := data_str_m c @ take (unat (message_size_c c)) (data_block_c c)\<rparr>
         in if \<not> key_read_done_m c1 then
              let c2 = c1\<lparr>key_length_m := key_length_m c1 + message_size_c c1\<rparr>
              in if message_size_c c2 < of_nat BLOCK_SIZE_BYTES
                 then Inr (c2\<lparr>key_read_done_m := True\<rparr>, []) else Inr (c2, [])
            else if message_size_c c1 < of_nat BLOCK_SIZE_BYTES then
              bindR (add_entry api (trailers_m c1) (data_str_m c1) (key_length_m c1)) (\<lambda>t.
                Inr (c1\<lparr>trailers_m := Some t, data_str_m := [], key_length_m := 0,
                        key_read_done_m := False\<rparr>, []))
            else Inr (c1, [])
     else
       if key_length_m c = 0 then
         (case trailers_m c of
            None \<Rightarrow> Inl NullDeref
          | Some t \<Rightarrow> Inr (c\<lparr>trailers_m := Some (hm_create api)\<rparr>, [EncodeTrailers t]))
       else if \<not> key_read_done_m c then Inr (c\<lparr>key_read_done_m := True\<rparr>, [])
       else
         bindR (add_entry api (trailers_m c) (data_str_m c) (key_length_m c)) (\<lambda>t.
           Inr (c\<lparr>trailers_m := Some t, data_str_m := [], key_length_m := 0,
                  key_read_done_m := False\<rparr>, [])))"

section \<open>Reading blocks\<close>

text \<open>\<^verbatim>\<open>current_buffer_->read(block_index_, data_block_, message_size_)\<close>.\<close>

definition readBlock ::
  "'h consumer \<Rightarrow> cache_entry \<Rightarrow> fault + (bool \<times> 'h consumer \<times> cache_entry)"
where
  "readBlock c e =
    (case current_buffer_m c of
       None \<Rightarrow> Inl NullDeref
     | Some (s, i) \<Rightarrow>
         if length (sec_buffers s e) \<le> i then Inl OutOfBounds
         else bindR (rb_read (block_index_m c) (sec_buffers s e ! i) (data_block_c c) (message_size_c c))
           (\<lambda>(ok, q, d, n). Inr (ok, c\<lparr>data_block_c := d, message_size_c := n\<rparr>,
                                  set_buffers s ((sec_buffers s e)[i := q]) e)))"

text \<open>
  The three \<^verbatim>\<open>busyWaitToGetNext...Buffer\<close> functions: load the block counter (not for the trailers),
  then the size of the vector, then the queue, each under its own lock.
\<close>

partial_function (option) busyWaitToGetNextBuffer ::
  "sect \<Rightarrow> interference \<Rightarrow> 'h consumer \<Rightarrow> world \<Rightarrow> ('h consumer \<times> world) run"
where
  "busyWaitToGetNextBuffer sec env c w =
    (let w1 = sync env w
     in if block_count sec (snd w1) \<le> read_block_count_m c then Some (Inr (c, w1))
        else
          let w2 = sync env w1
          in if length (sec_buffers sec (snd w2)) \<le> unat (buffer_index_m c)
             then busyWaitToGetNextBuffer sec env c w2
             else
               let w3 = sync env w2
               in if length (sec_buffers sec (snd w3)) \<le> unat (buffer_index_m c)
                  then Some (Inl OutOfBounds)
                  else Some (Inr (c\<lparr>current_buffer_m := Some (sec, unat (buffer_index_m c))\<rparr>, w3)))"

definition busyWaitToGetNextHeadersBuffer ::
  "interference \<Rightarrow> 'h consumer \<Rightarrow> world \<Rightarrow> ('h consumer \<times> world) run"
where
  "busyWaitToGetNextHeadersBuffer = busyWaitToGetNextBuffer HeadersSec"

definition busyWaitToGetNextDataBuffer ::
  "interference \<Rightarrow> 'h consumer \<Rightarrow> world \<Rightarrow> ('h consumer \<times> world) run"
where
  "busyWaitToGetNextDataBuffer = busyWaitToGetNextBuffer DataSec"

partial_function (option) busyWaitToGetNextTrailersBuffer ::
  "interference \<Rightarrow> 'h consumer \<Rightarrow> world \<Rightarrow> ('h consumer \<times> world) run"
where
  "busyWaitToGetNextTrailersBuffer env c w =
    (let w1 = sync env w
     in if length (sec_buffers TrailersSec (snd w1)) \<le> unat (buffer_index_m c)
        then busyWaitToGetNextTrailersBuffer env c w1
        else
          let w2 = sync env w1
          in if length (sec_buffers TrailersSec (snd w2)) \<le> unat (buffer_index_m c)
             then Some (Inl OutOfBounds)
             else Some (Inr (c\<lparr>current_buffer_m := Some (TrailersSec, unat (buffer_index_m c))\<rparr>, w2)))"

text \<open>
  The \<^verbatim>\<open>while\<close> loop that \<^verbatim>\<open>serveHeaders\<close> and \<^verbatim>\<open>serveData\<close> share, over the section and its parser.
  \<open>out\<close> collects the calls made on the decoder callbacks.
\<close>

partial_function (option) serve_loop ::
  "sect \<Rightarrow> ('h consumer \<Rightarrow> fault + ('h consumer \<times> 'h response_event list)) \<Rightarrow> interference \<Rightarrow>
   'h consumer \<Rightarrow> world \<Rightarrow> 'h response_event list \<Rightarrow> ('h consumer \<times> world \<times> 'h response_event list) run"
where
  "serve_loop sec parse env c w out =
    (let w1 = sync env w
     in if read_block_count_m c < block_count sec (snd w1) then
          let w2 = sync env w1
          in (case readBlock c (snd w2) of
                Inl f \<Rightarrow> Some (Inl f)
              | Inr (ok, c1, e1) \<Rightarrow>
                  if ok then
                    (case parse c1 of
                       Inl f \<Rightarrow> Some (Inl f)
                     | Inr (c2, evs) \<Rightarrow>
                         let c3 = c2\<lparr>read_block_count_m := read_block_count_m c2 + 1,
                                     block_index_m := block_index_m c2 + 1\<rparr>
                         in if block_index_m c3 = single_buffer_blocks_capacity_m e1 then
                              (case busyWaitToGetNextBuffer sec env
                                      (c3\<lparr>block_index_m := 0, buffer_index_m := buffer_index_m c3 + 1\<rparr>)
                                      (fst w2, e1) of
                                 None \<Rightarrow> None
                               | Some r \<Rightarrow>
                                   (case r of
                                      Inl f \<Rightarrow> Some (Inl f)
                                    | Inr (c4, w4) \<Rightarrow> serve_loop sec parse env c4 w4 (out @ evs)))
                            else serve_loop sec parse env c3 (fst w2, e1) (out @ evs))
                  else serve_loop sec parse env c1 (fst w2, e1) out)
        else Some (Inr (c, w1, out)))"

definition serveHeaders ::
  "'h envoy_api \<Rightarrow> bytes \<Rightarrow> interference \<Rightarrow> 'h consumer \<Rightarrow> world \<Rightarrow>
     ('h consumer \<times> world \<times> 'h response_event list) run"
where
  "serveHeaders api ones env c w =
    (let c1 = c\<lparr>read_block_count_m := 0, block_index_m := 0, buffer_index_m := 0,
                end_stream_m := False, headers_m := Some (hm_create api)\<rparr>
     in bindRun (busyWaitToGetNextHeadersBuffer env c1 w) (\<lambda>(c2, w2).
          serve_loop HeadersSec (parseAndEncodeHeaders api ones) env c2 w2 []))"

definition serveData ::
  "'h envoy_api \<Rightarrow> bytes \<Rightarrow> interference \<Rightarrow> 'h consumer \<Rightarrow> world \<Rightarrow>
     ('h consumer \<times> world \<times> 'h response_event list) run"
where
  "serveData api ones env c w =
    (let c1 = c\<lparr>read_block_count_m := 0, block_index_m := 0, buffer_index_m := 0\<rparr>
     in bindRun (busyWaitToGetNextDataBuffer env c1 w) (\<lambda>(c2, w2).
          serve_loop DataSec (parseAndEncodeData api ones) env c2 w2 []))"

text \<open>The trailers loop has no block counter: it ends with the end-of-stream block.\<close>

partial_function (option) serveTrailers_loop ::
  "'h envoy_api \<Rightarrow> bytes \<Rightarrow> interference \<Rightarrow> 'h consumer \<Rightarrow> world \<Rightarrow> 'h response_event list \<Rightarrow>
     ('h consumer \<times> world \<times> 'h response_event list) run"
where
  "serveTrailers_loop api ones env c w out =
    (let w2 = sync env w
     in (case readBlock c (snd w2) of
           Inl f \<Rightarrow> Some (Inl f)
         | Inr (ok, c1, e1) \<Rightarrow>
             if ok then
               (case parseAndEncodeTrailers api ones c1 of
                  Inl f \<Rightarrow> Some (Inl f)
                | Inr (c2, evs) \<Rightarrow>
                    if end_stream_m c2 then Some (Inr (c2, (fst w2, e1), out @ evs))
                    else
                      let c3 = c2\<lparr>block_index_m := block_index_m c2 + 1\<rparr>
                      in if block_index_m c3 = single_buffer_blocks_capacity_m e1 then
                           (case busyWaitToGetNextTrailersBuffer env
                                   (c3\<lparr>block_index_m := 0, buffer_index_m := buffer_index_m c3 + 1\<rparr>)
                                   (fst w2, e1) of
                              None \<Rightarrow> None
                            | Some r \<Rightarrow>
                                (case r of
                                   Inl f \<Rightarrow> Some (Inl f)
                                 | Inr (c4, w4) \<Rightarrow> serveTrailers_loop api ones env c4 w4 (out @ evs)))
                         else serveTrailers_loop api ones env c3 (fst w2, e1) (out @ evs))
             else serveTrailers_loop api ones env c1 (fst w2, e1) out))"

definition serveTrailers ::
  "'h envoy_api \<Rightarrow> bytes \<Rightarrow> interference \<Rightarrow> 'h consumer \<Rightarrow> world \<Rightarrow>
     ('h consumer \<times> world \<times> 'h response_event list) run"
where
  "serveTrailers api ones env c w =
    (let c1 = c\<lparr>block_index_m := 0, buffer_index_m := 0, trailers_m := Some (hm_create api)\<rparr>
     in bindRun (busyWaitToGetNextTrailersBuffer env c1 w) (\<lambda>(c2, w2).
          serveTrailers_loop api ones env c2 w2 []))"

definition serveCachedResponse ::
  "'h envoy_api \<Rightarrow> bytes \<Rightarrow> interference \<Rightarrow> entry_id \<Rightarrow> callback_id \<Rightarrow> 'h consumer \<Rightarrow> world \<Rightarrow>
     ('h consumer \<times> world \<times> 'h response_event list) run"
where
  "serveCachedResponse api ones env responseEntryPtr decoderCallbacks c w =
    (let c1 = c\<lparr>cache_entry_ptr_c := Some responseEntryPtr, decoder_callbacks_c := Some decoderCallbacks\<rparr>
     in bindRun (serveHeaders api ones env c1 w) (\<lambda>(c2, w2, out).
        if \<not> end_stream_m c2 then
          bindRun (serveData api ones env c2 w2) (\<lambda>(c3, w3, out2).
          if \<not> end_stream_m c3 then
            bindRun (serveTrailers api ones env c3 w3) (\<lambda>(c4, w4, out3).
              Some (Inr (c4, w4, out @ out2 @ out3)))
          else Some (Inr (c3, w3, out @ out2)))
        else Some (Inr (c2, w2, out))))"

end
