(* ===== verification/Constructor_Race.thy ===== *)
theory Constructor_Race
  imports Consumer
begin

text \<open>
  The constructor \<^verbatim>\<open>CacheEntryConsumer::CacheEntryConsumer\<close> of \<^verbatim>\<open>cache_entry.cc\<close>, one access to the
  static members at a time, on several threads: the load of \<^verbatim>\<open>is_block_with_ones_initialized_\<close>, its
  store, the \<^verbatim>\<open>memset\<close> of \<^verbatim>\<open>block_with_ones_\<close>. When all constructors are done the block is filled; one
  of them may be done before.
\<close>

section \<open>Constructors as programs\<close>

datatype ctor_pc = CtorLoad | CtorStore | CtorFill | CtorDone

fun ctor_access :: "ctor_pc \<Rightarrow> consumer_statics \<Rightarrow> ctor_pc \<times> consumer_statics" where
  "ctor_access CtorLoad st = (if is_block_with_ones_initialized_m st then CtorDone else CtorStore, st)"
| "ctor_access CtorStore st = (CtorFill, st\<lparr>is_block_with_ones_initialized_m := True\<rparr>)"
| "ctor_access CtorFill st = (CtorDone, st\<lparr>block_with_ones_m := end_block\<rparr>)"
| "ctor_access CtorDone st = (CtorDone, st)"

type_synonym ctor_conf = "ctor_pc list \<times> consumer_statics"

text \<open>The threads take turns as the list says.\<close>

fun ctor_run :: "nat list \<Rightarrow> ctor_conf \<Rightarrow> ctor_conf" where
  "ctor_run [] c = c"
| "ctor_run (i # is) (pcs, st) =
     (if i < length pcs then case ctor_access (pcs ! i) st of (pc, st') \<Rightarrow> ctor_run is (pcs[i := pc], st')
      else ctor_run is (pcs, st))"

lemma ctor_run_append: "ctor_run (is @ js) c = ctor_run js (ctor_run is c)"
  by (induction "is" c rule: ctor_run.induct) (auto split: prod.split)

section \<open>Invariant\<close>

text \<open>
  A thread that is past the load without having filled the block will fill it; once the flag is set,
  somebody has filled the block or is about to.
\<close>

definition ctor_inv :: "ctor_conf \<Rightarrow> bool" where
  "ctor_inv c \<longleftrightarrow> (case c of (pcs, st) \<Rightarrow>
     (is_block_with_ones_initialized_m st \<longrightarrow> block_with_ones_m st = end_block \<or> CtorFill \<in> set pcs)
     \<and> (CtorFill \<in> set pcs \<or> CtorDone \<in> set pcs \<longrightarrow> is_block_with_ones_initialized_m st))"

lemma in_set_upd: "i < length xs \<Longrightarrow> x \<in> set (xs[i := y]) \<Longrightarrow> x = y \<or> x \<in> set xs"
  by (metis insert_iff set_update_subset_insert subset_iff)

lemma upd_keeps: "i < length xs \<Longrightarrow> x \<in> set xs \<Longrightarrow> xs ! i \<noteq> x \<Longrightarrow> x \<in> set (xs[i := y])"
  by (metis in_set_conv_nth length_list_update nth_list_update_neq)

lemma ctor_access_inv:
  assumes inv: "ctor_inv (pcs, st)" and i: "i < length pcs" and a: "ctor_access (pcs ! i) st = (pc, st')"
  shows "ctor_inv (pcs[i := pc], st')"
proof -
  have pc: "pcs ! i \<in> set pcs" "pc \<in> set (pcs[i := pc])" using i by (simp_all add: set_update_memI)
  show ?thesis
  proof (cases "pcs ! i")
    case CtorLoad
    then show ?thesis using inv a pc in_set_upd [OF i] upd_keeps [OF i, of CtorFill]
      by (auto simp: ctor_inv_def split: if_splits)
  next
    case CtorStore
    then show ?thesis using inv a pc by (auto simp: ctor_inv_def)
  next
    case CtorFill
    then show ?thesis using inv a pc by (auto simp: ctor_inv_def)
  next
    case CtorDone
    then have "pcs[i := pc] = pcs" using a by (metis ctor_access.simps(4) list_update_id prod.inject)
    then show ?thesis using inv a CtorDone by simp
  qed
qed

lemma ctor_run_inv: "ctor_inv c \<Longrightarrow> ctor_inv (ctor_run is c)"
proof (induction "is" c rule: ctor_run.induct)
  case (2 i "is" pcs st)
  show ?case
  proof (cases "i < length pcs")
    case True
    obtain pc st' where a: "ctor_access (pcs ! i) st = (pc, st')" by (metis surj_pair)
    with 2(1) [OF True a [symmetric] ctor_access_inv [OF 2(3) True a]] True show ?thesis by simp
  qed (use 2 in simp)
qed simp

lemma ctor_run_length: "length (fst (ctor_run is c)) = length (fst c)"
  by (induction "is" c rule: ctor_run.induct) (auto split: prod.split)

section \<open>Properties\<close>

text \<open>
  C28: whatever the number of threads that construct consumers at the same time and whatever the
  order of their accesses, once all of them are done the flag is set and the block consists of ones.
\<close>

theorem constructors_fill_block:
  assumes "0 < n" and "ctor_run is (replicate n CtorLoad, initial_statics) = (replicate n CtorDone, st)"
  shows "is_block_with_ones_initialized_m st \<and> block_with_ones_m st = end_block"
proof -
  have "ctor_inv (replicate n CtorLoad, initial_statics)" by (simp add: ctor_inv_def initial_statics_def)
  from ctor_run_inv [OF this, of "is"] have "ctor_inv (replicate n CtorDone, st)" unfolding assms(2) .
  then show ?thesis using assms(1) by (simp add: ctor_inv_def)
qed

theorem constructors_fill_block_witness:
  "block_with_ones_m (snd (ctor_run [0, 1, 0, 1, 1, 0] (replicate 2 CtorLoad, initial_statics))) = end_block"
proof -
  have "ctor_run [0, 1, 0, 1, 1, 0] (replicate 2 CtorLoad, initial_statics)
    = (replicate 2 CtorDone, \<lparr>is_block_with_ones_initialized_m = True, block_with_ones_m = end_block\<rparr>)"
    by (simp add: numeral_2_eq_2 initial_statics_def)
  from constructors_fill_block [OF _ this] show ?thesis unfolding \<open>ctor_run _ _ = _\<close> by simp
qed

text \<open>
  On one thread the three accesses are the constructor as the other theories use it.
\<close>

lemma constructor_alone:
  "snd (ctor_run [0, 0, 0] ([CtorLoad], st)) = fst (new_CacheEntryConsumer st :: consumer_statics \<times> 'h consumer)"
  by (simp add: new_CacheEntryConsumer_def ctor_claim_def ctor_fill_def)

text \<open>
  C35: the flag is set before the block is filled: while one thread is between the two, a constructor
  on another thread finishes at once and leaves a block of zeros behind. A consumer that meets the
  end marker of a response without a body then takes it for a part of a header name, and emits
  nothing, while with the filled block it encodes the headers and ends the stream.
\<close>

theorem constructor_done_before_block:
  assumes "headers_m c = Some h" and "data_block_c c = end_block" and "message_size_c c = 64"
    and "key_length_m c = 0" and "\<not> key_read_done_m c"
  shows "\<exists>st. ctor_run [0, 0, 1] ([CtorLoad, CtorLoad], initial_statics) = ([CtorFill, CtorDone], st)
    \<and> parseAndEncodeHeaders api (block_with_ones_m st) c
        = Inr (c\<lparr>data_str_m := data_str_m c @ end_block, key_length_m := 64\<rparr>, [])
    \<and> parseAndEncodeHeaders api end_block c = Inr (c\<lparr>end_stream_m := True, headers_m := None\<rparr>, [EncodeHeaders h True])"
proof -
  have "replicate 64 (CHR 0x00) \<noteq> (replicate 64 (CHR 0xFF) :: bytes)" by simp
  then show ?thesis using assms
    by (simp add: initial_statics_def parseAndEncodeHeaders_def isDataBlockIndicatingEndStream_def end_block_def
        BLOCK_SIZE_BYTES_def Let_def)
qed

theorem constructor_done_before_block_witness:
  "\<exists>st c. ctor_run [0, 0, 1] ([CtorLoad, CtorLoad], initial_statics) = ([CtorFill, CtorDone], st)
    \<and> parseAndEncodeHeaders list_api (block_with_ones_m st)
        (CacheEntryConsumer_fields\<lparr>headers_m := Some [(''k'', ''v'')], data_block_c := end_block, message_size_c := 64\<rparr>) = Inr (c, [])"
proof -
  let ?c = "CacheEntryConsumer_fields\<lparr>headers_m := Some [(''k'', ''v'')], data_block_c := end_block, message_size_c := 64\<rparr> :: (bytes \<times> bytes) list consumer"
  have "headers_m ?c = Some [(''k'', ''v'')]" "data_block_c ?c = end_block" "message_size_c ?c = 64" "key_length_m ?c = 0" "\<not> key_read_done_m ?c"
    by (simp_all add: CacheEntryConsumer_fields_def)
  from constructor_done_before_block [OF this, of list_api] show ?thesis by blast
qed

end
