(* ===== verification/Decoder.thy ===== *)
theory Decoder
  imports Codec Envoy_Api
begin

text \<open>
  The reader's parsers as automata on messages, without buffers, positions and copies: the
  specification that the parsing functions of \<^verbatim>\<open>CacheEntryConsumer\<close> refine (theory
  \<open>Streaming\<close>). \<open>map_step\<close> is the parser of headers and trailers, \<open>data_step\<close> that of the body.
  The round-trip lemmas say what they make of the blocks of theory \<open>Codec\<close>.
\<close>

section \<open>The automata\<close>

record 'h map_decoder =
  key_len :: u32
  key_done :: bool
  key_val :: bytes
  cur_map :: "'h option"
  map_ended :: bool

record data_decoder =
  batch_done :: bool
  pending :: bytes
  data_ended :: bool

definition map_add :: "'h envoy_api \<Rightarrow> 'h map_decoder \<Rightarrow> fault + 'h map_decoder" where
  "map_add api d =
    (case cur_map d of
       None \<Rightarrow> Inl NullDeref
     | Some h \<Rightarrow>
         if length (key_val d) < unat (key_len d) then Inl OutOfBounds
         else Inr (d\<lparr>cur_map := Some (hm_add api h (hm_lower api (take (unat (key_len d)) (key_val d)))
                                      (drop (unat (key_len d)) (key_val d))),
                    key_val := [], key_len := 0, key_done := False\<rparr>))"

definition map_emit :: "('h \<Rightarrow> bool \<Rightarrow> 'h response_event) \<Rightarrow> bool \<Rightarrow> 'h option \<Rightarrow> 'h map_decoder \<Rightarrow>
    fault + ('h map_decoder \<times> 'h response_event list)" where
  "map_emit ev fin next d =
    (case cur_map d of
       None \<Rightarrow> Inl NullDeref
     | Some h \<Rightarrow> Inr (d\<lparr>cur_map := next, map_ended := map_ended d \<or> fin\<rparr>, [ev h fin]))"

definition map_step :: "'h envoy_api \<Rightarrow> ('h \<Rightarrow> bool \<Rightarrow> 'h response_event) \<Rightarrow> 'h map_decoder \<Rightarrow> bytes \<Rightarrow>
    fault + ('h map_decoder \<times> 'h response_event list)" where
  "map_step api ev d m =
    (if m \<noteq> [] then
       if key_len d = 0 \<and> m = end_block then map_emit ev True None d
       else
         let d1 = d\<lparr>key_val := key_val d @ m\<rparr>
         in if \<not> key_done d then
              Inr (d1\<lparr>key_len := key_len d + of_nat (length m),
                      key_done := length m < BLOCK_SIZE_BYTES\<rparr>, [])
            else if length m < BLOCK_SIZE_BYTES then bindR (map_add api d1) (\<lambda>d2. Inr (d2, []))
            else Inr (d1, [])
     else if key_len d = 0 then map_emit ev False (Some (hm_create api)) d
     else if \<not> key_done d then Inr (d\<lparr>key_done := True\<rparr>, [])
     else bindR (map_add api d) (\<lambda>d2. Inr (d2, [])))"

definition data_step :: "'h envoy_api \<Rightarrow> data_decoder \<Rightarrow> bytes \<Rightarrow>
    fault + (data_decoder \<times> 'h response_event list)" where
  "data_step api d m =
    (if m \<noteq> [] then
       if batch_done d \<and> m = end_block then
         Inr (d\<lparr>batch_done := False, pending := buf_rest api (pending d), data_ended := True\<rparr>,
              [EncodeData (pending d) True])
       else Inr (d\<lparr>pending := pending d @ m,
                  batch_done := (batch_done d \<or> length m < BLOCK_SIZE_BYTES)\<rparr>, [])
     else if \<not> batch_done d then Inr (d\<lparr>batch_done := True\<rparr>, [])
     else Inr (d\<lparr>batch_done := False, pending := buf_rest api (pending d)\<rparr>,
               [EncodeData (pending d) False]))"

text \<open>A run over a list of messages, with the calls it makes.\<close>

fun decode :: "('d \<Rightarrow> bytes \<Rightarrow> fault + ('d \<times> 'e list)) \<Rightarrow> 'd \<Rightarrow> bytes list \<Rightarrow> fault + ('d \<times> 'e list)" where
  "decode step d [] = Inr (d, [])"
| "decode step d (m # ms) =
     bindR (step d m) (\<lambda>(d1, evs). bindR (decode step d1 ms) (\<lambda>(d2, evs2). Inr (d2, evs @ evs2)))"

lemma decode_append:
  "decode step d (ms @ ns) =
     bindR (decode step d ms) (\<lambda>(d1, evs). bindR (decode step d1 ns) (\<lambda>(d2, evs2). Inr (d2, evs @ evs2)))"
proof (induction ms arbitrary: d)
  case Nil
  show ?case by (cases "decode step d ns") auto
next
  case (Cons m ms)
  show ?case
  proof (cases "step d m")
    case (Inr r)
    obtain d1 evs where r: "r = (d1, evs)" by (cases r)
    show ?thesis
    proof (cases "decode step d1 ms")
      case (Inr r2)
      obtain d2 evs2 where "r2 = (d2, evs2)" by (cases r2)
      then show ?thesis using Inr \<open>step d m = Inr r\<close>
        by (cases "decode step d2 ns") (auto simp: r Cons.IH)
    qed (simp add: \<open>step d m = Inr r\<close> r Cons.IH)
  qed simp
qed

lemma decode_appendI:
  "decode step d ms = Inr (d1, evs) \<Longrightarrow> decode step d1 ns = Inr (d2, evs2) \<Longrightarrow> es = evs @ evs2 \<Longrightarrow>
     decode step d (ms @ ns) = Inr (d2, es)"
  by (simp add: decode_append)

text \<open>A run that stops after the first message that makes \<open>stop\<close> true; \<open>None\<close> if none does.\<close>

fun decode_until ::
  "('d \<Rightarrow> bool) \<Rightarrow> ('d \<Rightarrow> bytes \<Rightarrow> fault + ('d \<times> 'e list)) \<Rightarrow> 'd \<Rightarrow> bytes list \<Rightarrow> ('d \<times> 'e list) run"
where
  "decode_until stop step d [] = None"
| "decode_until stop step d (m # ms) =
     (case step d m of
        Inl f \<Rightarrow> Some (Inl f)
      | Inr (d1, evs) \<Rightarrow>
          if stop d1 then Some (Inr (d1, evs))
          else bindRun (decode_until stop step d1 ms) (\<lambda>(d2, evs2). Some (Inr (d2, evs @ evs2))))"

lemma decode_until_append:
  assumes mono: "\<And>d m d' es. step d m = Inr (d', es) \<Longrightarrow> stop d \<Longrightarrow> stop d'"
    and "decode step d ms = Inr (d1, evs)" and "\<not> stop d1"
  shows "decode_until stop step d (ms @ ns) =
    bindRun (decode_until stop step d1 ns) (\<lambda>(d2, evs2). Some (Inr (d2, evs @ evs2)))"
  using assms(2,3)
proof (induction ms arbitrary: d evs)
  case Nil
  then show ?case by (simp add: bindRun_def split: option.split sum.split)
next
  case (Cons m ms)
  from Cons.prems(1) obtain d0 es0 es1 where m: "step d m = Inr (d0, es0)"
    and ms: "decode step d0 ms = Inr (d1, es1)" and evs: "evs = es0 @ es1"
    by (auto simp: bindR_Inr_iff)
  have "stop d1" if "stop d0" using ms that
  proof (induction ms arbitrary: d0 es1)
    case (Cons m ms)
    then show ?case using mono by (auto simp: bindR_Inr_iff)
  qed simp
  then have "\<not> stop d0" using Cons.prems(2) by blast
  then show ?case using m Cons.IH [OF ms Cons.prems(2)]
    by (simp add: evs bindRun_assoc) (auto simp: bindRun_def split: option.split sum.split)
qed

section \<open>Headers and trailers\<close>

text \<open>A key is accepted if it is not empty and its first block is not the end-of-stream block.\<close>

definition key_ok :: "bytes \<Rightarrow> bool" where
  "key_ok k \<longleftrightarrow> k \<noteq> [] \<and> length k < enc_limit \<and> take BLOCK_SIZE_BYTES k \<noteq> end_block"

definition entries_ok :: "(bytes \<times> bytes) list \<Rightarrow> bool" where
  "entries_ok kvs \<longleftrightarrow> (\<forall>(k, v) \<in> set kvs. key_ok k \<and> length v \<le> enc_limit)"

lemma entries_ok_simps [simp]:
  "entries_ok []" "entries_ok ((k, v) # kvs) \<longleftrightarrow> key_ok k \<and> length v \<le> enc_limit \<and> entries_ok kvs"
  by (auto simp: entries_ok_def)

text \<open>Reading the rest \<open>s\<close> of a key whose first \<open>length pre\<close> bytes have been read.\<close>

lemma decode_key:
  assumes "\<not> key_done d" and "unat (key_len d) + length s < enc_limit"
    and "key_len d = 0 \<Longrightarrow> s \<noteq> [] \<and> take BLOCK_SIZE_BYTES s \<noteq> end_block"
  shows "decode (map_step api ev) d (chunks s)
    = Inr (d\<lparr>key_len := key_len d + of_nat (length s), key_done := True, key_val := key_val d @ s\<rparr>, [])"
  using assms
proof (induction s arbitrary: d rule: chunks.induct)
  case (1 s)
  show ?case
  proof (cases "length s < BLOCK_SIZE_BYTES")
    case True
    show ?thesis
    proof (cases "s = []")
      case s: True
      then have "key_len d \<noteq> 0" using 1(4) by auto
      then show ?thesis using 1(2) by (simp add: s chunks_short map_step_def)
    next
      case False
      then have "\<not> (key_len d = 0 \<and> s = end_block)" using True by auto
      then show ?thesis using True False 1(2) by (auto simp: chunks_short map_step_def)
    qed
  next
    case False
    let ?b = "take BLOCK_SIZE_BYTES s" and ?s' = "drop BLOCK_SIZE_BYTES s"
    let ?d = "d\<lparr>key_len := key_len d + of_nat BLOCK_SIZE_BYTES, key_val := key_val d @ ?b\<rparr>"
    have ne: "?b \<noteq> []" using False by (auto simp: BLOCK_SIZE_BYTES_def)
    have len: "length ?b = BLOCK_SIZE_BYTES" using False by simp
    have step: "map_step api ev d ?b = Inr (?d, [])"
      using ne len 1(2,4) by (auto simp: map_step_def)
    have le: "BLOCK_SIZE_BYTES \<le> length s" using False by simp
    have kl: "unat (key_len ?d) = unat (key_len d) + BLOCK_SIZE_BYTES"
      using 1(3) le by (simp add: u32_simps enc_limit_def)
    then have "key_len ?d \<noteq> 0" using BLOCK_pos by (metis add_is_0 less_numeral_extra(3) unat_0)
    then have "decode (map_step api ev) ?d (chunks ?s')
      = Inr (?d\<lparr>key_len := key_len ?d + of_nat (length ?s'), key_done := True, key_val := key_val ?d @ ?s'\<rparr>, [])"
      using 1(1) [of ?d] 1(2,3) kl le False by (simp add: enc_limit_def)
    moreover have "key_len ?d + of_nat (length ?s') = key_len d + of_nat (length s)"
      using le by (simp add: of_nat_diff)
    ultimately show ?thesis using step by (simp add: chunks_long [OF le])
  qed
qed

lemma decode_value:
  assumes "key_done d" and "key_len d \<noteq> 0" and "cur_map d = Some h"
    and "unat (key_len d) \<le> length (key_val d)"
  shows "decode (map_step api ev) d (chunks s)
    = Inr (d\<lparr>key_len := 0, key_done := False, key_val := [],
             cur_map := Some (hm_add api h (hm_lower api (take (unat (key_len d)) (key_val d)))
                                (drop (unat (key_len d)) (key_val d) @ s))\<rparr>, [])"
  using assms
proof (induction s arbitrary: d rule: chunks.induct)
  case (1 s)
  show ?case
  proof (cases "length s < BLOCK_SIZE_BYTES")
    case True
    then show ?thesis using 1(2-5) by (cases "s = []") (simp_all add: chunks_short map_step_def map_add_def)
  next
    case False
    let ?b = "take BLOCK_SIZE_BYTES s" and ?s' = "drop BLOCK_SIZE_BYTES s"
    let ?d = "d\<lparr>key_val := key_val d @ ?b\<rparr>"
    have ne: "?b \<noteq> []" using False by (auto simp: BLOCK_SIZE_BYTES_def)
    have len: "length ?b = BLOCK_SIZE_BYTES" and le: "BLOCK_SIZE_BYTES \<le> length s"
      using False by simp_all
    have step: "map_step api ev d ?b = Inr (?d, [])"
      using ne len 1(2,3) by (auto simp: map_step_def)
    show ?thesis using 1(1) [of ?d] 1(2-5) False step by (simp add: chunks_long [OF le])
  qed
qed

text \<open>One entry, from a decoder between two entries to a decoder between two entries.\<close>

definition map_idle :: "'h map_decoder \<Rightarrow> bool" where
  "map_idle d \<longleftrightarrow> key_len d = 0 \<and> \<not> key_done d \<and> key_val d = []"

lemma decode_entry:
  assumes "map_idle d" and "cur_map d = Some h" and "key_ok k" and "length v \<le> enc_limit"
  shows "decode (map_step api ev) d (enc_str k @ enc_str v)
    = Inr (d\<lparr>cur_map := Some (hm_add api h (hm_lower api k) v)\<rparr>, [])"
proof -
  let ?d1 = "d\<lparr>key_len := of_nat (length k), key_done := True, key_val := k\<rparr>"
  have len: "length k < enc_limit" "k \<noteq> []" using assms(3) by (auto simp: key_ok_def)
  then have u: "unat (of_nat (length k) :: u32) = length k" by (simp add: u32_simps enc_limit_def)
  then have nz: "(of_nat (length k) :: u32) \<noteq> 0" using len(2) by (metis length_0_conv unat_0)
  have "decode (map_step api ev) d (chunks k)
      = Inr (d\<lparr>key_len := key_len d + of_nat (length k), key_done := True, key_val := key_val d @ k\<rparr>, [])"
    by (rule decode_key) (use assms len in \<open>auto simp: map_idle_def key_ok_def\<close>)
  then have "decode (map_step api ev) d (enc_str k) = Inr (?d1, [])"
    using assms(1) len by (simp add: map_idle_def enc_str_short)
  moreover have "decode (map_step api ev) ?d1 (enc_str v)
      = Inr (?d1\<lparr>key_len := 0, key_done := False, key_val := [],
                 cur_map := Some (hm_add api h (hm_lower api k) v)\<rparr>, [])"
    using decode_value [of ?d1 h api ev v] assms(2,4) u nz by (simp add: enc_str_short)
  moreover have "?d1\<lparr>key_len := 0, key_done := False, key_val := [],
        cur_map := Some (hm_add api h (hm_lower api k) v)\<rparr>
      = d\<lparr>cur_map := Some (hm_add api h (hm_lower api k) v)\<rparr>"
    using assms(1) by (simp add: map_idle_def)
  ultimately show ?thesis by (auto intro: decode_appendI)
qed

lemma decode_pairs:
  assumes "map_idle d" and "cur_map d = Some h" and "entries_ok kvs"
  shows "decode (map_step api ev) d (enc_pairs kvs) = Inr (d\<lparr>cur_map := Some (hm_add_all api kvs h)\<rparr>, [])"
  using assms
proof (induction kvs arbitrary: d h)
  case Nil
  then show ?case by (cases d) simp
next
  case (Cons kv kvs)
  obtain k v where kv: "kv = (k, v)" by (cases kv)
  let ?h = "hm_add api h (hm_lower api k) v"
  have "decode (map_step api ev) d (enc_str k @ enc_str v) = Inr (d\<lparr>cur_map := Some ?h\<rparr>, [])"
    using decode_entry [OF Cons.prems(1,2)] Cons.prems(3) by (simp add: kv)
  moreover have "decode (map_step api ev) (d\<lparr>cur_map := Some ?h\<rparr>) (enc_pairs kvs)
      = Inr (d\<lparr>cur_map := Some (hm_add_all api kvs ?h)\<rparr>, [])"
    using Cons.IH [of "d\<lparr>cur_map := Some ?h\<rparr>" ?h] Cons.prems by (simp add: kv map_idle_def)
  ultimately show ?case
    using decode_appendI [of "map_step api ev" d "enc_str k @ enc_str v"] by (simp add: kv)
qed

theorem decode_map:
  assumes "map_idle d" and "cur_map d = Some h" and "entries_ok kvs"
  shows "decode (map_step api ev) d (enc_map kvs fin)
    = Inr (d\<lparr>cur_map := (if fin then None else Some (hm_create api)), map_ended := map_ended d \<or> fin\<rparr>,
           [ev (hm_add_all api kvs h) fin])"
proof -
  let ?d = "d\<lparr>cur_map := Some (hm_add_all api kvs h)\<rparr>"
  have "map_idle ?d" using assms(1) by (simp add: map_idle_def)
  then have "map_step api ev ?d (delimiter fin)
      = Inr (d\<lparr>cur_map := (if fin then None else Some (hm_create api)), map_ended := map_ended d \<or> fin\<rparr>,
             [ev (hm_add_all api kvs h) fin])"
    by (cases fin) (auto simp: map_step_def map_emit_def delimiter_def map_idle_def end_block_def BLOCK_SIZE_BYTES_def)
  then show ?thesis unfolding enc_map_def
    by (intro decode_appendI [OF decode_pairs [OF assms]]) simp_all
qed

lemma map_ended_mono: "map_step api ev d m = Inr (d', es) \<Longrightarrow> map_ended d \<Longrightarrow> map_ended d'"
  by (auto simp: map_step_def map_emit_def map_add_def Let_def bindR_Inr_iff split: if_splits option.splits)

text \<open>
  Trailers: the delimiter after them and the end-of-stream block each make the reader pass a map
  on, first the trailers and then an empty one.
\<close>

theorem decode_trailers:
  assumes "map_idle d" and "cur_map d = Some h" and "entries_ok kvs" and "\<not> map_ended d"
  shows "decode_until map_ended (map_step api ev) d (enc_map kvs False @ [end_block])
    = Some (Inr (d\<lparr>cur_map := None, map_ended := True\<rparr>,
                 [ev (hm_add_all api kvs h) False, ev (hm_create api) True]))"
proof -
  let ?d1 = "d\<lparr>cur_map := Some (hm_create api)\<rparr>"
  have "decode (map_step api ev) d (enc_map kvs False) = Inr (?d1, [ev (hm_add_all api kvs h) False])"
    using decode_map [OF assms(1-3), of api ev False] assms(4) by simp
  moreover have "decode_until map_ended (map_step api ev) ?d1 [end_block]
      = Some (Inr (d\<lparr>cur_map := None, map_ended := True\<rparr>, [ev (hm_create api) True]))"
    using assms(1) by (simp add: map_step_def map_emit_def map_idle_def end_block_def BLOCK_SIZE_BYTES_def)
  moreover have "\<not> map_ended ?d1" using assms(4) by simp
  ultimately show ?thesis
    using decode_until_append [of "map_step api ev" map_ended d "enc_map kvs False" ?d1] map_ended_mono
    by fastforce
qed

section \<open>Data\<close>

lemma decode_body:
  assumes "\<not> batch_done d"
  shows "decode (data_step api) d (chunks s) = Inr (d\<lparr>pending := pending d @ s, batch_done := True\<rparr>, [])"
  using assms
proof (induction s arbitrary: d rule: chunks.induct)
  case (1 s)
  show ?case
  proof (cases "length s < BLOCK_SIZE_BYTES")
    case True
    then show ?thesis using 1(2) by (cases "s = []") (simp_all add: chunks_short data_step_def)
  next
    case False
    let ?b = "take BLOCK_SIZE_BYTES s"
    have ne: "?b \<noteq> []" using False by (auto simp: BLOCK_SIZE_BYTES_def)
    have le: "BLOCK_SIZE_BYTES \<le> length s" using False by simp
    have "data_step api d ?b = Inr (d\<lparr>pending := pending d @ ?b\<rparr>, [])"
      using ne le 1(2) by (simp add: data_step_def)
    then show ?thesis using 1(1) [of "d\<lparr>pending := pending d @ ?b\<rparr>"] 1(2) False
      by (simp add: chunks_long [OF le])
  qed
qed

text \<open>No byte of a body can be taken for a delimiter: only the block after its last one is checked.\<close>

theorem decode_data:
  assumes "\<not> batch_done d" and "length s \<le> enc_limit"
  shows "decode (data_step api) d (enc_data s fin)
    = Inr (d\<lparr>pending := buf_rest api (pending d @ s), data_ended := data_ended d \<or> fin\<rparr>,
           [EncodeData (pending d @ s) fin])"
proof -
  let ?d = "d\<lparr>pending := pending d @ s, batch_done := True\<rparr>"
  have "data_step api ?d (delimiter fin)
      = Inr (d\<lparr>pending := buf_rest api (pending d @ s), data_ended := data_ended d \<or> fin\<rparr>,
             [EncodeData (pending d @ s) fin])"
    using assms(1)
    by (cases fin; cases d) (auto simp: data_step_def delimiter_def end_block_def BLOCK_SIZE_BYTES_def)
  then show ?thesis unfolding enc_data_def enc_str_short [OF assms(2)]
    by (intro decode_appendI [OF decode_body [OF assms(1)]]) simp_all
qed

end
