(* ===== verification/Streaming.thy ===== *)
theory Streaming
  imports Consumer Decoder "HOL-Library.Sublist"
begin

text \<open>
  The reader under interference. The parsing functions refine the automata of theory \<open>Decoder\<close>
  (contract \<open>block_parser\<close>, interpreted on the parsers of headers and data), and the
  busy-waiting loops return, whatever the writer and the other readers do in between, as long as
  the writer eventually finishes the section: they hand every block of the section to the parser
  exactly once and in order.
\<close>

section \<open>What the writer does over time\<close>

text \<open>The finished entry: its capacity, its messages and its two counters.\<close>

record final_entry =
  fe_cap :: u32
  fe_msgs :: "sect \<Rightarrow> bytes list"
  fe_count :: "sect \<Rightarrow> u32"

definition partial_of :: "final_entry \<Rightarrow> cache_entry \<Rightarrow> bool" where
  "partial_of F e \<longleftrightarrow> entry_wf e \<and> single_buffer_blocks_capacity_m e = fe_cap F
     \<and> (\<forall>s. prefix (sec_msgs s e) (fe_msgs F s))
     \<and> (\<forall>s. block_count s e = UINT32_MAX \<or> block_count s e = fe_count F s)"

definition complete_of :: "final_entry \<Rightarrow> cache_entry \<Rightarrow> bool" where
  "complete_of F e \<longleftrightarrow> (\<forall>s. sec_msgs s e = fe_msgs F s)
     \<and> (\<forall>s. s \<noteq> TrailersSec \<longrightarrow> block_count s e = fe_count F s)"

text \<open>Buffers are never removed and a published counter does not change.\<close>

definition entry_le :: "cache_entry \<Rightarrow> cache_entry \<Rightarrow> bool" where
  "entry_le e e' \<longleftrightarrow> (\<forall>s. length (sec_buffers s e) \<le> length (sec_buffers s e')
     \<and> (block_count s e \<noteq> UINT32_MAX \<longrightarrow> block_count s e' = block_count s e))"

text \<open>Entries that differ only in what reads leave behind, the version numbers.\<close>

definition same_content :: "cache_entry \<Rightarrow> cache_entry \<Rightarrow> bool" where
  "same_content e e' \<longleftrightarrow> entry_wf e'
     \<and> single_buffer_blocks_capacity_m e' = single_buffer_blocks_capacity_m e
     \<and> (\<forall>s. sec_msgs s e' = sec_msgs s e \<and> length (sec_buffers s e') = length (sec_buffers s e)
          \<and> block_count s e' = block_count s e)"

text \<open>
  \<open>schedule F N S\<close>: \<open>S n\<close> is the entry as the writer alone has it after \<open>n\<close> accesses of the
  reader; it grows towards \<open>F\<close> and is finished after \<open>N\<close> of them. \<open>follows S env\<close>: the
  interference lets the content of the entry run through \<open>S\<close>.
\<close>

definition schedule :: "final_entry \<Rightarrow> nat \<Rightarrow> (nat \<Rightarrow> cache_entry) \<Rightarrow> bool" where
  "schedule F N S \<longleftrightarrow> 0 < unat (fe_cap F)
     \<and> (\<forall>n. partial_of F (S n) \<and> entry_le (S n) (S (Suc n)) \<and> (N < n \<longrightarrow> complete_of F (S n)))"

definition follows :: "(nat \<Rightarrow> cache_entry) \<Rightarrow> interference \<Rightarrow> bool" where
  "follows S env \<longleftrightarrow> (\<forall>n e. same_content (S n) e \<longrightarrow> same_content (S (Suc n)) (env n e))"

definition world_ok :: "(nat \<Rightarrow> cache_entry) \<Rightarrow> world \<Rightarrow> bool" where
  "world_ok S w \<longleftrightarrow> same_content (S (fst w)) (snd w)"

lemma same_content_trans: "same_content a b \<Longrightarrow> same_content b c \<Longrightarrow> same_content a c"
  by (simp add: same_content_def)

lemma same_content_refl: "entry_wf e \<Longrightarrow> same_content e e"
  by (simp add: same_content_def)

lemma fst_sync [simp]: "fst (sync env w) = Suc (fst w)"
  by (simp add: sync_def)

lemma sync_ok: "follows S env \<Longrightarrow> world_ok S w \<Longrightarrow> world_ok S (sync env w)"
  by (simp add: follows_def world_ok_def sync_def)

lemma world_ok_read: "world_ok S w \<Longrightarrow> same_content (snd w) e \<Longrightarrow> world_ok S (fst w, e)"
  by (auto simp: world_ok_def intro: same_content_trans)

lemma world_partial:
  assumes "schedule F N S" and "world_ok S w"
  shows "entry_wf (snd w)" "single_buffer_blocks_capacity_m (snd w) = fe_cap F"
    "prefix (sec_msgs s (snd w)) (fe_msgs F s)"
    "block_count s (snd w) = UINT32_MAX \<or> block_count s (snd w) = fe_count F s"
  using assms by (auto simp: schedule_def world_ok_def same_content_def partial_of_def)

lemma world_complete:
  assumes "schedule F N S" and "world_ok S w" and "N < fst w"
  shows "sec_msgs s (snd w) = fe_msgs F s" "s \<noteq> TrailersSec \<Longrightarrow> block_count s (snd w) = fe_count F s"
  using assms by (auto simp: schedule_def world_ok_def same_content_def complete_of_def)

lemma sync_le:
  assumes "schedule F N S" and "follows S env" and "world_ok S w"
  shows "length (sec_buffers s (snd w)) \<le> length (sec_buffers s (snd (sync env w)))"
    "block_count s (snd w) \<noteq> UINT32_MAX \<Longrightarrow> block_count s (snd (sync env w)) = block_count s (snd w)"
  using assms sync_ok [OF assms(2,3)]
  by (auto simp: schedule_def world_ok_def same_content_def entry_le_def)

section \<open>Reading one block\<close>

text \<open>The reader stands at message \<open>r\<close> of section \<open>sec\<close>, its pointer set.\<close>

definition at_block :: "sect \<Rightarrow> nat \<Rightarrow> nat \<Rightarrow> 'h consumer \<Rightarrow> cache_entry \<Rightarrow> bool" where
  "at_block sec c r k e \<longleftrightarrow> unat (block_index_m k) = r mod c
     \<and> length (data_block_c k) = BLOCK_SIZE_BYTES
     \<and> current_buffer_m k = Some (sec, r div c) \<and> r div c < length (sec_buffers sec e)"

definition load :: "bytes \<Rightarrow> 'h consumer \<Rightarrow> 'h consumer" where
  "load m k = k\<lparr>data_block_c := memcpy_at 0 m (data_block_c k), message_size_c := of_nat (length m)\<rparr>"

lemma readBlock_ok:
  assumes "at_block sec (entry_cap e) r k e" and "entry_wf e" and "0 < entry_cap e"
    and "r < length (sec_msgs sec e)"
  shows "\<exists>e'. readBlock k e = Inr (True, load (sec_msgs sec e ! r) k, e') \<and> same_content e e'"
proof -
  let ?c = "entry_cap e" and ?qs = "sec_buffers sec e"
  have v: "rbq.vwf ?c ?qs" using assms(2) by (rule entry_wf_sec)
  have blk: "length (data_block_c k) = BLOCK_SIZE_BYTES" "unat (block_index_m k) = r mod ?c"
    using assms(1) by (simp_all add: at_block_def)
  from rbq.vec_read_ok [OF v assms(3) assms(4) [unfolded sec_msgs_def] blk, of "message_size_c k"]
  obtain q' where r: "rb_read (block_index_m k) (?qs ! (r div ?c)) (data_block_c k) (message_size_c k)
      = Inr (True, q', memcpy_at 0 (sec_msgs sec e ! r) (data_block_c k), of_nat (length (sec_msgs sec e ! r)))"
    and q': "rbq.vwf ?c (?qs[r div ?c := q'])" "rbq.vmsgs (?qs[r div ?c := q']) = rbq.vmsgs ?qs"
    unfolding sec_msgs_def by blast
  let ?e' = "set_buffers sec (?qs[r div ?c := q']) e"
  have bc: "block_count s ?e' = block_count s e" for s by (cases s) simp_all
  have "readBlock k e = Inr (True, load (sec_msgs sec e ! r) k, ?e')"
    using assms(1) r by (simp add: readBlock_def at_block_def load_def)
  moreover have "same_content e ?e'"
    using assms(2) q' bc by (simp add: same_content_def entry_wf_set) (simp add: sec_msgs_def)
  ultimately show ?thesis by blast
qed

lemma readBlock_absent:
  assumes "at_block sec (entry_cap e) r k e" and "entry_wf e" and "0 < entry_cap e"
    and "length (sec_msgs sec e) \<le> r"
  shows "readBlock k e = Inr (False, k, e)"
proof -
  let ?c = "entry_cap e" and ?qs = "sec_buffers sec e"
  have v: "rbq.vwf ?c ?qs" using assms(2) by (rule entry_wf_sec)
  have i: "r div ?c < length ?qs" "unat (block_index_m k) = r mod ?c"
    using assms(1) by (simp_all add: at_block_def)
  have "set_buffers sec ?qs e = e" by (cases sec) simp_all
  then show ?thesis
    using assms(1) rbq.vec_read_absent [OF v assms(3) assms(4) [unfolded sec_msgs_def] i]
    by (simp add: readBlock_def at_block_def)
qed

lemma sec_msgs_buffer:
  assumes "entry_wf e" and "0 < entry_cap e" and "r < length (sec_msgs sec e)"
  shows "r div entry_cap e < length (sec_buffers sec e)"
  using rbq.vec_index(1) [OF entry_wf_sec [OF assms(1)] assms(2), of r sec] assms(3)
  by (simp add: sec_msgs_def)

section \<open>Waiting for the next buffer\<close>

text \<open>
  The wait for a buffer returns: either the section is finished and has been read completely, or
  the pointer is set to the buffer that holds, or will hold, the next message.
\<close>

lemma busyWait_returns:
  assumes S: "schedule F N S" "follows S env" and w: "world_ok S w" and sec: "sec \<noteq> TrailersSec"
    and K: "length (fe_msgs F sec) < 4294967295" "fe_count F sec = of_nat (length (fe_msgs F sec))"
    and r: "unat (read_block_count_m k) = r" "r \<le> length (fe_msgs F sec)"
    and b: "unat (buffer_index_m k) = r div unat (fe_cap F)"
  shows "\<exists>k' w'. busyWaitToGetNextBuffer sec env k w = Some (Inr (k', w')) \<and> world_ok S w' \<and> fst w < fst w'
    \<and> (k' = k \<and> r = length (fe_msgs F sec) \<and> block_count sec (snd w') = fe_count F sec
       \<or> k' = k\<lparr>current_buffer_m := Some (sec, r div unat (fe_cap F))\<rparr>
         \<and> r div unat (fe_cap F) < length (sec_buffers sec (snd w')))"
  using w
proof (induction "N - fst w" arbitrary: w rule: less_induct)
  case less
  define w1 where "w1 = sync env w"
  define w2 where "w2 = sync env w1"
  define w3 where "w3 = sync env w2"
  note ws = w1_def w2_def w3_def
  have ok: "world_ok S w1" "world_ok S w2" "world_ok S w3"
    using less.prems S(2) by (simp_all add: ws sync_ok)
  have t: "fst w1 = Suc (fst w)" "fst w2 = Suc (Suc (fst w))" by (simp_all add: ws)
  let ?bi = "r div unat (fe_cap F)"
  have rK: "unat (fe_count F sec) = length (fe_msgs F sec)" using K by (simp add: u32_simps)
  note step = busyWaitToGetNextBuffer.simps [of sec env k w, unfolded Let_def, folded w1_def, folded w2_def, folded w3_def]
  show ?case
  proof (cases "block_count sec (snd w1) \<le> read_block_count_m k")
    case True
    then have "unat (block_count sec (snd w1)) \<le> r" using r(1) by (simp add: word_le_nat_alt)
    moreover have "r < unat UINT32_MAX" using r(2) K(1) by simp
    ultimately have "block_count sec (snd w1) = fe_count F sec"
      using world_partial(4) [OF S(1) ok(1), of sec] by auto
    then have "r = length (fe_msgs F sec) \<and> block_count sec (snd w1) = fe_count F sec"
      using \<open>unat (block_count sec (snd w1)) \<le> r\<close> rK r(2) by simp
    then show ?thesis using step True ok(1) t(1) by (intro exI [of _ k] exI [of _ w1]) simp
  next
    case open_: False
    show ?thesis
    proof (cases "length (sec_buffers sec (snd w2)) \<le> ?bi")
      case False
      then have "\<not> length (sec_buffers sec (snd w3)) \<le> ?bi"
        using sync_le(1) [OF S ok(2), of sec] by (simp add: w3_def)
      then show ?thesis using step open_ False b ok(3) by (auto simp: ws)
    next
      case True
      have "fst w < N"
      proof (rule ccontr)
        assume "\<not> fst w < N"
        then have N: "N < fst w1" "N < fst w2" using t by simp_all
        have "r \<noteq> length (fe_msgs F sec)"
          using open_ world_complete(2) [OF S(1) ok(1) N(1) sec] rK r(1) by (auto simp: word_le_nat_alt)
        then have "r < length (sec_msgs sec (snd w2))"
          using world_complete(1) [OF S(1) ok(2) N(2), of sec] r(2) by simp
        moreover have "entry_cap (snd w2) = unat (fe_cap F)" "0 < unat (fe_cap F)"
          using world_partial(2) [OF S(1) ok(2)] S(1) by (simp_all add: schedule_def)
        ultimately have "?bi < length (sec_buffers sec (snd w2))"
          using sec_msgs_buffer [OF world_partial(1) [OF S(1) ok(2)], of r sec] by simp
        then show False using True by simp
      qed
      then have "N - fst w2 < N - fst w" using t by simp
      from less.hyps [OF this ok(2)] step open_ True b t show ?thesis by fastforce
    qed
  qed
qed

section \<open>Positions\<close>

text \<open>
  The reader has read \<open>r\<close> messages of the section; its pointer is set to the buffer of the next
  one, unless it has read everything and knows it.
\<close>

definition at_pos :: "final_entry \<Rightarrow> sect \<Rightarrow> nat \<Rightarrow> 'h consumer \<Rightarrow> world \<Rightarrow> bool" where
  "at_pos F sec r k w \<longleftrightarrow> unat (read_block_count_m k) = r \<and> r \<le> length (fe_msgs F sec)
     \<and> unat (block_index_m k) = r mod unat (fe_cap F) \<and> unat (buffer_index_m k) = r div unat (fe_cap F)
     \<and> length (data_block_c k) = BLOCK_SIZE_BYTES
     \<and> (current_buffer_m k = Some (sec, r div unat (fe_cap F))
          \<and> r div unat (fe_cap F) < length (sec_buffers sec (snd w))
        \<or> r = length (fe_msgs F sec) \<and> block_count sec (snd w) = fe_count F sec)"

definition counted :: "final_entry \<Rightarrow> sect \<Rightarrow> bool" where
  "counted F sec \<longleftrightarrow> sec \<noteq> TrailersSec \<and> length (fe_msgs F sec) < 4294967295
     \<and> fe_count F sec = of_nat (length (fe_msgs F sec))"

lemma counted_unat: "counted F sec \<Longrightarrow> unat (fe_count F sec) = length (fe_msgs F sec)"
  by (simp add: counted_def u32_simps)

lemma counted_not_max: "counted F sec \<Longrightarrow> fe_count F sec \<noteq> UINT32_MAX"
  using counted_unat [of F sec] by (auto simp: counted_def)

lemma final_msg_size:
  assumes "schedule F N S" and "m \<in> set (fe_msgs F s)"
  shows "length m \<le> BLOCK_SIZE_BYTES"
proof -
  have e: "entry_wf (S (Suc N))" "sec_msgs s (S (Suc N)) = fe_msgs F s"
    using assms(1) by (auto simp: schedule_def partial_of_def complete_of_def)
  then have "m \<in> set (rbq.vmsgs (sec_buffers s (S (Suc N))))" using assms(2) by (simp add: sec_msgs_def)
  then obtain q where q: "q \<in> set (sec_buffers s (S (Suc N)))" "m \<in> set (rb_msgs q)"
    by (auto simp: vec_msgs_def)
  moreover have "rb_wf q" using entry_wf_sec [OF e(1), of s] q(1) by (simp add: vec_wf_def)
  ultimately show ?thesis by (simp add: rb_msg_size)
qed

text \<open>The counter tells the reader to stop exactly when it has read everything.\<close>

lemma stop_iff:
  assumes "schedule F N S" and "world_ok S w" and "counted F sec" and "r \<le> length (fe_msgs F sec)"
    and "unat (read_block_count_m k) = r"
  shows "\<not> read_block_count_m k < block_count sec (snd w) \<longleftrightarrow>
    r = length (fe_msgs F sec) \<and> block_count sec (snd w) = fe_count F sec"
proof -
  have "r < 4294967295" using assms(3,4) by (simp add: counted_def)
  then show ?thesis
    using world_partial(4) [OF assms(1,2), of sec] counted_unat [OF assms(3)] assms(4,5)
    by (auto simp: word_less_nat_alt)
qed

text \<open>
  A reader that finds the next message absent, or waits for the counter, is early: the writer has
  not finished yet.
\<close>

lemma early:
  assumes S: "schedule F N S" and ok: "world_ok S w1" "world_ok S w2" and c: "counted F sec"
    and r: "r \<le> length (fe_msgs F sec)" "unat (read_block_count_m k) = r"
    and go: "read_block_count_m k < block_count sec (snd w1)"
    and absent: "length (sec_msgs sec (snd w2)) \<le> r" and t: "fst w1 \<le> fst w2"
  shows "fst w1 \<le> N"
proof (rule ccontr)
  assume "\<not> fst w1 \<le> N"
  then have N: "N < fst w1" "N < fst w2" using t by simp_all
  have sec: "sec \<noteq> TrailersSec" using c by (simp add: counted_def)
  have "r < length (fe_msgs F sec)"
    using go r world_complete(2) [OF S ok(1) N(1) sec] counted_unat [OF c] by (simp add: word_less_nat_alt)
  then show False using absent world_complete(1) [OF S ok(2) N(2), of sec] by simp
qed

text \<open>Going on to the next message, within a buffer or from one buffer to the next.\<close>

definition position ::
  "'h consumer \<Rightarrow> (sect \<times> nat) option \<times> u32 \<times> u32 \<times> u32 \<times> bytes \<times> entry_id option \<times> callback_id option"
where
  "position k = (current_buffer_m k, read_block_count_m k, buffer_index_m k, block_index_m k,
     data_block_c k, cache_entry_ptr_c k, decoder_callbacks_c k)"

definition advance :: "'h consumer \<Rightarrow> 'h consumer" where
  "advance k = k\<lparr>read_block_count_m := read_block_count_m k + 1, block_index_m := block_index_m k + 1\<rparr>"

definition next_buffer :: "'h consumer \<Rightarrow> 'h consumer" where
  "next_buffer k = k\<lparr>block_index_m := 0, buffer_index_m := buffer_index_m k + 1\<rparr>"

lemma div_mod_Suc:
  assumes "0 < (c :: nat)"
  shows "Suc (r mod c) = c \<Longrightarrow> Suc r div c = Suc (r div c) \<and> Suc r mod c = 0"
    "Suc (r mod c) \<noteq> c \<Longrightarrow> Suc r div c = r div c \<and> Suc r mod c = Suc (r mod c)"
  using assms by (auto simp: mod_Suc div_Suc)

lemma advance_counts:
  assumes "at_pos F sec r k w" and "r < length (fe_msgs F sec)" and "counted F sec"
    and "0 < unat (fe_cap F)" and "position k' = position (load m k)"
  shows "unat (read_block_count_m (advance k')) = Suc r"
    "unat (block_index_m (advance k')) = Suc (r mod unat (fe_cap F))"
    "unat (buffer_index_m (advance k')) = r div unat (fe_cap F)"
    "block_index_m (advance k') = fe_cap F \<longleftrightarrow> Suc (r mod unat (fe_cap F)) = unat (fe_cap F)"
    "unat (buffer_index_m (next_buffer (advance k'))) = Suc (r div unat (fe_cap F))"
    "length m \<le> BLOCK_SIZE_BYTES \<Longrightarrow> length (data_block_c (advance k')) = BLOCK_SIZE_BYTES"
proof -
  let ?c = "unat (fe_cap F)"
  have k': "read_block_count_m k' = read_block_count_m k" "block_index_m k' = block_index_m k"
    "buffer_index_m k' = buffer_index_m k" "data_block_c k' = memcpy_at 0 m (data_block_c k)"
    using assms(5) by (simp_all add: position_def load_def)
  have r: "r < 4294967294" using assms(2,3) by (simp add: counted_def)
  have "r mod ?c < ?c" using assms(4) by simp
  then have m: "r mod ?c < 4294967295" using unat_u32_le [of "fe_cap F"] by linarith
  have d: "r div ?c < 4294967295" using r div_le_dividend [of r ?c] by linarith
  have p: "unat (read_block_count_m k) = r" "unat (block_index_m k) = r mod ?c"
    "unat (buffer_index_m k) = r div ?c" "length (data_block_c k) = BLOCK_SIZE_BYTES"
    using assms(1) by (simp_all add: at_pos_def)
  show "unat (read_block_count_m (advance k')) = Suc r" using r p by (simp add: advance_def k' u32_simps)
  show b: "unat (block_index_m (advance k')) = Suc (r mod ?c)" using m p by (simp add: advance_def k' u32_simps)
  show "unat (buffer_index_m (advance k')) = r div ?c" using p by (simp add: advance_def k')
  show "block_index_m (advance k') = fe_cap F \<longleftrightarrow> Suc (r mod ?c) = ?c"
    using b by (simp add: word_unat_eq_iff)
  show "unat (buffer_index_m (next_buffer (advance k'))) = Suc (r div ?c)"
    using d p by (simp add: advance_def next_buffer_def k' u32_simps)
  show "length m \<le> BLOCK_SIZE_BYTES \<Longrightarrow> length (data_block_c (advance k')) = BLOCK_SIZE_BYTES"
    using p by (simp add: advance_def k')
qed

section \<open>Parsers\<close>

text \<open>
  A parser of blocks: on a loaded message it does what its automaton does on the message, and it
  touches neither the reader's position nor what belongs to the other sections (\<open>frame\<close>).
\<close>

definition loaded :: "bytes \<Rightarrow> 'h consumer \<Rightarrow> bool" where
  "loaded m k \<longleftrightarrow> length m \<le> BLOCK_SIZE_BYTES \<and> length (data_block_c k) = BLOCK_SIZE_BYTES
     \<and> message_size_c k = of_nat (length m) \<and> take (length m) (data_block_c k) = m"

lemma loaded_load:
  "length (data_block_c k) = BLOCK_SIZE_BYTES \<Longrightarrow> length m \<le> BLOCK_SIZE_BYTES \<Longrightarrow> loaded m (load m k)"
  by (simp add: loaded_def load_def take_memcpy_at_0)

lemma loaded_size:
  assumes "loaded m k"
  shows "message_size_c k > 0 \<longleftrightarrow> m \<noteq> []" "unat (message_size_c k) = length m"
    "message_size_c k = of_nat BLOCK_SIZE_BYTES \<longleftrightarrow> length m = BLOCK_SIZE_BYTES"
    "message_size_c k < of_nat BLOCK_SIZE_BYTES \<longleftrightarrow> length m < BLOCK_SIZE_BYTES"
proof -
  have m: "message_size_c k = of_nat (length m)" "length m \<le> 64"
    using assms by (simp_all add: loaded_def BLOCK_SIZE_BYTES_def)
  show u: "unat (message_size_c k) = length m" using m by (simp add: u32_simps)
  show "message_size_c k > 0 \<longleftrightarrow> m \<noteq> []" using u by (simp add: word_less_nat_alt)
  show "message_size_c k = of_nat BLOCK_SIZE_BYTES \<longleftrightarrow> length m = BLOCK_SIZE_BYTES"
    using u by (simp add: word_unat_eq_iff)
  show "message_size_c k < of_nat BLOCK_SIZE_BYTES \<longleftrightarrow> length m < BLOCK_SIZE_BYTES"
    using u by (simp add: word_less_nat_alt)
qed

lemma loaded_end_block:
  assumes "loaded m k"
  shows "message_size_c k = of_nat BLOCK_SIZE_BYTES \<and> isDataBlockIndicatingEndStream end_block k \<longleftrightarrow> m = end_block"
  using assms by (auto simp: loaded_size isDataBlockIndicatingEndStream_def) (auto simp: loaded_def)

locale block_parser =
  fixes parse :: "'h consumer \<Rightarrow> fault + ('h consumer \<times> 'h response_event list)"
    and step :: "'d \<Rightarrow> bytes \<Rightarrow> fault + ('d \<times> 'h response_event list)"
    and view :: "'h consumer \<Rightarrow> 'd"
    and frame :: "'h consumer \<Rightarrow> 'r"
  assumes parse_step: "loaded m k \<Longrightarrow> step (view k) m = Inr (d, evs) \<Longrightarrow>
      \<exists>k'. parse k = Inr (k', evs) \<and> view k' = d \<and> frame k' = frame k \<and> position k' = position k"
    and parse_fault: "loaded m k \<Longrightarrow> step (view k) m = Inl f \<Longrightarrow> parse k = Inl f"
    and view_load: "view (load m k) = view k" "frame (load m k) = frame k"
    and view_read: "view (k\<lparr>read_block_count_m := x\<rparr>) = view k" "frame (k\<lparr>read_block_count_m := x\<rparr>) = frame k"
    and view_block: "view (k\<lparr>block_index_m := x\<rparr>) = view k" "frame (k\<lparr>block_index_m := x\<rparr>) = frame k"
    and view_buffer: "view (k\<lparr>buffer_index_m := x\<rparr>) = view k" "frame (k\<lparr>buffer_index_m := x\<rparr>) = frame k"
    and view_current: "view (k\<lparr>current_buffer_m := q\<rparr>) = view k" "frame (k\<lparr>current_buffer_m := q\<rparr>) = frame k"
begin

lemmas view_simps = view_load view_read view_block view_buffer view_current

lemma parse_load:
  assumes "length (data_block_c k) = BLOCK_SIZE_BYTES" and "length m \<le> BLOCK_SIZE_BYTES"
    and "step (view k) m = Inr (d, evs)"
  shows "\<exists>k'. parse (load m k) = Inr (k', evs) \<and> view k' = d \<and> frame k' = frame k
    \<and> position k' = position (load m k)"
  using parse_step [OF loaded_load [OF assms(1,2)]] assms(3) by (simp add: view_simps)

lemma view_moves [simp]:
  "view (advance k) = view k" "frame (advance k) = frame k"
  "view (next_buffer k) = view k" "frame (next_buffer k) = frame k"
proof -
  show "view (advance k) = view k" "frame (advance k) = frame k"
    unfolding advance_def using view_read [of _ "k\<lparr>block_index_m := _\<rparr>"] view_block
    by (simp_all add: view_simps)
  show "view (next_buffer k) = view k" "frame (next_buffer k) = frame k"
    unfolding next_buffer_def by (simp_all add: view_simps)
qed

text \<open>One message: the reader parses it and stands at the next one, waiting for its buffer if need be.\<close>

lemma serve_loop_message:
  assumes S: "schedule F N S" "follows S env" and w: "world_ok S w" and c: "counted F sec"
    and p: "at_pos F sec r k w" and step: "step (view k) (fe_msgs F sec ! r) = Inr (d, evs)"
    and go: "read_block_count_m k < block_count sec (snd (sync env w))"
    and there: "r < length (sec_msgs sec (snd (sync env (sync env w))))"
  shows "\<exists>k' w'. serve_loop sec parse env k w out = serve_loop sec parse env k' w' (out @ evs)
    \<and> at_pos F sec (Suc r) k' w' \<and> world_ok S w' \<and> fst w < fst w' \<and> view k' = d \<and> frame k' = frame k"
proof -
  define w1 where "w1 = sync env w"
  define w2 where "w2 = sync env w1"
  let ?c = "unat (fe_cap F)"
  let ?m = "fe_msgs F sec ! r"
  have ok: "world_ok S w1" "world_ok S w2" using w S(2) by (simp_all add: w1_def w2_def sync_ok)
  have cap: "entry_cap (snd w2) = ?c" "0 < ?c" and ewf: "entry_wf (snd w2)"
    using world_partial [OF S(1) ok(2)] S(1) by (simp_all add: schedule_def)
  have pre: "prefix (sec_msgs sec (snd w2)) (fe_msgs F sec)" using world_partial(3) [OF S(1) ok(2)] .
  have lt: "r < length (fe_msgs F sec)" and m: "sec_msgs sec (snd w2) ! r = ?m"
    using there pre by (auto simp: w2_def w1_def prefix_def nth_append)
  have "r div ?c < length (sec_buffers sec (snd w2))"
    using sec_msgs_buffer [OF ewf, of r sec] cap there by (simp add: w2_def w1_def)
  moreover have "current_buffer_m k = Some (sec, r div ?c)" using p lt by (simp add: at_pos_def)
  ultimately have at: "at_block sec ?c r k (snd w2)" using p by (simp add: at_pos_def at_block_def)
  then obtain e' where rd: "readBlock k (snd w2) = Inr (True, load ?m k, e')" and e': "same_content (snd w2) e'"
    using readBlock_ok [of sec "snd w2" r k] cap ewf there m by (auto simp: w2_def w1_def)
  have msz: "length ?m \<le> BLOCK_SIZE_BYTES" using final_msg_size [OF S(1) nth_mem [OF lt]] .
  have blk: "length (data_block_c k) = BLOCK_SIZE_BYTES" using p by (simp add: at_pos_def)
  obtain k1 where k1: "parse (load ?m k) = Inr (k1, evs)" "view k1 = d" "frame k1 = frame k"
    "position k1 = position (load ?m k)"
    using parse_load [OF blk msz step] by blast
  note adv = advance_counts [OF p lt c cap(2) k1(4)]
  have okr: "world_ok S (fst w2, e')" using ok(2) e' by (rule world_ok_read)
  have cape: "single_buffer_blocks_capacity_m e' = fe_cap F"
    using world_partial(2) [OF S(1) okr] by simp
  have rd': "read_block_count_m k < block_count sec (snd w1)" using go by (simp add: w1_def)
  note unf = serve_loop.simps [of sec parse env k w out, unfolded Let_def, folded w1_def, folded w2_def]
  have len: "length (sec_buffers sec e') = length (sec_buffers sec (snd w2))"
    using e' by (simp add: same_content_def)
  show ?thesis
  proof (cases "Suc (r mod ?c) = ?c")
    case False
    note dm = div_mod_Suc(2) [OF cap(2) False]
    have "serve_loop sec parse env k w out = serve_loop sec parse env (advance k1) (fst w2, e') (out @ evs)"
      using unf rd' rd k1(1) adv(4) False by (simp add: cape advance_def)
    moreover have "current_buffer_m (advance k1) = Some (sec, r div ?c)"
      using at k1(4) by (simp add: advance_def position_def load_def at_block_def)
    then have "at_pos F sec (Suc r) (advance k1) (fst w2, e')"
      using adv msz dm lt at len by (simp add: at_pos_def at_block_def)
    ultimately show ?thesis using okr k1
      by (intro exI [of _ "advance k1"] exI [of _ "(fst w2, e')"]) (simp add: w1_def w2_def)
  next
    case True
    note dm = div_mod_Suc(1) [OF cap(2) True]
    let ?k2 = "next_buffer (advance k1)"
    have r2: "unat (read_block_count_m ?k2) = Suc r" using adv(1) by (simp add: next_buffer_def)
    have b2: "unat (buffer_index_m ?k2) = Suc r div ?c" using adv(5) dm by simp
    have K: "sec \<noteq> TrailersSec" "length (fe_msgs F sec) < 4294967295"
      "fe_count F sec = of_nat (length (fe_msgs F sec))" using c by (simp_all add: counted_def)
    obtain k3 w3 where bw: "busyWaitToGetNextBuffer sec env ?k2 (fst w2, e') = Some (Inr (k3, w3))"
      and w3: "world_ok S w3" "fst w2 < fst w3"
      and k3: "k3 = ?k2 \<and> Suc r = length (fe_msgs F sec) \<and> block_count sec (snd w3) = fe_count F sec
       \<or> k3 = ?k2\<lparr>current_buffer_m := Some (sec, Suc r div ?c)\<rparr> \<and> Suc r div ?c < length (sec_buffers sec (snd w3))"
      using busyWait_returns [OF S okr K r2 _ b2] lt by auto
    have "serve_loop sec parse env k w out = serve_loop sec parse env k3 w3 (out @ evs)"
      using unf rd' rd k1(1) adv(4) True bw
      by (simp add: cape advance_def next_buffer_def)
    moreover have "block_index_m ?k2 = 0" "length (data_block_c ?k2) = BLOCK_SIZE_BYTES"
      using adv(6) msz by (simp_all add: next_buffer_def)
    then have "at_pos F sec (Suc r) k3 w3"
      using k3 r2 b2 dm lt by (auto simp: at_pos_def)
    moreover have "view k3 = d" "frame k3 = frame k" using k3 k1 by (auto simp: view_simps)
    ultimately show ?thesis using w3
      by (intro exI [of _ k3] exI [of _ w3]) (simp add: w1_def w2_def)
  qed
qed

text \<open>
  The whole loop: from message \<open>r\<close> on it returns, and has made exactly the calls that the
  automaton makes on the remaining messages of the finished section.
\<close>

lemma serve_loop_decodes:
  assumes S: "schedule F N S" "follows S env" and c: "counted F sec"
    and "world_ok S w" and "at_pos F sec r k w"
    and "decode step (view k) (drop r (fe_msgs F sec)) = Inr (d, evs)"
  shows "\<exists>k' w'. serve_loop sec parse env k w out = Some (Inr (k', w', out @ evs)) \<and> world_ok S w'
    \<and> view k' = d \<and> frame k' = frame k \<and> length (data_block_c k') = BLOCK_SIZE_BYTES"
  using assms(4-6)
proof (induction "(length (fe_msgs F sec) - r) + (N - fst w)" arbitrary: r k w out evs rule: less_induct)
  case less
  note w = less.prems(1) and p = less.prems(2) and dec = less.prems(3)
  define w1 where "w1 = sync env w"
  define w2 where "w2 = sync env w1"
  have ok: "world_ok S w1" "world_ok S w2" using w S(2) by (simp_all add: w1_def w2_def sync_ok)
  have r: "unat (read_block_count_m k) = r" "r \<le> length (fe_msgs F sec)"
    and blk: "length (data_block_c k) = BLOCK_SIZE_BYTES" using p by (simp_all add: at_pos_def)
  note unf = serve_loop.simps [of sec parse env k w out, unfolded Let_def, folded w1_def, folded w2_def]
  show ?case
  proof (cases "read_block_count_m k < block_count sec (snd w1)")
    case False
    then have "r = length (fe_msgs F sec)" using stop_iff [OF S(1) ok(1) c r(2,1)] by simp
    then have "d = view k" "evs = []" using dec by simp_all
    then show ?thesis using unf False ok(1) blk by simp
  next
    case go: True
    show ?thesis
    proof (cases "r < length (sec_msgs sec (snd w2))")
      case there: True
      then have lt: "r < length (fe_msgs F sec)"
        using world_partial(3) [OF S(1) ok(2), of sec] prefix_length_le by fastforce
      then have "drop r (fe_msgs F sec) = fe_msgs F sec ! r # drop (Suc r) (fe_msgs F sec)"
        by (simp add: Cons_nth_drop_Suc)
      then obtain d1 evs1 evs2 where st: "step (view k) (fe_msgs F sec ! r) = Inr (d1, evs1)"
        and rest: "decode step d1 (drop (Suc r) (fe_msgs F sec)) = Inr (d, evs2)" "evs = evs1 @ evs2"
        using dec by (auto simp: bindR_Inr_iff)
      obtain k' w' where eq: "serve_loop sec parse env k w out = serve_loop sec parse env k' w' (out @ evs1)"
        and k': "at_pos F sec (Suc r) k' w'" "world_ok S w'" "view k' = d1" "frame k' = frame k" "fst w < fst w'"
        using serve_loop_message [OF S w c p st go [unfolded w1_def] there [unfolded w2_def w1_def]]
        by blast
      have "(length (fe_msgs F sec) - Suc r) + (N - fst w') < (length (fe_msgs F sec) - r) + (N - fst w)"
        using lt k'(5) by linarith
      from less.hyps [OF this k'(2,1), of evs2 "out @ evs1"] rest k'(3,4) eq show ?thesis by simp
    next
      case absent: False
      then have "fst w1 \<le> N"
        using early [OF S(1) ok c r(2,1) go] by (simp add: w2_def)
      then have m: "(length (fe_msgs F sec) - r) + (N - fst w2) < (length (fe_msgs F sec) - r) + (N - fst w)"
        by (simp add: w1_def w2_def)
      have "\<not> (r = length (fe_msgs F sec) \<and> block_count sec (snd w) = fe_count F sec)"
        using go stop_iff [OF S(1) ok(1) c r(2,1)] sync_le(2) [OF S w, of sec] counted_not_max [OF c]
        by (auto simp: w1_def)
      then have cur: "current_buffer_m k = Some (sec, r div unat (fe_cap F))"
        "r div unat (fe_cap F) < length (sec_buffers sec (snd w))" using p by (auto simp: at_pos_def)
      have "length (sec_buffers sec (snd w)) \<le> length (sec_buffers sec (snd w2))"
        using sync_le(1) [OF S w, of sec] sync_le(1) [OF S ok(1), of sec] by (simp add: w1_def w2_def)
      then have p2: "at_pos F sec r k w2" using p cur by (simp add: at_pos_def)
      have "at_block sec (entry_cap (snd w2)) r k (snd w2)"
        using p2 cur world_partial(2) [OF S(1) ok(2)] \<open>length (sec_buffers sec (snd w)) \<le> _\<close>
        by (simp add: at_pos_def at_block_def)
      then have "readBlock k (snd w2) = Inr (False, k, snd w2)"
        using readBlock_absent [of sec "snd w2" r k] absent world_partial(1,2) [OF S(1) ok(2)] S(1)
        by (simp add: schedule_def)
      then have "serve_loop sec parse env k w out = serve_loop sec parse env k w2 out"
        using unf go by simp
      with less.hyps [OF m ok(2) p2 dec, of out] show ?thesis by simp
    qed
  qed
qed

end

section \<open>The parsers of the code are block parsers\<close>

definition header_view :: "'h consumer \<Rightarrow> 'h map_decoder" where
  "header_view k = \<lparr>key_len = key_length_m k, key_done = key_read_done_m k, key_val = data_str_m k,
     cur_map = headers_m k, map_ended = end_stream_m k\<rparr>"

definition header_frame :: "'h consumer \<Rightarrow> bool \<times> bytes \<times> 'h option" where
  "header_frame k = (data_batch_complete_m k, data_c k, trailers_m k)"

definition trailer_view :: "'h consumer \<Rightarrow> 'h map_decoder" where
  "trailer_view k = \<lparr>key_len = key_length_m k, key_done = key_read_done_m k, key_val = data_str_m k,
     cur_map = trailers_m k, map_ended = end_stream_m k\<rparr>"

definition trailer_frame :: "'h consumer \<Rightarrow> bool \<times> bytes \<times> 'h option" where
  "trailer_frame k = (data_batch_complete_m k, data_c k, headers_m k)"

definition data_view :: "'h consumer \<Rightarrow> data_decoder" where
  "data_view k = \<lparr>batch_done = data_batch_complete_m k, pending = data_c k, data_ended = end_stream_m k\<rparr>"

definition data_frame :: "'h consumer \<Rightarrow> u32 \<times> bool \<times> bytes \<times> 'h option \<times> 'h option" where
  "data_frame k = (key_length_m k, key_read_done_m k, data_str_m k, headers_m k, trailers_m k)"

abbreviation header_step :: "'h envoy_api \<Rightarrow> 'h map_decoder \<Rightarrow> bytes \<Rightarrow>
    fault + ('h map_decoder \<times> 'h response_event list)" where
  "header_step api \<equiv> map_step api EncodeHeaders"

abbreviation trailer_step :: "'h envoy_api \<Rightarrow> 'h map_decoder \<Rightarrow> bytes \<Rightarrow>
    fault + ('h map_decoder \<times> 'h response_event list)" where
  "trailer_step api \<equiv> map_step api (\<lambda>t _. EncodeTrailers t)"

lemmas view_defs = header_view_def header_frame_def trailer_view_def trailer_frame_def
  data_view_def data_frame_def load_def position_def

lemma loaded_take: "loaded m k \<Longrightarrow> take (unat (message_size_c k)) (data_block_c k) = m"
  using loaded_size(2) [of m k] by (simp add: loaded_def)

text \<open>
  The parsers as functions of the loaded message: the automaton runs on the fields it owns
  (\<open>header_put\<close> and its kin write them back) and the other fields stay.
\<close>

definition header_put :: "'h map_decoder \<Rightarrow> 'h consumer \<Rightarrow> 'h consumer" where
  "header_put d k = k\<lparr>key_length_m := key_len d, key_read_done_m := key_done d, data_str_m := key_val d,
     headers_m := cur_map d, end_stream_m := map_ended d\<rparr>"

definition trailer_put :: "'h map_decoder \<Rightarrow> 'h consumer \<Rightarrow> 'h consumer" where
  "trailer_put d k = k\<lparr>key_length_m := key_len d, key_read_done_m := key_done d, data_str_m := key_val d,
     trailers_m := cur_map d, end_stream_m := map_ended d\<rparr>"

definition data_put :: "data_decoder \<Rightarrow> 'h consumer \<Rightarrow> 'h consumer" where
  "data_put d k = k\<lparr>data_batch_complete_m := batch_done d, data_c := pending d, end_stream_m := data_ended d\<rparr>"

lemma consumer_surjective:
  "k\<lparr>key_length_m := key_length_m k\<rparr> = k" "k\<lparr>key_read_done_m := key_read_done_m k\<rparr> = k"
  "k\<lparr>data_str_m := data_str_m k\<rparr> = k" "k\<lparr>headers_m := headers_m k\<rparr> = k"
  "k\<lparr>trailers_m := trailers_m k\<rparr> = k" "k\<lparr>end_stream_m := end_stream_m k\<rparr> = k"
  by simp_all

lemma parse_headers_eq:
  assumes "loaded m k"
  shows "parseAndEncodeHeaders api end_block k =
    bindR (header_step api (header_view k) m) (\<lambda>(d, evs). Inr (header_put d k, evs))"
proof (cases "m = []")
  case True
  then show ?thesis using loaded_size [OF assms]
    by (cases "headers_m k")
      (simp_all add: parseAndEncodeHeaders_def map_step_def map_emit_def map_add_def add_entry_def
        header_view_def header_put_def)
next
  case False
  have sz: "message_size_c k = of_nat (length m)" using assms by (simp add: loaded_def)
  show ?thesis
  proof (cases "key_length_m k = 0 \<and> m = end_block")
    case True
    then show ?thesis using loaded_size(1) [OF assms] loaded_end_block [OF assms] False
      by (cases "headers_m k")
        (simp_all add: parseAndEncodeHeaders_def map_step_def map_emit_def header_view_def header_put_def)
  next
    case no_end: False
    then have "\<not> (key_length_m k = 0 \<and> message_size_c k = of_nat BLOCK_SIZE_BYTES
        \<and> isDataBlockIndicatingEndStream end_block k)"
      using loaded_end_block [OF assms] by blast
    then show ?thesis using loaded_size(1,4) [OF assms] loaded_take [OF assms] False no_end
      by (cases "key_read_done_m k"; cases "headers_m k")
        (simp_all add: parseAndEncodeHeaders_def map_step_def map_add_def add_entry_def Let_def
          header_view_def header_put_def flip: sz, blast+)
  qed
qed

lemma parse_trailers_eq:
  assumes "loaded m k"
  shows "parseAndEncodeTrailers api end_block k =
    bindR (trailer_step api (trailer_view k) m) (\<lambda>(d, evs). Inr (trailer_put d k, evs))"
proof (cases "m = []")
  case True
  then show ?thesis using loaded_size [OF assms]
    by (cases "trailers_m k")
      (simp_all add: parseAndEncodeTrailers_def map_step_def map_emit_def map_add_def add_entry_def
        trailer_view_def trailer_put_def)
next
  case False
  have sz: "message_size_c k = of_nat (length m)" using assms by (simp add: loaded_def)
  show ?thesis
  proof (cases "key_length_m k = 0 \<and> m = end_block")
    case True
    then show ?thesis using loaded_size(1) [OF assms] loaded_end_block [OF assms] False
      by (cases "trailers_m k")
        (simp_all add: parseAndEncodeTrailers_def map_step_def map_emit_def trailer_view_def trailer_put_def)
  next
    case no_end: False
    then have "\<not> (key_length_m k = 0 \<and> message_size_c k = of_nat BLOCK_SIZE_BYTES
        \<and> isDataBlockIndicatingEndStream end_block k)"
      using loaded_end_block [OF assms] by blast
    then show ?thesis using loaded_size(1,4) [OF assms] loaded_take [OF assms] False no_end
      by (cases "key_read_done_m k"; cases "trailers_m k")
        (simp_all add: parseAndEncodeTrailers_def map_step_def map_add_def add_entry_def Let_def
          trailer_view_def trailer_put_def flip: sz, blast+)
  qed
qed

lemma parse_data_eq:
  assumes "loaded m k"
  shows "parseAndEncodeData api end_block k =
    bindR (data_step api (data_view k) m) (\<lambda>(d, evs). Inr (data_put d k, evs))"
proof (cases "m = []")
  case True
  then show ?thesis using loaded_size [OF assms]
    by (simp add: parseAndEncodeData_def data_step_def data_view_def data_put_def)
next
  case False
  show ?thesis
  proof (cases "data_batch_complete_m k \<and> m = end_block")
    case True
    then show ?thesis using loaded_size(1) [OF assms] loaded_end_block [OF assms] False
      by (simp add: parseAndEncodeData_def data_step_def data_view_def data_put_def)
  next
    case no_end: False
    then have "\<not> (data_batch_complete_m k \<and> message_size_c k = of_nat BLOCK_SIZE_BYTES
        \<and> isDataBlockIndicatingEndStream end_block k)"
      using loaded_end_block [OF assms] by blast
    then show ?thesis using loaded_size(1,4) [OF assms] loaded_take [OF assms] False no_end
      by (cases "data_batch_complete_m k")
        (simp_all add: parseAndEncodeData_def data_step_def Let_def data_view_def data_put_def)
  qed
qed

lemma put_views [simp]:
  "header_view (header_put d k) = d" "header_frame (header_put d k) = header_frame k"
  "trailer_view (trailer_put d k) = d" "trailer_frame (trailer_put d k) = trailer_frame k"
  "data_view (data_put e k) = e" "data_frame (data_put e k) = data_frame k"
  "position (header_put d k) = position k" "position (trailer_put d k) = position k"
  "position (data_put e k) = position k"
  by (simp_all add: header_put_def trailer_put_def data_put_def view_defs)

interpretation hp: block_parser "parseAndEncodeHeaders api end_block" "header_step api" header_view header_frame
  for api
  by unfold_locales (simp_all add: parse_headers_eq, simp_all add: view_defs)

interpretation tp: block_parser "parseAndEncodeTrailers api end_block" "trailer_step api" trailer_view trailer_frame
  for api
  by unfold_locales (simp_all add: parse_trailers_eq, simp_all add: view_defs)

interpretation dp: block_parser "parseAndEncodeData api end_block" "data_step api" data_view data_frame
  for api
  by unfold_locales (simp_all add: parse_data_eq, simp_all add: view_defs)

section \<open>The parsers and the automata\<close>

text \<open>
  The three parsing functions of the reader are exactly the block automata of theory
  \<open>Decoder\<close>: given a block \<open>m\<close> in the reader's buffer they make the same calls, end in the same
  state and fault in the same cases.
\<close>

lemma parsers_refine:
  assumes "loaded m k"
  shows "parseAndEncodeHeaders api end_block k
      = bindR (header_step api (header_view k) m) (\<lambda>(d, evs). Inr (header_put d k, evs))
    \<and> parseAndEncodeData api end_block k
      = bindR (data_step api (data_view k) m) (\<lambda>(d, evs). Inr (data_put d k, evs))
    \<and> parseAndEncodeTrailers api end_block k
      = bindR (trailer_step api (trailer_view k) m) (\<lambda>(d, evs). Inr (trailer_put d k, evs))"
  using parse_headers_eq [OF assms] parse_data_eq [OF assms] parse_trailers_eq [OF assms] by simp_all

lemma parsers_refine_example:
  "parseAndEncodeData list_api end_block (load ''ab'' (CacheEntryConsumer_fields :: (bytes \<times> bytes) list consumer))
   = Inr ((load ''ab'' CacheEntryConsumer_fields)\<lparr>data_c := ''ab'', data_batch_complete_m := True\<rparr>, [])"
proof -
  have "loaded ''ab'' (load ''ab'' (CacheEntryConsumer_fields :: (bytes \<times> bytes) list consumer))"
    by (rule loaded_load) (simp_all add: CacheEntryConsumer_fields_def BLOCK_SIZE_BYTES_def)
  from parsers_refine [OF this, of list_api] show ?thesis
    by (simp add: data_step_def data_view_def data_put_def load_def CacheEntryConsumer_fields_def
        end_block_def BLOCK_SIZE_BYTES_def)
qed

end
