(* ===== verification/Trailers.thy ===== *)
theory Trailers
  imports Streaming
begin

text \<open>
  The trailers loop under interference, which stops at the end-of-stream block instead of at a
  counter, and \<^verbatim>\<open>serveCachedResponse\<close> as a whole: the calls a reader makes on the decoder
  callbacks of its request, for an entry that the writer finishes at any time.
\<close>

section \<open>The trailers loop\<close>

definition at_trailer :: "final_entry \<Rightarrow> nat \<Rightarrow> 'h consumer \<Rightarrow> world \<Rightarrow> bool" where
  "at_trailer F r k w \<longleftrightarrow> r < length (fe_msgs F TrailersSec)
     \<and> unat (buffer_index_m k) = r div unat (fe_cap F)
     \<and> at_block TrailersSec (unat (fe_cap F)) r k (snd w)"

definition advance_trailer :: "'h consumer \<Rightarrow> 'h consumer" where
  "advance_trailer k = k\<lparr>block_index_m := block_index_m k + 1\<rparr>"

lemma busyWait_trailers_returns:
  assumes S: "schedule F N S" "follows S env" and w: "world_ok S w"
    and r: "r < length (fe_msgs F TrailersSec)" and b: "unat (buffer_index_m k) = r div unat (fe_cap F)"
  shows "\<exists>w'. busyWaitToGetNextTrailersBuffer env k w
      = Some (Inr (k\<lparr>current_buffer_m := Some (TrailersSec, r div unat (fe_cap F))\<rparr>, w'))
    \<and> world_ok S w' \<and> fst w < fst w' \<and> r div unat (fe_cap F) < length (sec_buffers TrailersSec (snd w'))"
  using w
proof (induction "N - fst w" arbitrary: w rule: less_induct)
  case less
  define w1 where "w1 = sync env w"
  define w2 where "w2 = sync env w1"
  have ok: "world_ok S w1" "world_ok S w2" using less.prems S(2) by (simp_all add: w1_def w2_def sync_ok)
  let ?bi = "r div unat (fe_cap F)"
  note unf = busyWaitToGetNextTrailersBuffer.simps [of env k w, unfolded Let_def, folded w1_def, folded w2_def]
  show ?case
  proof (cases "length (sec_buffers TrailersSec (snd w1)) \<le> ?bi")
    case False
    then have "\<not> length (sec_buffers TrailersSec (snd w2)) \<le> ?bi"
      using sync_le(1) [OF S ok(1), of TrailersSec] by (simp add: w2_def)
    then show ?thesis using unf False b ok(2)
      by (intro exI [of _ w2]) (simp add: w1_def w2_def)
  next
    case True
    have "fst w < N"
    proof (rule ccontr)
      assume "\<not> fst w < N"
      then have N: "N < fst w1" by (simp add: w1_def)
      have "r < length (sec_msgs TrailersSec (snd w1))"
        using world_complete(1) [OF S(1) ok(1) N] r by simp
      moreover have "entry_cap (snd w1) = unat (fe_cap F)" "0 < unat (fe_cap F)"
        using world_partial(2) [OF S(1) ok(1)] S(1) by (simp_all add: schedule_def)
      ultimately show False
        using True sec_msgs_buffer [OF world_partial(1) [OF S(1) ok(1)], of r TrailersSec] by simp
    qed
    then have "N - fst w1 < N - fst w" by (simp add: w1_def)
    from less.hyps [OF this ok(1)] unf True b show ?thesis by (fastforce simp: w1_def)
  qed
qed

lemma at_trailer_mono:
  assumes "at_trailer F r k w" and "length (sec_buffers TrailersSec (snd w)) \<le> length (sec_buffers TrailersSec (snd w'))"
  shows "at_trailer F r k w'"
  using assms by (auto simp: at_trailer_def at_block_def)

text \<open>Moving on to the next block of the trailers.\<close>

lemma serveTrailers_loop_move:
  assumes S: "schedule F N S" "follows S env" and okr: "world_ok S (fst w2, e')"
    and at: "at_trailer F r k (fst w2, e')" and pos: "position k1 = position (load m k)"
    and m: "length m \<le> BLOCK_SIZE_BYTES" and r: "Suc r < length (fe_msgs F TrailersSec)"
    and K: "length (fe_msgs F TrailersSec) < 4294967295"
  shows "\<exists>k' w'. (if block_index_m (advance_trailer k1) = fe_cap F
       then (case busyWaitToGetNextTrailersBuffer env (next_buffer (advance_trailer k1)) (fst w2, e') of
               None \<Rightarrow> None
             | Some r \<Rightarrow> (case r of Inl f \<Rightarrow> Some (Inl f)
                 | Inr (c4, w4) \<Rightarrow> serveTrailers_loop api end_block env c4 w4 out))
       else serveTrailers_loop api end_block env (advance_trailer k1) (fst w2, e') out)
      = serveTrailers_loop api end_block env k' w' out
    \<and> at_trailer F (Suc r) k' w' \<and> world_ok S w' \<and> fst w2 \<le> fst w'
    \<and> trailer_view k' = trailer_view k1 \<and> trailer_frame k' = trailer_frame k1"
proof -
  let ?c = "unat (fe_cap F)"
  have c: "0 < ?c" using S(1) by (simp add: schedule_def)
  have k: "unat (block_index_m k) = r mod ?c" "unat (buffer_index_m k) = r div ?c"
    "length (data_block_c k) = BLOCK_SIZE_BYTES" "r div ?c < length (sec_buffers TrailersSec e')"
    "current_buffer_m k = Some (TrailersSec, r div ?c)"
    using at by (simp_all add: at_trailer_def at_block_def)
  have k1: "block_index_m k1 = block_index_m k" "buffer_index_m k1 = buffer_index_m k"
    "current_buffer_m k1 = current_buffer_m k" "data_block_c k1 = memcpy_at 0 m (data_block_c k)"
    using pos by (simp_all add: position_def load_def)
  have "r mod ?c < ?c" using c by simp
  then have "r mod ?c < 4294967295" using unat_u32_le [of "fe_cap F"] by linarith
  then have bi: "unat (block_index_m (advance_trailer k1)) = Suc (r mod ?c)"
    using k by (simp add: advance_trailer_def k1 u32_simps)
  then have cond: "block_index_m (advance_trailer k1) = fe_cap F \<longleftrightarrow> Suc (r mod ?c) = ?c"
    by (simp add: word_unat_eq_iff)
  have blk: "length (data_block_c k1) = BLOCK_SIZE_BYTES" using k(3) m by (simp add: k1)
  show ?thesis
  proof (cases "Suc (r mod ?c) = ?c")
    case False
    note dm = div_mod_Suc(2) [OF c False]
    have "at_trailer F (Suc r) (advance_trailer k1) (fst w2, e')"
      using bi dm k blk r by (simp add: at_trailer_def at_block_def) (simp add: advance_trailer_def k1)
    then show ?thesis using cond False okr
      by (intro exI [of _ "advance_trailer k1"] exI [of _ "(fst w2, e')"])
        (simp add: advance_trailer_def view_defs)
  next
    case True
    note dm = div_mod_Suc(1) [OF c True]
    have bnd: "Suc (r div ?c) < 4294967296" using r K div_le_dividend [of r ?c] by linarith
    let ?k2 = "next_buffer (advance_trailer k1)"
    obtain w3 where bw: "busyWaitToGetNextTrailersBuffer env ?k2 (fst w2, e')
        = Some (Inr (?k2\<lparr>current_buffer_m := Some (TrailersSec, Suc r div ?c)\<rparr>, w3))"
      and w3: "world_ok S w3" "fst w2 < fst w3" "Suc r div ?c < length (sec_buffers TrailersSec (snd w3))"
    proof -
      have "unat (buffer_index_m ?k2) = Suc r div ?c"
        using k dm bnd by (simp add: next_buffer_def advance_trailer_def k1 u32_simps)
      from busyWait_trailers_returns [OF S okr r this] that show thesis by auto
    qed
    let ?k3 = "?k2\<lparr>current_buffer_m := Some (TrailersSec, Suc r div ?c)\<rparr>"
    have "unat (buffer_index_m ?k3) = Suc r div ?c"
      using k dm bnd
      by (simp add: next_buffer_def advance_trailer_def k1 u32_simps)
    then have "at_trailer F (Suc r) ?k3 w3"
      using dm blk r w3 by (simp add: at_trailer_def at_block_def) (simp add: next_buffer_def advance_trailer_def)
    then show ?thesis using cond True bw w3
      by (intro exI [of _ ?k3] exI [of _ w3])
        (simp add: next_buffer_def advance_trailer_def view_defs)
  qed
qed

text \<open>The loop returns after the end-of-stream block, with the calls of the automaton.\<close>

lemma serveTrailers_loop_decodes:
  assumes S: "schedule F N S" "follows S env" and K: "length (fe_msgs F TrailersSec) < 4294967295"
    and "world_ok S w" and "at_trailer F r k w"
    and "decode_until map_ended (trailer_step api) (trailer_view k) (drop r (fe_msgs F TrailersSec))
      = Some (Inr (d, evs))"
  shows "\<exists>k' w'. serveTrailers_loop api end_block env k w out = Some (Inr (k', w', out @ evs))
    \<and> world_ok S w' \<and> trailer_view k' = d \<and> trailer_frame k' = trailer_frame k
    \<and> length (data_block_c k') = BLOCK_SIZE_BYTES"
  using assms(4-6)
proof (induction "(length (fe_msgs F TrailersSec) - r) + (N - fst w)" arbitrary: r k w out evs rule: less_induct)
  case less
  note w = less.prems(1) and at = less.prems(2) and dec = less.prems(3)
  let ?M = "fe_msgs F TrailersSec" and ?c = "unat (fe_cap F)"
  define w2 where "w2 = sync env w"
  have ok: "world_ok S w2" using w S(2) by (simp add: w2_def sync_ok)
  have at2: "at_trailer F r k w2"
    using at sync_le(1) [OF S w, of TrailersSec] by (auto intro: at_trailer_mono simp: w2_def)
  have lt: "r < length ?M" using at by (simp add: at_trailer_def)
  have cap: "entry_cap (snd w2) = ?c" "0 < ?c" and ewf: "entry_wf (snd w2)"
    using world_partial [OF S(1) ok] S(1) by (simp_all add: schedule_def)
  have blk: "at_block TrailersSec (entry_cap (snd w2)) r k (snd w2)"
    using at2 cap by (simp add: at_trailer_def)
  note unf = serveTrailers_loop.simps [of api end_block env k w out, unfolded Let_def, folded w2_def]
  show ?case
  proof (cases "r < length (sec_msgs TrailersSec (snd w2))")
    case absent: False
    then have "fst w2 \<le> N" using lt world_complete(1) [OF S(1) ok, of TrailersSec] by fastforce
    then have "(length ?M - r) + (N - fst w2) < (length ?M - r) + (N - fst w)" by (simp add: w2_def)
    moreover have "readBlock k (snd w2) = Inr (False, k, snd w2)"
      using readBlock_absent [OF blk ewf] cap absent by simp
    then have "serveTrailers_loop api end_block env k w out = serveTrailers_loop api end_block env k w2 out"
      using unf by simp
    ultimately show ?thesis using less.hyps [OF _ ok at2 dec] by simp
  next
    case there: True
    let ?m = "?M ! r"
    have m: "sec_msgs TrailersSec (snd w2) ! r = ?m"
      using world_partial(3) [OF S(1) ok, of TrailersSec] there by (auto simp: prefix_def nth_append)
    have msz: "length ?m \<le> BLOCK_SIZE_BYTES" using final_msg_size [OF S(1) nth_mem [OF lt]] .
    obtain e' where rd: "readBlock k (snd w2) = Inr (True, load ?m k, e')" and e': "same_content (snd w2) e'"
      using readBlock_ok [OF blk ewf _ there] cap m by auto
    have okr: "world_ok S (fst w2, e')" using ok e' by (rule world_ok_read)
    have cape: "single_buffer_blocks_capacity_m e' = fe_cap F" using world_partial(2) [OF S(1) okr] by simp
    have dr: "drop r ?M = ?m # drop (Suc r) ?M" using lt by (simp add: Cons_nth_drop_Suc)
    obtain d1 evs1 where st: "trailer_step api (trailer_view k) ?m = Inr (d1, evs1)"
      using dec unfolding dr by (auto split: sum.splits)
    obtain k1 where k1: "parseAndEncodeTrailers api end_block (load ?m k) = Inr (k1, evs1)"
      "trailer_view k1 = d1" "trailer_frame k1 = trailer_frame k" "position k1 = position (load ?m k)"
      using tp.parse_load [OF _ msz st] blk by (auto simp: at_block_def)
    have ended: "end_stream_m k1 = map_ended d1" using k1(2) by (auto simp: trailer_view_def)
    show ?thesis
    proof (cases "map_ended d1")
      case True
      then have "d = d1" "evs = evs1" using dec st unfolding dr by simp_all
      moreover have "length (data_block_c k1) = BLOCK_SIZE_BYTES"
        using k1(4) blk msz by (simp add: position_def load_def at_block_def)
      ultimately show ?thesis using unf rd k1 True ended okr by simp
    next
      case False
      then obtain evs2 where rest: "decode_until map_ended (trailer_step api) d1 (drop (Suc r) ?M) = Some (Inr (d, evs2))"
        and evs: "evs = evs1 @ evs2"
        using dec st unfolding dr by (auto simp: bindRun_Inr_iff)
      then have r2: "Suc r < length ?M" by (cases "Suc r < length ?M") simp_all
      have "length (sec_buffers TrailersSec e') = length (sec_buffers TrailersSec (snd w2))"
        using e' unfolding same_content_def by blast
      then have at': "at_trailer F r k (fst w2, e')" using at_trailer_mono [OF at2] by simp
      have red: "serveTrailers_loop api end_block env k w out =
        (if block_index_m (advance_trailer k1) = fe_cap F
         then (case busyWaitToGetNextTrailersBuffer env (next_buffer (advance_trailer k1)) (fst w2, e') of
               None \<Rightarrow> None
             | Some r \<Rightarrow> (case r of Inl f \<Rightarrow> Some (Inl f)
                 | Inr (c4, w4) \<Rightarrow> serveTrailers_loop api end_block env c4 w4 (out @ evs1)))
         else serveTrailers_loop api end_block env (advance_trailer k1) (fst w2, e') (out @ evs1))"
        using unf rd k1(1) False ended by (simp add: cape advance_trailer_def next_buffer_def)
      obtain k' w' where eq: "serveTrailers_loop api end_block env k w out
          = serveTrailers_loop api end_block env k' w' (out @ evs1)"
        and k': "at_trailer F (Suc r) k' w'" "world_ok S w'" "fst w2 \<le> fst w'" "trailer_view k' = d1"
          "trailer_frame k' = trailer_frame k"
        using serveTrailers_loop_move [OF S okr at' k1(4) msz r2 K, of api "out @ evs1"] k1(2,3)
        unfolding red by metis
      have "(length ?M - Suc r) + (N - fst w') < (length ?M - r) + (N - fst w)"
        using lt k'(3) by (simp add: w2_def)
      from less.hyps [OF this k'(2,1), of evs2 "out @ evs1"] rest k' eq evs show ?thesis by simp
    qed
  qed
qed

end
