(* ===== verification/Serving.thy ===== *)
theory Serving
  imports Trailers
begin

text \<open>
  \<^verbatim>\<open>serveCachedResponse\<close> as a whole. A response is what the filter is told about it: headers, the
  pieces of the body, perhaps trailers. \<open>resp_msgs\<close> is what the entry of the response holds when
  it is finished, \<open>resp_events\<close> what a reader passes on; the main lemma \<open>serve_streams\<close> says that
  a reader that starts at any time, while the writer is at work, returns with these calls.
\<close>

section \<open>Responses\<close>

record 'h response =
  resp_headers :: 'h
  resp_body :: "bytes list"
  resp_trailers :: "'h option"

text \<open>The last piece of the body carries \<^verbatim>\<open>end_stream\<close> unless trailers follow.\<close>

fun enc_body :: "bytes list \<Rightarrow> bool \<Rightarrow> bytes list" where
  "enc_body [] fin = []"
| "enc_body (d # ds) fin = enc_data d (fin \<and> ds = []) @ enc_body ds fin"

fun body_events :: "bytes list \<Rightarrow> bool \<Rightarrow> 'h response_event list" where
  "body_events [] fin = []"
| "body_events (d # ds) fin = EncodeData d (fin \<and> ds = []) # body_events ds fin"

definition headers_only :: "'h response \<Rightarrow> bool" where
  "headers_only resp \<longleftrightarrow> resp_body resp = [] \<and> resp_trailers resp = None"

fun resp_msgs :: "'h envoy_api \<Rightarrow> 'h response \<Rightarrow> sect \<Rightarrow> bytes list" where
  "resp_msgs api resp HeadersSec = enc_map (hm_entries api (resp_headers resp)) (headers_only resp)"
| "resp_msgs api resp DataSec = enc_body (resp_body resp) (resp_trailers resp = None)"
| "resp_msgs api resp TrailersSec =
     (case resp_trailers resp of
        None \<Rightarrow> []
      | Some t \<Rightarrow> enc_map (hm_entries api t) False @ [end_block])"

fun resp_count :: "'h envoy_api \<Rightarrow> 'h response \<Rightarrow> sect \<Rightarrow> u32" where
  "resp_count api resp HeadersSec = of_nat (length (resp_msgs api resp HeadersSec))"
| "resp_count api resp DataSec =
     (if headers_only resp then UINT32_MAX else of_nat (length (resp_msgs api resp DataSec)))"
| "resp_count api resp TrailersSec = UINT32_MAX"

definition resp_final :: "'h envoy_api \<Rightarrow> u32 \<Rightarrow> 'h response \<Rightarrow> final_entry" where
  "resp_final api cap resp =
     \<lparr>fe_cap = cap, fe_msgs = resp_msgs api resp, fe_count = resp_count api resp\<rparr>"

text \<open>
  What the filter above and the client got to see when the response first came by: the calls of the
  response. A replay makes the same calls with copies of the header maps, rebuilt entry by entry; and if
  there are trailers, one more call that the response did not have, \<^verbatim>\<open>encodeTrailers\<close> with an empty map
  (from the end-of-stream block behind the delimiter of the trailers, \<^verbatim>\<open>CacheEntryConsumer\<close> passes on
  whatever map it has just created).
\<close>

definition response_calls :: "'h response \<Rightarrow> 'h response_event list" where
  "response_calls resp =
     EncodeHeaders (resp_headers resp) (headers_only resp)
     # body_events (resp_body resp) (resp_trailers resp = None)
     @ (case resp_trailers resp of None \<Rightarrow> [] | Some t \<Rightarrow> [EncodeTrailers t])"

definition second_trailers :: "'h envoy_api \<Rightarrow> 'h response \<Rightarrow> 'h response_event list" where
  "second_trailers api resp = (if resp_trailers resp = None then [] else [EncodeTrailers (hm_create api)])"

definition resp_events :: "'h envoy_api \<Rightarrow> 'h response \<Rightarrow> 'h response_event list" where
  "resp_events api resp =
     map (map_response_event (\<lambda>h. hm_rebuild api (hm_entries api h))) (response_calls resp)
     @ second_trailers api resp"

lemma map_body_events [simp]: "map (map_response_event f) (body_events ds fin) = body_events ds fin"
  by (induction ds fin rule: body_events.induct) simp_all

definition trailer_events :: "'h envoy_api \<Rightarrow> 'h response \<Rightarrow> 'h response_event list" where
  "trailer_events api resp =
     (case resp_trailers resp of
        None \<Rightarrow> []
      | Some t \<Rightarrow> [EncodeTrailers (hm_rebuild api (hm_entries api t)), EncodeTrailers (hm_create api)])"

lemma resp_events_eq:
  "resp_events api resp =
     EncodeHeaders (hm_rebuild api (hm_entries api (resp_headers resp))) (headers_only resp)
     # body_events (resp_body resp) (resp_trailers resp = None) @ trailer_events api resp"
  by (simp add: resp_events_def response_calls_def second_trailers_def trailer_events_def split: option.splits)

text \<open>
  The laws of a header map under which a copy is as good as the original: adding the entries of a map to
  a new one gives a map with the same entries, and a new map has none.
\<close>

definition copies_entries :: "'h envoy_api \<Rightarrow> bool" where
  "copies_entries api \<longleftrightarrow> (\<forall>h. hm_entries api (hm_rebuild api (hm_entries api h)) = hm_entries api h)
     \<and> hm_entries api (hm_create api) = []"

text \<open>Calls up to the identity of the maps: every map is replaced by the list of its entries.\<close>

definition entries_of_calls :: "'h envoy_api \<Rightarrow> 'h response_event list \<Rightarrow> (bytes \<times> bytes) list response_event list" where
  "entries_of_calls api evs = map (map_response_event (hm_entries api)) evs"

lemma resp_events_entries:
  assumes "copies_entries api"
  shows "entries_of_calls api (resp_events api resp) = entries_of_calls api (response_calls resp)
    @ (if resp_trailers resp = None then [] else [EncodeTrailers []])"
  using assms
  by (auto simp: entries_of_calls_def resp_events_def second_trailers_def copies_entries_def
      response_event.map_comp o_def)

lemma list_api_copies: "copies_entries list_api"
  by (simp add: copies_entries_def list_api_rebuild)

text \<open>
  The responses the cache handles: entries the parser accepts, pieces of at most \<open>2\<^sup>3\<^sup>2\<close> bytes,
  fewer than \<open>2\<^sup>3\<^sup>2 - 1\<close> blocks in a section, and a body before trailers.
\<close>

definition resp_ok :: "'h envoy_api \<Rightarrow> 'h response \<Rightarrow> bool" where
  "resp_ok api resp \<longleftrightarrow> entries_ok (hm_entries api (resp_headers resp))
     \<and> (\<forall>d \<in> set (resp_body resp). length d \<le> enc_limit)
     \<and> (case resp_trailers resp of None \<Rightarrow> True
        | Some t \<Rightarrow> entries_ok (hm_entries api t) \<and> resp_body resp \<noteq> [])
     \<and> (\<forall>s. length (resp_msgs api resp s) < 4294967295)"

text \<open>Envoy moves the bytes out of the buffer that \<^verbatim>\<open>encodeData\<close> is given.\<close>

definition drains :: "'h envoy_api \<Rightarrow> bool" where
  "drains api \<longleftrightarrow> (\<forall>b. buf_rest api b = [])"

section \<open>The body\<close>

lemma decode_body_pieces:
  assumes "drains api" and "\<forall>d \<in> set ds. length d \<le> enc_limit"
    and "\<not> batch_done s" and "pending s = []"
  shows "decode (data_step api) s (enc_body ds fin)
    = Inr (s\<lparr>data_ended := data_ended s \<or> (fin \<and> ds \<noteq> [])\<rparr>, body_events ds fin)"
  using assms(2-4)
proof (induction ds arbitrary: s)
  case Nil
  then show ?case by simp
next
  case (Cons d ds)
  let ?s = "s\<lparr>data_ended := data_ended s \<or> (fin \<and> ds = [])\<rparr>"
  have "decode (data_step api) s (enc_data d (fin \<and> ds = [])) = Inr (?s, [EncodeData d (fin \<and> ds = [])])"
    using decode_data [of s d api "fin \<and> ds = []"] Cons.prems assms(1)
    by (cases s) (simp add: drains_def)
  moreover have "decode (data_step api) ?s (enc_body ds fin)
      = Inr (?s\<lparr>data_ended := data_ended ?s \<or> (fin \<and> ds \<noteq> [])\<rparr>, body_events ds fin)"
    by (rule Cons.IH) (use Cons.prems in simp_all)
  moreover have "?s\<lparr>data_ended := data_ended ?s \<or> (fin \<and> ds \<noteq> [])\<rparr> = s\<lparr>data_ended := data_ended s \<or> fin\<rparr>"
    by (cases fin; cases "ds = []") simp_all
  ultimately show ?case by (simp add: decode_append)
qed

section \<open>The three sections\<close>

text \<open>A consumer between two responses.\<close>

definition consumer_idle :: "'h consumer \<Rightarrow> bool" where
  "consumer_idle k \<longleftrightarrow> length (data_block_c k) = BLOCK_SIZE_BYTES \<and> key_length_m k = 0
     \<and> \<not> key_read_done_m k \<and> data_str_m k = [] \<and> \<not> data_batch_complete_m k \<and> data_c k = []"

lemma consumer_idle_new: "consumer_idle CacheEntryConsumer_fields"
  by (simp add: consumer_idle_def CacheEntryConsumer_fields_def)

lemma start_counted:
  assumes S: "schedule F N S" "follows S env" and w: "world_ok S w" and c: "counted F sec"
    and k: "unat (read_block_count_m k) = 0" "unat (block_index_m k) = 0" "unat (buffer_index_m k) = 0"
      "length (data_block_c k) = BLOCK_SIZE_BYTES"
  shows "\<exists>k' w' q. busyWaitToGetNextBuffer sec env k w = Some (Inr (k', w')) \<and> world_ok S w'
    \<and> at_pos F sec 0 k' w' \<and> k' = k\<lparr>current_buffer_m := q\<rparr>"
proof -
  obtain k' w' where "busyWaitToGetNextBuffer sec env k w = Some (Inr (k', w'))" "world_ok S w'"
    and k': "k' = k \<and> 0 = length (fe_msgs F sec) \<and> block_count sec (snd w') = fe_count F sec
       \<or> k' = k\<lparr>current_buffer_m := Some (sec, 0)\<rparr> \<and> 0 < length (sec_buffers sec (snd w'))"
    using busyWait_returns [OF S w _ _ _ k(1), of sec] c k(3) by (fastforce simp: counted_def)
  moreover from k' have "at_pos F sec 0 k' w'" using k by (auto simp: at_pos_def)
  moreover from k' have "\<exists>q. k' = k\<lparr>current_buffer_m := q\<rparr>"
  proof
    assume "k' = k \<and> 0 = length (fe_msgs F sec) \<and> block_count sec (snd w') = fe_count F sec"
    then have "k' = k\<lparr>current_buffer_m := current_buffer_m k\<rparr>" by simp
    then show ?thesis ..
  qed blast
  ultimately show ?thesis by blast
qed

lemma serveHeaders_decodes:
  assumes S: "schedule F N S" "follows S env" and w: "world_ok S w" and c: "counted F HeadersSec"
    and k: "consumer_idle k"
    and kvs: "fe_msgs F HeadersSec = enc_map kvs fin" "entries_ok kvs"
  shows "\<exists>k' w'. serveHeaders api end_block env k w
      = Some (Inr (k', w', [EncodeHeaders (hm_rebuild api kvs) fin]))
    \<and> world_ok S w' \<and> consumer_idle k' \<and> end_stream_m k' = fin"
proof -
  let ?k = "k\<lparr>read_block_count_m := 0, block_index_m := 0, buffer_index_m := 0,
              end_stream_m := False, headers_m := Some (hm_create api)\<rparr>"
  obtain k1 w1 q where bw: "busyWaitToGetNextBuffer HeadersSec env ?k w = Some (Inr (k1, w1))"
    and w1: "world_ok S w1" and p: "at_pos F HeadersSec 0 k1 w1" and k1: "k1 = ?k\<lparr>current_buffer_m := q\<rparr>"
    using start_counted [OF S w c, of ?k] k by (auto simp: consumer_idle_def)
  have v: "header_view k1 = \<lparr>key_len = 0, key_done = False, key_val = [], cur_map = Some (hm_create api),
      map_ended = False\<rparr>" using k by (simp add: k1 header_view_def consumer_idle_def)
  have "decode (header_step api) (header_view k1) (drop 0 (fe_msgs F HeadersSec))
    = Inr (\<lparr>key_len = 0, key_done = False, key_val = [],
             cur_map = (if fin then None else Some (hm_create api)), map_ended = fin\<rparr>,
           [EncodeHeaders (hm_rebuild api kvs) fin])"
    using decode_map [of "header_view k1" "hm_create api" kvs api EncodeHeaders fin] kvs
    by (simp add: v map_idle_def hm_rebuild_def)
  from hp.serve_loop_decodes [OF S c w1 p this, of "[]"] obtain k2 w2 where
    l: "serve_loop HeadersSec (parseAndEncodeHeaders api end_block) env k1 w1 []
      = Some (Inr (k2, w2, [EncodeHeaders (hm_rebuild api kvs) fin]))" "world_ok S w2"
    and k2: "header_view k2 = \<lparr>key_len = 0, key_done = False, key_val = [],
             cur_map = (if fin then None else Some (hm_create api)), map_ended = fin\<rparr>"
      "header_frame k2 = header_frame k1" "length (data_block_c k2) = BLOCK_SIZE_BYTES"
    by auto
  have "consumer_idle k2" "end_stream_m k2 = fin"
    using k k2 by (auto simp: consumer_idle_def header_view_def header_frame_def k1)
  then show ?thesis using bw l
    by (simp add: serveHeaders_def busyWaitToGetNextHeadersBuffer_def Let_def)
qed

lemma serveData_decodes:
  assumes S: "schedule F N S" "follows S env" and w: "world_ok S w" and c: "counted F DataSec"
    and k: "consumer_idle k" "\<not> end_stream_m k" and dr: "drains api"
    and ds: "fe_msgs F DataSec = enc_body ds fin" "\<forall>d \<in> set ds. length d \<le> enc_limit"
  shows "\<exists>k' w'. serveData api end_block env k w = Some (Inr (k', w', body_events ds fin))
    \<and> world_ok S w' \<and> consumer_idle k' \<and> end_stream_m k' = (fin \<and> ds \<noteq> [])"
proof -
  let ?k = "k\<lparr>read_block_count_m := 0, block_index_m := 0, buffer_index_m := 0\<rparr>"
  obtain k1 w1 q where bw: "busyWaitToGetNextBuffer DataSec env ?k w = Some (Inr (k1, w1))"
    and w1: "world_ok S w1" and p: "at_pos F DataSec 0 k1 w1" and k1: "k1 = ?k\<lparr>current_buffer_m := q\<rparr>"
    using start_counted [OF S w c, of ?k] k by (auto simp: consumer_idle_def)
  have v: "data_view k1 = \<lparr>batch_done = False, pending = [], data_ended = False\<rparr>"
    using k by (simp add: k1 data_view_def consumer_idle_def)
  have "decode (data_step api) (data_view k1) (drop 0 (fe_msgs F DataSec))
    = Inr (\<lparr>batch_done = False, pending = [], data_ended = (fin \<and> ds \<noteq> [])\<rparr>, body_events ds fin)"
    using decode_body_pieces [OF dr ds(2), of "data_view k1" fin] ds(1) by (simp add: v)
  from dp.serve_loop_decodes [OF S c w1 p this, of "[]"] obtain k2 w2 where
    l: "serve_loop DataSec (parseAndEncodeData api end_block) env k1 w1 []
      = Some (Inr (k2, w2, body_events ds fin))" "world_ok S w2"
    and k2: "data_view k2 = \<lparr>batch_done = False, pending = [], data_ended = (fin \<and> ds \<noteq> [])\<rparr>"
      "data_frame k2 = data_frame k1" "length (data_block_c k2) = BLOCK_SIZE_BYTES"
    by auto
  have "consumer_idle k2" "end_stream_m k2 = (fin \<and> ds \<noteq> [])"
    using k k2 by (auto simp: consumer_idle_def data_view_def data_frame_def k1)
  then show ?thesis using bw l
    by (simp add: serveData_def busyWaitToGetNextDataBuffer_def Let_def)
qed

lemma serveTrailers_decodes:
  assumes S: "schedule F N S" "follows S env" and w: "world_ok S w"
    and K: "length (fe_msgs F TrailersSec) < 4294967295"
    and k: "consumer_idle k" "\<not> end_stream_m k"
    and kvs: "fe_msgs F TrailersSec = enc_map kvs False @ [end_block]" "entries_ok kvs"
  shows "\<exists>k' w'. serveTrailers api end_block env k w
      = Some (Inr (k', w', [EncodeTrailers (hm_rebuild api kvs), EncodeTrailers (hm_create api)]))
    \<and> world_ok S w' \<and> consumer_idle k' \<and> end_stream_m k'"
proof -
  let ?k = "k\<lparr>block_index_m := 0, buffer_index_m := 0, trailers_m := Some (hm_create api)\<rparr>"
  have r: "0 < length (fe_msgs F TrailersSec)" using kvs(1) by simp
  let ?k1 = "?k\<lparr>current_buffer_m := Some (TrailersSec, 0)\<rparr>"
  obtain w1 where bw: "busyWaitToGetNextTrailersBuffer env ?k w = Some (Inr (?k1, w1))"
    and w1: "world_ok S w1" "0 < length (sec_buffers TrailersSec (snd w1))"
    using busyWait_trailers_returns [OF S w r, of ?k] by auto
  have at: "at_trailer F 0 ?k1 w1" using r w1(2) k(1) by (simp add: at_trailer_def at_block_def consumer_idle_def)
  have v: "trailer_view ?k1 = \<lparr>key_len = 0, key_done = False, key_val = [], cur_map = Some (hm_create api),
      map_ended = False\<rparr>" using k by (simp add: trailer_view_def consumer_idle_def)
  have "decode_until map_ended (trailer_step api) (trailer_view ?k1) (drop 0 (fe_msgs F TrailersSec))
    = Some (Inr (\<lparr>key_len = 0, key_done = False, key_val = [], cur_map = None, map_ended = True\<rparr>,
           [EncodeTrailers (hm_rebuild api kvs), EncodeTrailers (hm_create api)]))"
    using decode_trailers [of "trailer_view ?k1" "hm_create api" kvs api "\<lambda>t _. EncodeTrailers t"] kvs
    by (simp add: v map_idle_def hm_rebuild_def)
  from serveTrailers_loop_decodes [OF S K w1(1) at this, of "[]"] obtain k2 w2 where
    l: "serveTrailers_loop api end_block env ?k1 w1 []
      = Some (Inr (k2, w2, [EncodeTrailers (hm_rebuild api kvs), EncodeTrailers (hm_create api)]))"
      "world_ok S w2"
    and k2: "trailer_view k2 = \<lparr>key_len = 0, key_done = False, key_val = [], cur_map = None, map_ended = True\<rparr>"
      "trailer_frame k2 = trailer_frame ?k1" "length (data_block_c k2) = BLOCK_SIZE_BYTES"
    by auto
  have "consumer_idle k2" "end_stream_m k2"
    using k k2 by (simp_all add: trailer_view_def trailer_frame_def consumer_idle_def)
  then show ?thesis using bw l by (simp add: serveTrailers_def Let_def)
qed

section \<open>The whole response\<close>

lemma resp_counted:
  assumes "resp_ok api resp"
  shows "counted (resp_final api cap resp) HeadersSec"
    "\<not> headers_only resp \<Longrightarrow> counted (resp_final api cap resp) DataSec"
  using assms by (auto simp: counted_def resp_final_def resp_ok_def simp del: resp_msgs.simps)

lemma serve_streams:
  assumes S: "schedule (resp_final api cap resp) N S" "follows S env"
    and w: "world_ok S w" and k: "consumer_idle k" and ok: "resp_ok api resp" and dr: "drains api"
  shows "\<exists>k' w'. serveCachedResponse api end_block env a cb k w = Some (Inr (k', w', resp_events api resp))
    \<and> world_ok S w' \<and> consumer_idle k'"
proof -
  let ?F = "resp_final api cap resp"
  let ?h = "hm_entries api (resp_headers resp)"
  let ?k = "k\<lparr>cache_entry_ptr_c := Some a, decoder_callbacks_c := Some cb\<rparr>"
  have idle: "consumer_idle ?k" using k by (simp add: consumer_idle_def)
  have h: "fe_msgs ?F HeadersSec = enc_map ?h (headers_only resp)" "entries_ok ?h"
    using ok by (simp_all add: resp_final_def resp_ok_def)
  obtain k1 w1 where 1: "serveHeaders api end_block env ?k w
      = Some (Inr (k1, w1, [EncodeHeaders (hm_rebuild api ?h) (headers_only resp)]))"
    "world_ok S w1" "consumer_idle k1" "end_stream_m k1 = headers_only resp"
    using serveHeaders_decodes [OF S w resp_counted(1) [OF ok] idle h] by blast
  show ?thesis
  proof (cases "headers_only resp")
    case True
    then have "resp_events api resp = [EncodeHeaders (hm_rebuild api ?h) True]"
      by (simp add: resp_events_eq trailer_events_def headers_only_def)
    with True 1 show ?thesis by (simp add: serveCachedResponse_def Let_def)
  next
    case False
    let ?fin = "resp_trailers resp = None"
    have d: "fe_msgs ?F DataSec = enc_body (resp_body resp) ?fin" "\<forall>d \<in> set (resp_body resp). length d \<le> enc_limit"
      using ok by (simp_all add: resp_final_def resp_ok_def)
    have ne: "resp_body resp \<noteq> []" using ok False by (auto simp: resp_ok_def headers_only_def split: option.splits)
    have open1: "\<not> end_stream_m k1" using 1(4) False by simp
    obtain k2 w2 where 2: "serveData api end_block env k1 w1 = Some (Inr (k2, w2, body_events (resp_body resp) ?fin))"
      "world_ok S w2" "consumer_idle k2" "end_stream_m k2 = ?fin"
      using serveData_decodes [OF S 1(2) resp_counted(2) [OF ok False] 1(3) open1 dr d] ne by auto
    show ?thesis
    proof (cases "resp_trailers resp")
      case None
      with 1 2 False show ?thesis
        by (simp add: serveCachedResponse_def Let_def resp_events_eq trailer_events_def)
    next
      case (Some t)
      have t: "fe_msgs ?F TrailersSec = enc_map (hm_entries api t) False @ [end_block]" "entries_ok (hm_entries api t)"
        using ok Some by (simp_all add: resp_final_def resp_ok_def)
      have "length (resp_msgs api resp TrailersSec) < 4294967295" using ok unfolding resp_ok_def by blast
      then have K: "length (fe_msgs ?F TrailersSec) < 4294967295" by (simp add: resp_final_def)
      have open2: "\<not> end_stream_m k2" using 2(4) Some by simp
      obtain k3 w3 where 3: "serveTrailers api end_block env k2 w2 = Some (Inr (k3, w3,
          [EncodeTrailers (hm_rebuild api (hm_entries api t)), EncodeTrailers (hm_create api)]))"
        "world_ok S w3" "consumer_idle k3"
        using serveTrailers_decodes [OF S 2(2) K 2(3) open2 t] by blast
      with 1 2 False Some show ?thesis
        by (simp add: serveCachedResponse_def Let_def resp_events_eq trailer_events_def)
    qed
  qed
qed

text \<open>The special case of a finished entry that nobody else touches.\<close>

definition no_interference :: interference where
  "no_interference n e = e"

lemma schedule_const:
  assumes "0 < unat (fe_cap F)" and "partial_of F e" and "complete_of F e"
  shows "schedule F 0 (\<lambda>_. e)"
  using assms by (simp add: schedule_def entry_le_def)

lemma follows_const: "follows (\<lambda>_. e) no_interference"
  by (simp add: follows_def no_interference_def)

lemma serve_finished:
  assumes "resp_ok api resp" and "drains api" and "consumer_idle k" and "0 < unat cap"
    and "partial_of (resp_final api cap resp) e" and "complete_of (resp_final api cap resp) e"
  shows "\<exists>k' n' e'. serveCachedResponse api end_block no_interference a cb k (n, e)
      = Some (Inr (k', (n', e'), resp_events api resp))
    \<and> consumer_idle k' \<and> same_content e e'"
proof -
  let ?F = "resp_final api cap resp"
  have cap: "fe_cap ?F = cap" by (simp add: resp_final_def)
  have S: "schedule ?F 0 (\<lambda>_. e)" by (rule schedule_const) (use assms cap in simp_all)
  have "world_ok (\<lambda>_. e) (n, e)" using assms(5) by (simp add: world_ok_def same_content_refl partial_of_def)
  from serve_streams [OF S follows_const this assms(3,1,2), of a cb]
  show ?thesis by (auto simp: world_ok_def)
qed

end

