(* ===== verification/Storing.thy ===== *)
theory Storing
  imports Serving
begin

text \<open>
  What the producer as a whole does to an entry. The calls the filter makes on it are the
  constructors of \<open>write_op\<close>; the abstract state \<open>wspec\<close> forgets buffers, versions and the block
  under construction, and every operation refines its specification \<open>spec_op\<close> on it. Run on the
  calls of a whole response, the specification ends in \<open>resp_final\<close>, and every intermediate
  state is a partial entry in the sense of theory \<open>Streaming\<close>: that joins the writer and the
  reader.
\<close>

section \<open>The calls of a response\<close>

datatype 'h write_op =
    OpHeaders 'h bool
  | OpHeadersDone
  | OpData bytes bool
  | OpDataDone
  | OpTrailers 'h
  | OpComplete

fun run_write_op :: "'h envoy_api \<Rightarrow> 'h write_op \<Rightarrow> producer \<times> cache_entry \<Rightarrow> (producer \<times> cache_entry) run" where
  "run_write_op api (OpHeaders h fin) (p, e) = writeHeaders api h fin p e"
| "run_write_op api OpHeadersDone (p, e) = Some (Inr (headersWriteComplete p e))"
| "run_write_op api (OpData d fin) (p, e) = writeData d fin p e"
| "run_write_op api OpDataDone (p, e) = Some (Inr (dataWriteComplete p e))"
| "run_write_op api (OpTrailers t) (p, e) = writeTrailers api t p e"
| "run_write_op api OpComplete (p, e) = Some (writeComplete p e)"

fun run_write_ops :: "'h envoy_api \<Rightarrow> 'h write_op list \<Rightarrow> producer \<times> cache_entry \<Rightarrow> (producer \<times> cache_entry) run" where
  "run_write_ops api [] s = Some (Inr s)"
| "run_write_ops api (op # ops) s = bindRun (run_write_op api op s) (run_write_ops api ops)"

fun body_ops :: "bytes list \<Rightarrow> bool \<Rightarrow> 'h write_op list" where
  "body_ops [] fin = []"
| "body_ops (d # ds) fin = OpData d (fin \<and> ds = []) # body_ops ds fin"

definition response_ops :: "'h response \<Rightarrow> 'h write_op list" where
  "response_ops resp =
     OpHeaders (resp_headers resp) (headers_only resp)
     # (if resp_body resp = [] then [] else OpHeadersDone # body_ops (resp_body resp) (resp_trailers resp = None))
     @ (case resp_trailers resp of None \<Rightarrow> [] | Some t \<Rightarrow> [OpDataDone, OpTrailers t])
     @ [OpComplete]"

text \<open>A new producer and the entry it makes.\<close>

definition start_write :: "u32 \<Rightarrow> entry_id \<Rightarrow> producer \<times> cache_entry" where
  "start_write cap a = initCacheEntry cap a new_CacheEntryProducer"

section \<open>The specification of the producer\<close>

record wspec =
  w_msgs :: "sect \<Rightarrow> bytes list"
  w_count :: "sect \<Rightarrow> u32"
  w_cur :: u32
  w_hdone :: bool
  w_ddone :: bool
  w_buf :: "sect option"

definition wabs :: "producer \<times> cache_entry \<Rightarrow> wspec" where
  "wabs s = \<lparr>w_msgs = (\<lambda>x. sec_msgs x (snd s)), w_count = (\<lambda>x. block_count x (snd s)),
     w_cur = current_block_count_m (fst s), w_hdone = headers_write_complete_m (fst s),
     w_ddone = data_write_complete_m (fst s), w_buf = buffers_m (fst s)\<rparr>"

definition publish :: "sect \<Rightarrow> bytes list \<Rightarrow> wspec \<Rightarrow> wspec" where
  "publish x ms w = w\<lparr>w_msgs := (w_msgs w)(x := w_msgs w x @ ms), w_cur := w_cur w + of_nat (length ms),
     w_buf := Some x\<rparr>"

fun spec_op :: "'h envoy_api \<Rightarrow> 'h write_op \<Rightarrow> wspec \<Rightarrow> wspec" where
  "spec_op api (OpHeaders h fin) w = publish HeadersSec (enc_map (hm_entries api h) fin) w"
| "spec_op api OpHeadersDone w =
     w\<lparr>w_count := (w_count w)(HeadersSec := w_cur w), w_cur := 0, w_hdone := True\<rparr>"
| "spec_op api (OpData d fin) w = publish DataSec (enc_data d fin) w"
| "spec_op api OpDataDone w = w\<lparr>w_count := (w_count w)(DataSec := w_cur w), w_ddone := True\<rparr>"
| "spec_op api (OpTrailers t) w = publish TrailersSec (enc_map (hm_entries api t) False) w"
| "spec_op api OpComplete w =
     (if \<not> w_hdone w then w\<lparr>w_count := (w_count w)(HeadersSec := w_cur w)\<rparr>
      else if \<not> w_ddone w then w\<lparr>w_count := (w_count w)(DataSec := w_cur w)\<rparr>
      else (case w_buf w of None \<Rightarrow> w | Some x \<Rightarrow> publish x [end_block] w))"

text \<open>What an operation needs: strings of less than \<open>2\<^sup>6\<^sup>4\<close> bytes, and something written before the end.\<close>

fun op_ok :: "'h envoy_api \<Rightarrow> 'h write_op \<Rightarrow> bool" where
  "op_ok api (OpHeaders h fin) \<longleftrightarrow> sizes_ok (hm_entries api h)"
| "op_ok api (OpData d fin) \<longleftrightarrow> length d < 18446744073709551616"
| "op_ok api (OpTrailers t) \<longleftrightarrow> sizes_ok (hm_entries api t)"
| "op_ok api _ \<longleftrightarrow> True"

fun buf_needed :: "'h write_op \<Rightarrow> wspec \<Rightarrow> bool" where
  "buf_needed OpComplete w \<longleftrightarrow> w_hdone w \<and> w_ddone w"
| "buf_needed _ w \<longleftrightarrow> False"

definition grows :: "cache_entry \<Rightarrow> cache_entry \<Rightarrow> bool" where
  "grows e e' \<longleftrightarrow> single_buffer_blocks_capacity_m e' = single_buffer_blocks_capacity_m e
     \<and> (\<forall>x. length (sec_buffers x e) \<le> length (sec_buffers x e'))"

lemma block_count_upd [simp]:
  "block_count x (e\<lparr>headers_block_count_m := n\<rparr>) = (if x = HeadersSec then n else block_count x e)"
  "block_count x (e\<lparr>data_block_count_m := n\<rparr>) = (if x = DataSec then n else block_count x e)"
  by (cases x; simp)+

lemma wabs_appends:
  assumes "appends x ms (p\<lparr>buffers_m := Some x\<rparr>, e) (p', e')"
  shows "wabs (p', e') = publish x ms (wabs (p, e)) \<and> grows e e' \<and> cache_entry_ptr_m p' = cache_entry_ptr_m p"
proof -
  have ext: "entry_ext x ms e e'" using assms by (simp add: appends_def)
  note f = entry_ext_frame [OF ext]
  have "block_count y e' = block_count y e" for y using f(5,6) by (cases y) simp_all
  moreover have "sec_msgs y e' = (if y = x then sec_msgs x e @ ms else sec_msgs y e)" for y
    using f(2,3) by simp
  ultimately have "wabs (p', e') = publish x ms (wabs (p, e))"
    using assms by (auto simp: wabs_def publish_def appends_def fun_eq_iff)
  then show ?thesis using f(4,7) assms by (simp add: grows_def appends_def)
qed

lemma write_op_refines:
  assumes ok: "producer_ok p e" and op: "op_ok api op" and buf: "buf_needed op (wabs (p, e)) \<Longrightarrow> buffers_m p \<noteq> None"
  shows "\<exists>p' e'. run_write_op api op (p, e) = Some (Inr (p', e')) \<and> producer_ok p' e'
    \<and> wabs (p', e') = spec_op api op (wabs (p, e)) \<and> grows e e' \<and> cache_entry_ptr_m p' = cache_entry_ptr_m p"
proof (cases op)
  case (OpHeaders h fin)
  then show ?thesis using writeHeaders_appends [OF ok, of api h fin] op wabs_appends by fastforce
next
  case (OpData d fin)
  then show ?thesis using writeData_appends [OF ok, of d fin] op wabs_appends by fastforce
next
  case (OpTrailers t)
  then show ?thesis using writeTrailers_appends [OF ok, of api t] op wabs_appends by fastforce
next
  case OpHeadersDone
  then show ?thesis using ok
    by (auto simp: headersWriteComplete_def producer_ok_def producer_ready_def entry_wf_def wabs_def grows_def
        sec_msgs_def fun_eq_iff split: sect.splits)
next
  case OpDataDone
  then show ?thesis using ok
    by (auto simp: dataWriteComplete_def producer_ok_def producer_ready_def entry_wf_def wabs_def grows_def
        sec_msgs_def fun_eq_iff split: sect.splits)
next
  case OpComplete
  show ?thesis
  proof (cases "headers_write_complete_m p \<and> data_write_complete_m p")
    case False
    then show ?thesis using ok OpComplete
      by (auto simp: writeComplete_def producer_ok_def producer_ready_def entry_wf_def wabs_def grows_def
          sec_msgs_def fun_eq_iff split: sect.splits)
  next
    case True
    then obtain x where x: "buffers_m p = Some x" using buf by (auto simp: OpComplete wabs_def)
    then have p: "p\<lparr>buffers_m := Some x\<rparr> = p" by simp
    have "can_write x p e" "producer_ready p" using ok x by (simp_all add: can_write_def producer_ok_def)
    from writeDelimiterBlock_appends [OF this, of True] obtain p' e' where
      w: "writeDelimiterBlock True p e = Inr (p', e')" "producer_ready p'"
      and ap: "appends x [end_block] (p\<lparr>buffers_m := Some x\<rparr>, e) (p', e')"
      by (auto simp: delimiter_def p)
    have "wabs (p', e') = spec_op api OpComplete (wabs (p, e))"
      using wabs_appends [OF ap] True x by (simp add: wabs_def)
    then show ?thesis
      using True w producer_ok_appends [OF ok w(2) ap] wabs_appends [OF ap]
      by (simp add: OpComplete writeComplete_def)
  qed
qed


text \<open>Sequences of operations.\<close>

abbreviation spec_ops :: "'h envoy_api \<Rightarrow> 'h write_op list \<Rightarrow> wspec \<Rightarrow> wspec" where
  "spec_ops api ops w \<equiv> fold (spec_op api) ops w"

lemma run_write_ops_append:
  "run_write_ops api (ops @ ops') s = bindRun (run_write_ops api ops s) (run_write_ops api ops')"
proof (induction ops arbitrary: s)
  case (Cons op ops)
  then have "run_write_ops api (ops @ ops') = (\<lambda>s. bindRun (run_write_ops api ops s) (run_write_ops api ops'))"
    by (simp add: fun_eq_iff)
  then show ?case by (simp add: bindRun_assoc)
qed simp

lemma grows_trans: "grows e e' \<Longrightarrow> grows e' e'' \<Longrightarrow> grows e e''"
  by (auto simp: grows_def intro: le_trans)

fun bufs_set :: "'h envoy_api \<Rightarrow> 'h write_op list \<Rightarrow> wspec \<Rightarrow> bool" where
  "bufs_set api [] w \<longleftrightarrow> True"
| "bufs_set api (op # ops) w \<longleftrightarrow> (buf_needed op w \<longrightarrow> w_buf w \<noteq> None) \<and> bufs_set api ops (spec_op api op w)"

lemma write_ops_refine:
  assumes "producer_ok p e" and "\<forall>op \<in> set ops. op_ok api op" and "bufs_set api ops (wabs (p, e))"
  shows "\<exists>p' e'. run_write_ops api ops (p, e) = Some (Inr (p', e')) \<and> producer_ok p' e'
    \<and> wabs (p', e') = spec_ops api ops (wabs (p, e)) \<and> grows e e' \<and> cache_entry_ptr_m p' = cache_entry_ptr_m p"
  using assms
proof (induction ops arbitrary: p e)
  case Nil
  then show ?case by (simp add: grows_def)
next
  case (Cons op ops)
  have "buf_needed op (wabs (p, e)) \<Longrightarrow> buffers_m p \<noteq> None" using Cons.prems(3) by (simp add: wabs_def)
  from write_op_refines [OF Cons.prems(1) _ this] Cons.prems(2) obtain p1 e1 where
    1: "run_write_op api op (p, e) = Some (Inr (p1, e1))" "producer_ok p1 e1"
      "wabs (p1, e1) = spec_op api op (wabs (p, e))" "grows e e1" "cache_entry_ptr_m p1 = cache_entry_ptr_m p" by fastforce
  from Cons.IH [OF 1(2)] Cons.prems(2,3) 1(3) obtain p2 e2 where
    "run_write_ops api ops (p1, e1) = Some (Inr (p2, e2))" "producer_ok p2 e2"
    "wabs (p2, e2) = spec_ops api ops (wabs (p1, e1))" "grows e1 e2" "cache_entry_ptr_m p2 = cache_entry_ptr_m p1" by auto
  with 1 show ?case by (auto intro: grows_trans)
qed

section \<open>The specification on a whole response\<close>

definition w0 :: wspec where
  "w0 = \<lparr>w_msgs = (\<lambda>_. []), w_count = (\<lambda>_. UINT32_MAX), w_cur = 0, w_hdone = False, w_ddone = False,
     w_buf = None\<rparr>"

lemma start_write_ok:
  "0 < unat cap \<Longrightarrow> producer_ok (fst (start_write cap a)) (snd (start_write cap a))"
  "wabs (start_write cap a) = w0"
  "single_buffer_blocks_capacity_m (snd (start_write cap a)) = cap"
proof -
  have "block_count x (new_CacheEntry cap) = UINT32_MAX" for x by (cases x) (simp_all add: new_CacheEntry_def)
  then show "wabs (start_write cap a) = w0"
    by (simp add: start_write_def initCacheEntry_def wabs_def w0_def sec_msgs_new new_CacheEntryProducer_def)
  show "0 < unat cap \<Longrightarrow> producer_ok (fst (start_write cap a)) (snd (start_write cap a))"
    using entry_wf_new [of cap]
    by (simp add: start_write_def initCacheEntry_def producer_ok_def producer_ready_def
        new_CacheEntryProducer_def) (simp add: new_CacheEntry_def)
qed (simp add: start_write_def initCacheEntry_def new_CacheEntry_def)

text \<open>\<open>only_grows\<close>: published messages stay, and so does a published counter.\<close>

definition only_grows :: "wspec \<Rightarrow> wspec \<Rightarrow> bool" where
  "only_grows w w' \<longleftrightarrow> (\<forall>x. prefix (w_msgs w x) (w_msgs w' x)
     \<and> (w_count w x \<noteq> UINT32_MAX \<longrightarrow> w_count w' x = w_count w x))"

lemma only_grows_refl [simp]: "only_grows w w"
  by (simp add: only_grows_def)

lemma only_grows_trans: "only_grows w w' \<Longrightarrow> only_grows w' w'' \<Longrightarrow> only_grows w w''"
  unfolding only_grows_def by (metis prefix_order.trans)

lemma only_grows_publish [simp]: "only_grows w (publish x ms w)"
  by (simp add: only_grows_def publish_def)

lemma spec_body_ops:
  assumes "ds \<noteq> []"
  shows "spec_ops api (body_ops ds fin) w = publish DataSec (enc_body ds fin) w"
  using assms
proof (induction ds arbitrary: w)
  case (Cons d ds)
  then show ?case by (cases "ds = []") (simp_all add: publish_def)
qed simp

text \<open>The states on the way: each grows out of the one before it.\<close>

fun chain_ok :: "'h envoy_api \<Rightarrow> 'h write_op list \<Rightarrow> wspec \<Rightarrow> bool" where
  "chain_ok api [] w \<longleftrightarrow> True"
| "chain_ok api (op # ops) w \<longleftrightarrow> only_grows w (spec_op api op w) \<and> (buf_needed op w \<longrightarrow> w_buf w \<noteq> None)
     \<and> chain_ok api ops (spec_op api op w)"

lemma chain_ok_append: "chain_ok api (ops @ ops') w \<longleftrightarrow> chain_ok api ops w \<and> chain_ok api ops' (spec_ops api ops w)"
  by (induction ops arbitrary: w) auto

lemma chain_ok_body: "chain_ok api (body_ops ds fin) w"
  by (induction ds arbitrary: w) simp_all

lemma chain_bufs: "chain_ok api ops w \<Longrightarrow> bufs_set api ops w"
  by (induction ops arbitrary: w) simp_all

lemma chain_only_grows: "chain_ok api ops w \<Longrightarrow> only_grows w (spec_ops api ops w)"
  by (induction ops arbitrary: w) (auto intro: only_grows_trans)

lemma chain_response: "chain_ok api (response_ops resp) w0"
  unfolding response_ops_def
  by (cases "resp_body resp = []"; cases "resp_trailers resp")
    (simp_all add: chain_ok_append chain_ok_body spec_body_ops only_grows_def w0_def publish_def)

text \<open>At the end the entry is the one a reader of theory \<open>Serving\<close> expects.\<close>

lemma spec_response:
  assumes "resp_trailers resp \<noteq> None \<Longrightarrow> resp_body resp \<noteq> []"
  shows "w_msgs (spec_ops api (response_ops resp) w0) = resp_msgs api resp"
    "w_count (spec_ops api (response_ops resp) w0) = resp_count api resp"
proof -
  have body: "(resp_body resp = []) = headers_only resp" using assms by (cases "resp_trailers resp") (auto simp: headers_only_def)
  show "w_msgs (spec_ops api (response_ops resp) w0) = resp_msgs api resp"
  proof
    fix x show "w_msgs (spec_ops api (response_ops resp) w0) x = resp_msgs api resp x"
      using assms body
      by (cases x; cases "resp_trailers resp"; cases "headers_only resp")
        (auto simp: response_ops_def spec_body_ops publish_def w0_def)
  qed
  show "w_count (spec_ops api (response_ops resp) w0) = resp_count api resp"
  proof
    fix x show "w_count (spec_ops api (response_ops resp) w0) x = resp_count api resp x"
      using assms body
      by (cases x; cases "resp_trailers resp"; cases "headers_only resp")
        (auto simp: response_ops_def spec_body_ops publish_def w0_def)
  qed
qed


section \<open>Writer and reader\<close>

lemma entries_sizes: "entries_ok kvs \<Longrightarrow> sizes_ok kvs"
  by (force simp: entries_ok_def sizes_ok_def key_ok_def enc_limit_def)

lemma body_ops_set: "op \<in> set (body_ops ds fin) \<Longrightarrow> \<exists>d fin'. op = OpData d fin' \<and> d \<in> set ds"
  by (induction ds) auto

lemma resp_ok_ops:
  assumes "resp_ok api resp"
  shows "\<forall>op \<in> set (response_ops resp). op_ok api op" "resp_trailers resp \<noteq> None \<Longrightarrow> resp_body resp \<noteq> []"
proof -
  have "length d < 18446744073709551616" if "d \<in> set (resp_body resp)" for d
    using assms that by (force simp: resp_ok_def enc_limit_def)
  then show "\<forall>op \<in> set (response_ops resp). op_ok api op"
    using assms by (auto simp: response_ops_def resp_ok_def entries_sizes dest!: body_ops_set split: option.splits)
  show "resp_trailers resp \<noteq> None \<Longrightarrow> resp_body resp \<noteq> []"
    using assms by (auto simp: resp_ok_def split: option.splits)
qed

text \<open>The entry after the first \<open>k\<close> calls.\<close>

definition stored_after :: "'h envoy_api \<Rightarrow> 'h response \<Rightarrow> u32 \<Rightarrow> entry_id \<Rightarrow> nat \<Rightarrow> cache_entry" where
  "stored_after api resp cap a k =
     (case run_write_ops api (take k (response_ops resp)) (start_write cap a) of
        Some (Inr (p, e)) \<Rightarrow> e
      | _ \<Rightarrow> snd (start_write cap a))"

lemma stored_prefix:
  assumes ok: "resp_ok api resp" and cap: "0 < unat cap" and ops: "ops @ ops' = response_ops resp"
  shows "\<exists>p e. run_write_ops api ops (start_write cap a) = Some (Inr (p, e)) \<and> producer_ok p e
    \<and> single_buffer_blocks_capacity_m e = cap \<and> wabs (p, e) = spec_ops api ops w0
    \<and> partial_of (resp_final api cap resp) e \<and> cache_entry_ptr_m p = Some a"
proof -
  have ch: "chain_ok api ops w0" "chain_ok api ops' (spec_ops api ops w0)"
    using chain_response [of api resp] by (simp_all add: chain_ok_append flip: ops)
  have so: "\<forall>op \<in> set ops. op_ok api op" using resp_ok_ops(1) [OF ok] by (simp flip: ops)
  obtain p0 e0 where 0: "start_write cap a = (p0, e0)" by (cases "start_write cap a")
  have "producer_ok p0 e0" "wabs (p0, e0) = w0" "single_buffer_blocks_capacity_m e0 = cap"
    using start_write_ok [of cap a] cap by (simp_all add: 0)
  then obtain p e where e: "run_write_ops api ops (p0, e0) = Some (Inr (p, e))" "producer_ok p e"
    "wabs (p, e) = spec_ops api ops w0" "grows e0 e" "cache_entry_ptr_m p = cache_entry_ptr_m p0"
    using write_ops_refine [of p0 e0 ops api] so chain_bufs [OF ch(1)] by auto
  then have c: "single_buffer_blocks_capacity_m e = cap"
    using \<open>single_buffer_blocks_capacity_m e0 = cap\<close> by (simp add: grows_def)
  have "spec_ops api ops' (spec_ops api ops w0) = spec_ops api (response_ops resp) w0"
    by (simp flip: ops)
  then have g: "only_grows (wabs (p, e)) (spec_ops api (response_ops resp) w0)"
    using chain_only_grows [OF ch(2)] e(3) by simp
  have "prefix (sec_msgs x e) (resp_msgs api resp x)" 
    "block_count x e = UINT32_MAX \<or> block_count x e = resp_count api resp x" for x
    using g spec_response [OF resp_ok_ops(2) [OF ok], of api] by (auto simp: only_grows_def wabs_def)
  then have "partial_of (resp_final api cap resp) e"
    using e(2) c by (simp add: partial_of_def resp_final_def producer_ok_def)
  moreover have "cache_entry_ptr_m p0 = Some a" using 0 by (auto simp: start_write_def initCacheEntry_def)
  ultimately show ?thesis using e c by (simp add: 0)
qed

lemma stored_after_partial:
  assumes "resp_ok api resp" and "0 < unat cap"
  shows "partial_of (resp_final api cap resp) (stored_after api resp cap a k)"
  using stored_prefix [OF assms, of "take k (response_ops resp)" "drop k (response_ops resp)" a]
  by (auto simp: stored_after_def)

lemma stored_after_step:
  assumes ok: "resp_ok api resp" and cap: "0 < unat cap"
  shows "entry_le (stored_after api resp cap a k) (stored_after api resp cap a (Suc k))
    \<and> (\<forall>s. prefix (sec_msgs s (stored_after api resp cap a k)) (sec_msgs s (stored_after api resp cap a (Suc k))))"
proof (cases "k < length (response_ops resp)")
  case False
  then show ?thesis by (simp add: stored_after_def entry_le_def)
next
  case True
  let ?op = "response_ops resp ! k"
  have tk: "take (Suc k) (response_ops resp) = take k (response_ops resp) @ [?op]"
    using True by (simp add: take_Suc_conv_app_nth)
  obtain p e where e: "run_write_ops api (take k (response_ops resp)) (start_write cap a) = Some (Inr (p, e))"
    "producer_ok p e" "wabs (p, e) = spec_ops api (take k (response_ops resp)) w0"
    using stored_prefix [OF ok cap, of "take k (response_ops resp)" "drop k (response_ops resp)" a] by auto
  have "chain_ok api (take (Suc k) (response_ops resp) @ drop (Suc k) (response_ops resp)) w0"
    by (simp add: chain_response)
  then have ch: "only_grows (wabs (p, e)) (spec_op api ?op (wabs (p, e)))"
    "buf_needed ?op (wabs (p, e)) \<Longrightarrow> buffers_m p \<noteq> None"
    unfolding chain_ok_append tk by (simp_all add: e(3)) (simp add: wabs_def flip: e(3))
  have "op_ok api ?op" using resp_ok_ops(1) [OF ok] True by simp
  from write_op_refines [OF e(2) this ch(2)] obtain p' e' where
    e': "run_write_op api ?op (p, e) = Some (Inr (p', e'))" "wabs (p', e') = spec_op api ?op (wabs (p, e))"
      "grows e e'" by blast
  have "entry_le e e' \<and> (\<forall>s. prefix (sec_msgs s e) (sec_msgs s e'))"
    using e'(3) ch(1) unfolding entry_le_def grows_def e'(2) [symmetric] by (auto simp: only_grows_def wabs_def)
  moreover have "stored_after api resp cap a k = e" "stored_after api resp cap a (Suc k) = e'"
    using e(1) e'(1) by (simp_all add: stored_after_def tk run_write_ops_append)
  ultimately show ?thesis by simp
qed

lemma stored_after_mono:
  assumes "resp_ok api resp" and "0 < unat cap" and "j \<le> k"
  shows "entry_le (stored_after api resp cap a j) (stored_after api resp cap a k)"
  using assms(3)
proof (induction k rule: dec_induct)
  case base
  show ?case by (simp add: entry_le_def)
next
  case (step k)
  from step.IH stored_after_step [OF assms(1,2), of a k] show ?case
    by (auto simp: entry_le_def intro: le_trans)
qed

lemma stored_after_msgs_mono:
  assumes "resp_ok api resp" and "0 < unat cap" and "j \<le> k"
  shows "prefix (sec_msgs s (stored_after api resp cap a j)) (sec_msgs s (stored_after api resp cap a k))"
  using assms(3)
proof (induction k rule: dec_induct)
  case (step k)
  then show ?case using stored_after_step [OF assms(1,2)] by (metis prefix_order.trans)
qed simp

lemma stored_after_complete:
  assumes ok: "resp_ok api resp" and cap: "0 < unat cap" and k: "length (response_ops resp) \<le> k"
  shows "complete_of (resp_final api cap resp) (stored_after api resp cap a k)"
proof -
  obtain p e where e: "run_write_ops api (response_ops resp) (start_write cap a) = Some (Inr (p, e))"
    "wabs (p, e) = spec_ops api (response_ops resp) w0"
    using stored_prefix [OF ok cap, of "response_ops resp" "[]" a] by auto
  have "w_msgs (wabs (p, e)) = resp_msgs api resp" "w_count (wabs (p, e)) = resp_count api resp"
    using spec_response [OF resp_ok_ops(2) [OF ok], of api] by (simp_all add: e(2))
  then have "sec_msgs x e = resp_msgs api resp x" "block_count x e = resp_count api resp x" for x
    by (simp_all add: wabs_def fun_eq_iff)
  then show ?thesis using e(1) k by (simp add: complete_of_def resp_final_def stored_after_def)
qed

lemma store_then_serve:
  assumes ok: "resp_ok api resp" and dr: "drains api" and cap: "0 < unat cap" and k: "consumer_idle k"
  shows "\<exists>p e. run_write_ops api (response_ops resp) (start_write cap a) = Some (Inr (p, e))
    \<and> (\<exists>k' n' e'. serveCachedResponse api end_block no_interference a cb k (n, e)
         = Some (Inr (k', (n', e'), resp_events api resp)) \<and> consumer_idle k' \<and> same_content e e')"
proof -
  obtain p e where e: "run_write_ops api (response_ops resp) (start_write cap a) = Some (Inr (p, e))"
    "partial_of (resp_final api cap resp) e"
    using stored_prefix [OF ok cap, of "response_ops resp" "[]" a] by auto
  have "stored_after api resp cap a (length (response_ops resp)) = e"
    using e(1) by (simp add: stored_after_def)
  then have "complete_of (resp_final api cap resp) e"
    using stored_after_complete [OF ok cap, of "length (response_ops resp)" a] by simp
  from serve_finished [OF ok dr k cap e(2) this, of a cb n] e(1) show ?thesis by blast
qed

section \<open>Properties\<close>

text \<open>A response with a header, a body in two pieces and a trailer, for witnesses.\<close>

definition demo_response :: "(bytes \<times> bytes) list response" where
  "demo_response = \<lparr>resp_headers = [('':status'', ''200'')], resp_body = [''ab'', ''c''],
     resp_trailers = Some [(''t'', ''1'')]\<rparr>"

lemma demo_ok: "resp_ok list_api demo_response" "drains list_api"
proof -
  have e: "end_block \<noteq> ''t''" "end_block \<noteq> '':status''"
    using length_end_block by (auto simp: BLOCK_SIZE_BYTES_def dest: arg_cong [where f = length])
  have "length (resp_msgs list_api demo_response s) < 4294967295" for s
    by (cases s) (simp_all add: demo_response_def enc_map_def enc_data_def enc_str_tiny)
  then show "resp_ok list_api demo_response"
    by (simp add: resp_ok_def) (simp add: demo_response_def key_ok_def enc_limit_def e [symmetric] BLOCK_SIZE_BYTES_def)
  show "drains list_api" by (simp add: drains_def)
qed

lemma demo_events: "resp_events list_api demo_response =
  [EncodeHeaders [('':status'', ''200'')] False, EncodeData ''ab'' False, EncodeData ''c'' False,
   EncodeTrailers [(''t'', ''1'')], EncodeTrailers []]"
  by (simp add: resp_events_eq demo_response_def headers_only_def trailer_events_def list_api_rebuild)

text \<open>
  C11: a response stored through the producer and then replayed by a consumer comes back: the writer
  returns without a fault, and the consumer makes on the decoder callbacks the calls of the response --
  its headers with the same entries, the pieces of its body with the end of the stream at the right
  place, its trailers with the same entries -- and is ready for the next one. If there are trailers, these
  calls are followed by one that is not of the response, \<^verbatim>\<open>encodeTrailers\<close> with an empty map.
\<close>

theorem store_serve_roundtrip:
  assumes "resp_ok api resp" and "drains api" and "copies_entries api" and "0 < unat cap" and "consumer_idle k"
  shows "\<exists>p e k' w' evs. run_write_ops api (response_ops resp) (start_write cap a) = Some (Inr (p, e))
    \<and> serveCachedResponse api end_block no_interference a cb k (n, e) = Some (Inr (k', w', evs))
    \<and> entries_of_calls api evs = entries_of_calls api (response_calls resp)
        @ (if resp_trailers resp = None then [] else [EncodeTrailers []])
    \<and> consumer_idle k'"
  using store_then_serve [OF assms(1,2,4,5), of a cb n] resp_events_entries [OF assms(3), of resp] by blast

theorem store_serve_roundtrip_witness:
  "\<exists>p e k' w' evs. run_write_ops list_api (response_ops demo_response) (start_write 1 0) = Some (Inr (p, e))
    \<and> serveCachedResponse list_api end_block no_interference 0 0 CacheEntryConsumer_fields (0, e)
        = Some (Inr (k', w', evs))
    \<and> entries_of_calls list_api evs = [EncodeHeaders [('':status'', ''200'')] False, EncodeData ''ab'' False,
        EncodeData ''c'' False, EncodeTrailers [(''t'', ''1'')], EncodeTrailers []]"
proof -
  have "entries_of_calls list_api (response_calls demo_response) = [EncodeHeaders [('':status'', ''200'')] False,
      EncodeData ''ab'' False, EncodeData ''c'' False, EncodeTrailers [(''t'', ''1'')]]"
    by (simp add: entries_of_calls_def response_calls_def demo_response_def headers_only_def)
  moreover have "resp_trailers demo_response \<noteq> None" by (simp add: demo_response_def)
  ultimately show ?thesis
    using store_serve_roundtrip [OF demo_ok list_api_copies _ consumer_idle_new, of 1 0 0 0] by auto
qed

text \<open>
  C23: every call on the producer implements its specification on the abstract entry: it returns, it
  publishes the blocks of its argument in its section behind the old ones, or sets the block
  counter it is responsible for, and the producer stays fit for the next call.
\<close>

theorem producer_refines_spec:
  assumes "producer_ok p e" and "op_ok api op" and "buf_needed op (wabs (p, e)) \<Longrightarrow> buffers_m p \<noteq> None"
  shows "\<exists>p' e'. run_write_op api op (p, e) = Some (Inr (p', e')) \<and> producer_ok p' e'
    \<and> wabs (p', e') = spec_op api op (wabs (p, e))"
  using write_op_refines [OF assms] by blast

theorem producer_refines_spec_witness:
  "\<exists>p' e'. run_write_op list_api (OpData ''ab'' True) (start_write 1 0) = Some (Inr (p', e'))
    \<and> sec_msgs DataSec e' = [''ab'', end_block]"
proof -
  have "producer_ok (fst (start_write 1 0)) (snd (start_write 1 0))" by (simp add: start_write_ok)
  from producer_refines_spec [OF this, of list_api "OpData ''ab'' True"] obtain p' e' where
    r: "run_write_op list_api (OpData ''ab'' True) (start_write 1 0) = Some (Inr (p', e'))"
    and "wabs (p', e') = spec_op list_api (OpData ''ab'' True) w0"
    by (auto simp: start_write_ok(2))
  then have "w_msgs (wabs (p', e')) DataSec = [''ab'', end_block]"
    by (simp add: publish_def w0_def enc_data_def enc_str_def enc_limit_def chunks_short
        BLOCK_SIZE_BYTES_def delimiter_def)
  then show ?thesis using r by (auto simp: wabs_def)
qed

text \<open>
  C29: trailers are passed on twice: besides the call with the trailers of the response, the decoder
  callbacks get a second \<^verbatim>\<open>encodeTrailers\<close> with an empty map, from the end-of-stream block that
  follows the delimiter of the trailers.
\<close>

theorem trailers_encoded_twice:
  assumes "resp_ok api resp" and "drains api" and "0 < unat cap" and "consumer_idle k"
    and "resp_trailers resp = Some t"
  shows "\<exists>p e k' w' evs. run_write_ops api (response_ops resp) (start_write cap a) = Some (Inr (p, e))
    \<and> serveCachedResponse api end_block no_interference a cb k (n, e)
       = Some (Inr (k', w', evs @ [EncodeTrailers (hm_rebuild api (hm_entries api t)), EncodeTrailers (hm_create api)]))"
proof -
  have "resp_events api resp = (EncodeHeaders (hm_rebuild api (hm_entries api (resp_headers resp))) (headers_only resp)
      # body_events (resp_body resp) False)
      @ [EncodeTrailers (hm_rebuild api (hm_entries api t)), EncodeTrailers (hm_create api)]"
    by (simp add: resp_events_eq trailer_events_def assms(5))
  then show ?thesis using store_then_serve [OF assms(1-4), of a cb n] by metis
qed

theorem trailers_encoded_twice_witness:
  "\<exists>p e k' w' evs. run_write_ops list_api (response_ops demo_response) (start_write 1 0) = Some (Inr (p, e))
    \<and> serveCachedResponse list_api end_block no_interference 0 0 CacheEntryConsumer_fields (0, e)
        = Some (Inr (k', w', evs @ [EncodeTrailers [(''t'', ''1'')], EncodeTrailers []]))"
  using trailers_encoded_twice [OF demo_ok _ consumer_idle_new, of 1 "[(''t'', ''1'')]" 0 0 0]
  by (simp add: demo_response_def list_api_rebuild)

end
