(* ===== verification/Config.thy ===== *)
theory Config
  imports Prelude
begin

text \<open>
  \<^verbatim>\<open>http_cache_rc_config.h\<close>, the message and validation rules of \<^verbatim>\<open>http_cache_rc.proto\<close>, and the
  part of \<^verbatim>\<open>http_cache_rc_config_factory.cc\<close> that turns a message into the configuration of the
  filters. Envoy's \<^verbatim>\<open>downcastAndValidate\<close> runs code generated from the rules, so the function that
  validates is an argument; \<open>codec_rules\<close> is what the rules say.
\<close>

record codec_proto =
  ring_buffer_capacity_p :: u32
  cache_capacity_p :: u32

definition codec_rules :: "codec_proto \<Rightarrow> bool" where
  "codec_rules proto \<longleftrightarrow> ring_buffer_capacity_p proto > 0 \<and> cache_capacity_p proto > 0"

record config =
  ring_buffer_capacity_cfg :: u32
  cache_capacity_cfg :: u32

definition HttpCacheRCConfig :: "codec_proto \<Rightarrow> config" where
  "HttpCacheRCConfig proto_config =
     \<lparr>ring_buffer_capacity_cfg = ring_buffer_capacity_p proto_config,
      cache_capacity_cfg = cache_capacity_p proto_config\<rparr>"

definition createEmptyConfigProto :: codec_proto where
  "createEmptyConfigProto = \<lparr>ring_buffer_capacity_p = 0, cache_capacity_p = 0\<rparr>"

text \<open>\<open>construct\<close> is the constructor of the filter; \<open>None\<close> is the exception of a failed validation.\<close>

definition createFilter :: "(config \<Rightarrow> 's \<Rightarrow> 'f \<times> 's) \<Rightarrow> codec_proto \<Rightarrow> 's \<Rightarrow> 'f \<times> 's" where
  "createFilter construct proto_config = (let config = HttpCacheRCConfig proto_config in (\<lambda>s. construct config s))"

definition createFilterFactoryFromProto ::
  "(codec_proto \<Rightarrow> bool) \<Rightarrow> (config \<Rightarrow> 's \<Rightarrow> 'f \<times> 's) \<Rightarrow> codec_proto \<Rightarrow> ('s \<Rightarrow> 'f \<times> 's) option"
where
  "createFilterFactoryFromProto validate construct proto_config =
     (if validate proto_config then Some (createFilter construct proto_config) else None)"

lemma HttpCacheRCConfig_positive:
  "codec_rules proto \<Longrightarrow> 0 < unat (ring_buffer_capacity_cfg (HttpCacheRCConfig proto))
     \<and> cache_capacity_cfg (HttpCacheRCConfig proto) > 0"
  by (simp add: codec_rules_def HttpCacheRCConfig_def unat_gt_0 word_gt_0)

end
