(* ===== verification/Http_Cache_Filter.thy ===== *)
theory Http_Cache_Filter
  imports Lru_Cache Storing Config "HOL-Library.AList"
begin

text \<open>
  \<^verbatim>\<open>http_cache_rc_filter.h\<close> and \<^verbatim>\<open>http_cache_rc_filter.cc\<close>: one filter per request, with the cache,
  the groups of coalesced requests and the map of leader threads shared by all of them. A callback
  of the filter is a function from the filter and the shared state to a \<open>run\<close>. Three things are
  arguments, collected in \<open>environ\<close>: what the other threads do to the shared state while this one
  waits on the condition variable, what they do to an entry while this one reads it, and which
  element \<^verbatim>\<open>begin()\<close> of an unordered map is.
\<close>

section \<open>State\<close>

type_synonym thread_id = nat
type_synonym wrapper_id = nat

text \<open>
  \<^verbatim>\<open>struct ResponseForCoalescedRequests\<close>. Wrappers and entries live in heaps, lists indexed by
  their addresses; shared and weak pointers are addresses, lists of decoder callbacks are lists of
  request identifiers. The condition variable has no state.
\<close>

record response_wrapper =
  leader_thread_id_m :: thread_id
  waiting_decoder_callbacks_m :: "callback_id list"
  shared_response_entry_m :: "entry_id option"
  other_rc_groups_m :: "(callback_id \<times> wrapper_id) list"

datatype thread_status = INITIAL_LEADER | LEADER | OTHER_GROUP_LEADER | WAITING

datatype filter_status = Continue | StopIteration

text \<open>
  The static members of the classes and the heaps. \<open>expired_m\<close> are the wrappers whose last owner
  is gone, \<open>delivered_m\<close> the log of what was served: for every completed
  \<^verbatim>\<open>serveCachedResponse\<close> the decoder callbacks and the calls made on them, \<open>clock_m\<close> counts waits and reads.
\<close>

record 'h shared =
  cache_m :: "entry_id lru_cache"
  entries_m :: "cache_entry list"
  wrappers_m :: "response_wrapper list"
  expired_m :: "wrapper_id list"
  coalesced_requests_m :: "bytes \<Rightarrow> wrapper_id option option"
  leader_threads_for_rc_m :: "thread_id \<Rightarrow> (bytes \<times> wrapper_id) list option"
  statics_m :: consumer_statics
  delivered_m :: "(callback_id \<times> 'h response_event list) list"
  clock_m :: nat

record 'h http_filter =
  config_m :: config
  request_headers_str_key_m :: bytes
  entry_cached_m :: bool
  successful_status_code_m :: bool
  is_first_headers_m :: bool
  is_first_data_m :: bool
  is_first_trailers_m :: bool
  cache_entry_producer_m :: producer
  cache_entry_consumer_m :: "'h consumer"
  response_wrapper_rc_ptr_m :: "wrapper_id option"
  this_thread_id_m :: thread_id
  decoder_callbacks_m :: callback_id

text \<open>What the getters of \<^verbatim>\<open>RequestHeaderMap\<close> return.\<close>

record request_headers =
  getHostValue :: bytes
  getPathValue :: bytes
  getMethodValue :: bytes
  getSchemeValue :: bytes
  getUserAgentValue :: bytes

record 'h environ =
  env_wait :: "nat \<Rightarrow> 'h shared \<Rightarrow> 'h shared"
  env_read :: interference
  env_begin :: "(bytes \<times> wrapper_id) list \<Rightarrow> bytes \<times> wrapper_id"

type_synonym ('h, 'r) act = "('r \<times> 'h http_filter \<times> 'h shared) run"

definition initial_shared :: "'h shared" where
  "initial_shared = \<lparr>cache_m = new_HTTPLRURAMCache, entries_m = [], wrappers_m = [], expired_m = [],
     coalesced_requests_m = (\<lambda>_. None), leader_threads_for_rc_m = (\<lambda>_. None),
     statics_m = initial_statics, delivered_m = [], clock_m = 0\<rparr>"

text \<open>The constructor; \<open>cb\<close> are the decoder callbacks that Envoy sets on a new filter.\<close>

definition HttpCacheRCFilter :: "callback_id \<Rightarrow> config \<Rightarrow> 'h shared \<Rightarrow> 'h http_filter \<times> 'h shared" where
  "HttpCacheRCFilter cb config s =
    (let (st, consumer) = new_CacheEntryConsumer (statics_m s);
         cache = (if getCacheCapacity (cache_m s) = 0
                  then initCacheCapacity (cache_capacity_cfg config) (cache_m s) else cache_m s)
     in (\<lparr>config_m = config, request_headers_str_key_m = [], entry_cached_m = True,
          successful_status_code_m = True, is_first_headers_m = True, is_first_data_m = True,
          is_first_trailers_m = True, cache_entry_producer_m = new_CacheEntryProducer,
          cache_entry_consumer_m = consumer, response_wrapper_rc_ptr_m = None,
          this_thread_id_m = 0, decoder_callbacks_m = cb\<rparr>,
         s\<lparr>statics_m := st, cache_m := cache\<rparr>))"

section \<open>Keys and status codes\<close>

definition createRequestHeadersStrKey :: "request_headers \<Rightarrow> 'h http_filter \<Rightarrow> 'h http_filter" where
  "createRequestHeadersStrKey headers f =
     f\<lparr>request_headers_str_key_m := request_headers_str_key_m f @ getHostValue headers
         @ getPathValue headers @ getMethodValue headers @ getSchemeValue headers
         @ getUserAgentValue headers\<rparr>"

text \<open>\<^verbatim>\<open>std::stoi\<close>: spaces, a sign, decimal digits; \<open>None\<close> is one of its two exceptions.\<close>

definition is_space :: "byte \<Rightarrow> bool" where
  "is_space c \<longleftrightarrow> c = CHR 0x20 \<or> (9 \<le> (of_char c :: nat) \<and> (of_char c :: nat) \<le> 13)"

definition is_digit :: "byte \<Rightarrow> bool" where
  "is_digit c \<longleftrightarrow> 48 \<le> (of_char c :: nat) \<and> (of_char c :: nat) \<le> 57"

definition digits_value :: "bytes \<Rightarrow> int" where
  "digits_value cs = foldl (\<lambda>n c. 10 * n + (of_char c - 48)) 0 cs"

definition stoi :: "bytes \<Rightarrow> int option" where
  "stoi str =
    (let cs = dropWhile is_space str;
         neg = (cs \<noteq> [] \<and> hd cs = CHR ''-'');
         ds = takeWhile is_digit (if cs \<noteq> [] \<and> (hd cs = CHR ''-'' \<or> hd cs = CHR ''+'') then tl cs else cs);
         v = (if neg then - digits_value ds else digits_value ds)
     in if ds = [] \<or> v < - 2147483648 \<or> 2147483647 < v then None else Some v)"

text \<open>The integer is stored in a \<^verbatim>\<open>uint16_t\<close>.\<close>

definition checkSuccessfulStatusCode :: "'h envoy_api \<Rightarrow> 'h \<Rightarrow> 'h http_filter \<Rightarrow> bool \<times> 'h http_filter" where
  "checkSuccessfulStatusCode api headers f =
    (case stoi (hm_status api headers) of
       None \<Rightarrow> (False, f)
     | Some i \<Rightarrow>
         let responseStatusCode = (word_of_int i :: 16 word)
         in (True, if responseStatusCode < 200 \<or> responseStatusCode \<ge> 300
                   then f\<lparr>successful_status_code_m := False\<rparr> else f))"

section \<open>Groups of coalesced requests\<close>

definition wrapper_of :: "'h http_filter \<Rightarrow> 'h shared \<Rightarrow> fault + wrapper_id" where
  "wrapper_of f s = (case response_wrapper_rc_ptr_m f of
     None \<Rightarrow> Inl NullDeref
   | Some w \<Rightarrow> if w < length (wrappers_m s) then Inr w else Inl NullDeref)"

definition upd_wrapper :: "wrapper_id \<Rightarrow> (response_wrapper \<Rightarrow> response_wrapper) \<Rightarrow> 'h shared \<Rightarrow> 'h shared" where
  "upd_wrapper w g s = s\<lparr>wrappers_m := (wrappers_m s)[w := g (wrappers_m s ! w)]\<rparr>"

text \<open>\<^verbatim>\<open>coalesced_requests_[key]\<close> and \<^verbatim>\<open>leader_threads_for_rc_[thread]\<close> create what they do not find.\<close>

definition rc_index :: "bytes \<Rightarrow> 'h shared \<Rightarrow> wrapper_id option \<times> 'h shared" where
  "rc_index key s = (case coalesced_requests_m s key of
     None \<Rightarrow> (None, s\<lparr>coalesced_requests_m := (coalesced_requests_m s)(key \<mapsto> None)\<rparr>)
   | Some w \<Rightarrow> (w, s))"

definition rc_assign :: "bytes \<Rightarrow> wrapper_id option \<Rightarrow> 'h shared \<Rightarrow> 'h shared" where
  "rc_assign key w s = s\<lparr>coalesced_requests_m := (coalesced_requests_m s)(key \<mapsto> w)\<rparr>"

definition led_groups :: "thread_id \<Rightarrow> 'h shared \<Rightarrow> (bytes \<times> wrapper_id) list" where
  "led_groups t s = (case leader_threads_for_rc_m s t of None \<Rightarrow> [] | Some gs \<Rightarrow> gs)"

definition set_led_groups :: "thread_id \<Rightarrow> (bytes \<times> wrapper_id) list \<Rightarrow> 'h shared \<Rightarrow> 'h shared" where
  "set_led_groups t gs s = s\<lparr>leader_threads_for_rc_m := (leader_threads_for_rc_m s)(t \<mapsto> gs)\<rparr>"

definition isLeaderOfOtherRCGroup :: "'h environ \<Rightarrow> 'h http_filter \<Rightarrow> 'h shared \<Rightarrow> fault + (bool \<times> 'h shared)" where
  "isLeaderOfOtherRCGroup env f s =
    (case leader_threads_for_rc_m s (this_thread_id_m f) of
       None \<Rightarrow> Inr (False, s)
     | Some groups \<Rightarrow>
         if groups = [] then Inl EmptyContainer
         else bindR (wrapper_of f s) (\<lambda>mine.
           let (key, w) = env_begin env groups
           in if w < length (wrappers_m s)
              then Inr (True, upd_wrapper w (\<lambda>r. r\<lparr>other_rc_groups_m := other_rc_groups_m r @
                                 [(decoder_callbacks_m f, mine)]\<rparr>) s)
              else Inl NullDeref))"

definition getThreadStatus :: "'h environ \<Rightarrow> 'h http_filter \<Rightarrow> 'h shared \<Rightarrow> ('h, thread_status) act" where
  "getThreadStatus env f s =
    (let key = request_headers_str_key_m f; t = this_thread_id_m f;
         (found, s1) = rc_index key s; f1 = f\<lparr>response_wrapper_rc_ptr_m := found\<rparr>
     in case found of
          None \<Rightarrow>
            let w = length (wrappers_m s1);
                s2 = rc_assign key (Some w) (s1\<lparr>wrappers_m := wrappers_m s1 @
                  [\<lparr>leader_thread_id_m = t, waiting_decoder_callbacks_m = [],
                    shared_response_entry_m = None, other_rc_groups_m = []\<rparr>]\<rparr>);
                s3 = set_led_groups t (AList.update key w (led_groups t s2)) s2
            in Some (Inr (INITIAL_LEADER, f1\<lparr>response_wrapper_rc_ptr_m := Some w\<rparr>, s3))
        | Some _ \<Rightarrow>
            bindRun (Some (wrapper_of f1 s1)) (\<lambda>w.
              if t = leader_thread_id_m (wrappers_m s1 ! w) then
                Some (Inr (LEADER, f1, upd_wrapper w (\<lambda>r. r\<lparr>waiting_decoder_callbacks_m :=
                  waiting_decoder_callbacks_m r @ [decoder_callbacks_m f1]\<rparr>) s1))
              else
                bindRun (Some (isLeaderOfOtherRCGroup env f1 s1)) (\<lambda>(other, s2).
                  Some (Inr (if other then OTHER_GROUP_LEADER else WAITING, f1, s2)))))"


section \<open>Serving coalesced requests\<close>

text \<open>
  \<open>serve_entry\<close> is \<^verbatim>\<open>cache_entry_consumer_.serveCachedResponse\<close> on an entry of the heap; passing a
  null pointer is a fault, because it is dereferenced.
\<close>

definition serve_entry ::
  "'h envoy_api \<Rightarrow> 'h environ \<Rightarrow> entry_id option \<Rightarrow> callback_id \<Rightarrow> 'h http_filter \<Rightarrow> 'h shared \<Rightarrow>
     ('h http_filter \<times> 'h shared) run"
where
  "serve_entry api env eid cb f s =
    (case eid of
       None \<Rightarrow> Some (Inl NullDeref)
     | Some a \<Rightarrow>
         if length (entries_m s) \<le> a then Some (Inl NullDeref)
         else bindRun (serveCachedResponse api (block_with_ones_m (statics_m s)) (env_read env) a cb
                         (cache_entry_consumer_m f) (clock_m s, entries_m s ! a))
           (\<lambda>(k, (n, e), evs). Some (Inr (f\<lparr>cache_entry_consumer_m := k\<rparr>,
              s\<lparr>entries_m := (entries_m s)[a := e], delivered_m := delivered_m s @ [(cb, evs)],
                clock_m := n\<rparr>))))"

text \<open>The wait ends when the entry has been announced or after \<^verbatim>\<open>COND_VAR_TIMEOUT\<close>.\<close>

definition waitOnCondVar :: "'h environ \<Rightarrow> 'h http_filter \<Rightarrow> 'h shared \<Rightarrow> fault + 'h shared" where
  "waitOnCondVar env f s =
     bindR (wrapper_of f s) (\<lambda>w.
       if shared_response_entry_m (wrappers_m s ! w) \<noteq> None then Inr s
       else let s' = env_wait env (clock_m s) s in Inr (s'\<lparr>clock_m := Suc (clock_m s')\<rparr>))"

definition waitForResponseAndServe ::
  "'h envoy_api \<Rightarrow> 'h environ \<Rightarrow> 'h http_filter \<Rightarrow> 'h shared \<Rightarrow> ('h http_filter \<times> 'h shared) run"
where
  "waitForResponseAndServe api env f s =
     bindRun (Some (waitOnCondVar env f s)) (\<lambda>s1.
     bindRun (Some (wrapper_of f s1)) (\<lambda>w.
       case shared_response_entry_m (wrappers_m s1 ! w) of
         None \<Rightarrow> Some (Inr (f, s1))
       | Some a \<Rightarrow> serve_entry api env (Some a) (decoder_callbacks_m f) f s1))"

definition notifyWaitingCoalescedRequests ::
  "entry_id option \<Rightarrow> 'h http_filter \<Rightarrow> 'h shared \<Rightarrow> fault + 'h shared"
where
  "notifyWaitingCoalescedRequests responseEntryPtr f s =
     bindR (wrapper_of f s) (\<lambda>w.
       Inr (upd_wrapper w (\<lambda>r. r\<lparr>shared_response_entry_m := responseEntryPtr\<rparr>) s))"

definition detachCurrentRCGroup :: "'h http_filter \<Rightarrow> 'h shared \<Rightarrow> 'h shared" where
  "detachCurrentRCGroup f s = rc_assign (request_headers_str_key_m f) None s"

fun serve_callbacks ::
  "'h envoy_api \<Rightarrow> 'h environ \<Rightarrow> callback_id list \<Rightarrow> 'h http_filter \<Rightarrow> 'h shared \<Rightarrow> ('h http_filter \<times> 'h shared) run"
where
  "serve_callbacks api env [] f s = Some (Inr (f, s))"
| "serve_callbacks api env (cb # cbs) f s =
     bindRun (serve_entry api env (getCacheEntryPtr (cache_entry_producer_m f)) cb f s)
       (\<lambda>(f1, s1). serve_callbacks api env cbs f1 s1)"

definition serveResponseToCurrentRCGroup ::
  "'h envoy_api \<Rightarrow> 'h environ \<Rightarrow> 'h http_filter \<Rightarrow> 'h shared \<Rightarrow> ('h http_filter \<times> 'h shared) run"
where
  "serveResponseToCurrentRCGroup api env f s =
     bindRun (Some (wrapper_of f s)) (\<lambda>w.
       serve_callbacks api env (waiting_decoder_callbacks_m (wrappers_m s ! w)) f s)"

section \<open>Other groups and the release of the leader\<close>

definition weak_lock :: "wrapper_id \<Rightarrow> 'h shared \<Rightarrow> wrapper_id option" where
  "weak_lock w s = (if w \<in> set (expired_m s) then None else Some w)"

definition releaseLeaderThreadIfPossible :: "'h http_filter \<Rightarrow> 'h shared \<Rightarrow> 'h shared" where
  "releaseLeaderThreadIfPossible f s =
    (if led_groups (this_thread_id_m f) s = []
     then s\<lparr>leader_threads_for_rc_m := (leader_threads_for_rc_m s)(this_thread_id_m f := None)\<rparr>
     else s)"

fun attend_groups ::
  "'h envoy_api \<Rightarrow> 'h environ \<Rightarrow> (callback_id \<times> wrapper_id) list \<Rightarrow> 'h http_filter \<Rightarrow> 'h shared \<Rightarrow>
     ('h http_filter \<times> 'h shared) run"
where
  "attend_groups api env [] f s = Some (Inr (f, s))"
| "attend_groups api env ((cb, w) # others) f s =
     bindRun (waitForResponseAndServe api env
                (f\<lparr>decoder_callbacks_m := cb, response_wrapper_rc_ptr_m := weak_lock w s\<rparr>) s)
       (\<lambda>(f1, s1). attend_groups api env others f1 s1)"

definition attendToOtherRCGroups ::
  "'h envoy_api \<Rightarrow> 'h environ \<Rightarrow> 'h http_filter \<Rightarrow> 'h shared \<Rightarrow> ('h http_filter \<times> 'h shared) run"
where
  "attendToOtherRCGroups api env f s =
    (let t = this_thread_id_m f;
         s1 = set_led_groups t (AList.delete (request_headers_str_key_m f) (led_groups t s)) s
     in bindRun (Some (wrapper_of f s1)) (\<lambda>w.
       let others = other_rc_groups_m (wrappers_m s1 ! w)
       in if others \<noteq> [] then
            if led_groups t s1 \<noteq> [] then
              let (key, w') = env_begin env (led_groups t s1)
              in if length (wrappers_m s1) \<le> w' then Some (Inl NullDeref)
                 else Some (Inr (f,
                   upd_wrapper w' (\<lambda>r. r\<lparr>other_rc_groups_m := other_rc_groups_m r @ others\<rparr>)
                     (upd_wrapper w (\<lambda>r. r\<lparr>other_rc_groups_m := []\<rparr>) s1)))
            else
              bindRun (attend_groups api env others f s1) (\<lambda>(f2, s2).
                Some (Inr (f2, releaseLeaderThreadIfPossible f2 s2)))
          else Some (Inr (f, releaseLeaderThreadIfPossible f s1))))"

section \<open>The callbacks\<close>

definition decodeHeaders ::
  "'h envoy_api \<Rightarrow> 'h environ \<Rightarrow> thread_id \<Rightarrow> request_headers \<Rightarrow> 'h http_filter \<Rightarrow> 'h shared \<Rightarrow> ('h, filter_status) act"
where
  "decodeHeaders api env thread headers f s =
    (let f1 = (createRequestHeadersStrKey headers f)\<lparr>this_thread_id_m := thread\<rparr>
     in bindRun (getThreadStatus env f1 s) (\<lambda>(threadStatus, f2, s2).
       if threadStatus = LEADER \<or> threadStatus = OTHER_GROUP_LEADER then Some (Inr (StopIteration, f2, s2))
       else if threadStatus = WAITING then
         bindRun (waitForResponseAndServe api env f2 s2) (\<lambda>(f3, s3). Some (Inr (StopIteration, f3, s3)))
       else
         bindRun (Some (at (request_headers_str_key_m f2) (cache_m s2))) (\<lambda>(responseEntryPtr, cache).
           let s3 = s2\<lparr>cache_m := cache\<rparr>
           in case responseEntryPtr of
                Some a \<Rightarrow>
                  bindRun (Some (notifyWaitingCoalescedRequests (Some a) f2 s3)) (\<lambda>s4.
                  bindRun (serve_entry api env (Some a) (decoder_callbacks_m f2) f2 s4) (\<lambda>(f5, s5).
                  bindRun (serveResponseToCurrentRCGroup api env f5 (detachCurrentRCGroup f5 s5)) (\<lambda>(f6, s6).
                  bindRun (attendToOtherRCGroups api env f6 s6) (\<lambda>(f7, s7).
                    Some (Inr (StopIteration, f7, s7))))))
              | None \<Rightarrow>
                  let (p, e) = initCacheEntry (ring_buffer_capacity_cfg (config_m f2)) (length (entries_m s3))
                                 (cache_entry_producer_m f2)
                  in Some (Inr (Continue, f2\<lparr>entry_cached_m := False, cache_entry_producer_m := p\<rparr>,
                       s3\<lparr>entries_m := entries_m s3 @ [e]\<rparr>)))))"

text \<open>A call on the producer: it works on the entry its pointer leads to.\<close>

definition produce ::
  "(producer \<Rightarrow> cache_entry \<Rightarrow> (producer \<times> cache_entry) run) \<Rightarrow> 'h http_filter \<Rightarrow> 'h shared \<Rightarrow>
     ('h http_filter \<times> 'h shared) run"
where
  "produce g f s =
    (case cache_entry_ptr_m (cache_entry_producer_m f) of
       None \<Rightarrow> Some (Inl NullDeref)
     | Some a \<Rightarrow>
         if length (entries_m s) \<le> a then Some (Inl NullDeref)
         else bindRun (g (cache_entry_producer_m f) (entries_m s ! a)) (\<lambda>(p, e).
           Some (Inr (f\<lparr>cache_entry_producer_m := p\<rparr>, s\<lparr>entries_m := (entries_m s)[a := e]\<rparr>))))"

definition encodeHeaders ::
  "'h envoy_api \<Rightarrow> 'h \<Rightarrow> bool \<Rightarrow> 'h http_filter \<Rightarrow> 'h shared \<Rightarrow> ('h, filter_status) act"
where
  "encodeHeaders api headers end_stream f s =
    (if entry_cached_m f then Some (Inr (Continue, f, s))
     else
       let write = (\<lambda>f s. bindRun (produce (writeHeaders api headers end_stream) f s)
                            (\<lambda>(f1, s1). Some (Inr (Continue, f1, s1))))
       in if is_first_headers_m f then
            let (valid, f1) = checkSuccessfulStatusCode api headers f
            in if \<not> valid then Some (Inr (StopIteration, f1, s))
               else
                 bindRun (case getCacheEntryPtr (cache_entry_producer_m f1) of
                            Some a \<Rightarrow>
                              if successful_status_code_m f1 then
                                Some (bindR (cache_insert (request_headers_str_key_m f1) a (cache_m s))
                                  (\<lambda>cache. Inr (s\<lparr>cache_m := cache\<rparr>)))
                              else Some (Inr s)
                          | None \<Rightarrow> Some (Inl NullDeref))
                   (\<lambda>s1.
                 bindRun (Some (notifyWaitingCoalescedRequests
                                  (getCacheEntryPtr (cache_entry_producer_m f1)) f1 s1)) (\<lambda>s2.
                   write (f1\<lparr>is_first_headers_m := False\<rparr>) s2))
          else write f s)"

definition encodeData :: "bytes \<Rightarrow> bool \<Rightarrow> 'h http_filter \<Rightarrow> 'h shared \<Rightarrow> ('h http_filter \<times> 'h shared) run" where
  "encodeData data end_stream f s =
    (if entry_cached_m f then Some (Inr (f, s))
     else
       bindRun (if is_first_data_m f then
                  bindRun (produce (\<lambda>p e. Some (Inr (headersWriteComplete p e))) f s) (\<lambda>(f1, s1).
                    Some (Inr (f1\<lparr>is_first_data_m := False\<rparr>, s1)))
                else Some (Inr (f, s)))
         (\<lambda>(f1, s1). produce (writeData data end_stream) f1 s1))"

definition encodeTrailers :: "'h envoy_api \<Rightarrow> 'h \<Rightarrow> 'h http_filter \<Rightarrow> 'h shared \<Rightarrow> ('h http_filter \<times> 'h shared) run" where
  "encodeTrailers api trailers f s =
    (if entry_cached_m f then Some (Inr (f, s))
     else
       bindRun (if is_first_trailers_m f then
                  bindRun (produce (\<lambda>p e. Some (Inr (dataWriteComplete p e))) f s) (\<lambda>(f1, s1).
                    Some (Inr (f1\<lparr>is_first_trailers_m := False\<rparr>, s1)))
                else Some (Inr (f, s)))
         (\<lambda>(f1, s1). produce (writeTrailers api trailers) f1 s1))"

definition encodeComplete :: "'h envoy_api \<Rightarrow> 'h environ \<Rightarrow> 'h http_filter \<Rightarrow> 'h shared \<Rightarrow> ('h http_filter \<times> 'h shared) run" where
  "encodeComplete api env f s =
    (if entry_cached_m f then Some (Inr (f, s))
     else
       bindRun (produce (\<lambda>p e. Some (writeComplete p e)) f s) (\<lambda>(f1, s1).
       bindRun (serveResponseToCurrentRCGroup api env f1 (detachCurrentRCGroup f1 s1)) (\<lambda>(f2, s2).
         attendToOtherRCGroups api env f2 s2)))"

end
