(* ===== verification/Coalescing.thy ===== *)
theory Coalescing
  imports Http_Cache_Filter
begin

text \<open>
  Facts about the filter's callbacks: the cache key, the status code, the groups of coalesced
  requests with the invariant \<open>rc_inv\<close> (one leader thread per group, recorded in both maps), and
  what reaches the decoder callbacks on a cache hit and at the end of a response.
\<close>

section \<open>Status codes\<close>

lemma is_digit_facts:
  assumes "is_digit c"
  shows "\<not> is_space c" "c \<noteq> CHR ''-''" "c \<noteq> CHR ''+''"
  using assms by (auto simp: is_digit_def is_space_def)

lemma digits_value_nonneg:
  assumes "\<forall>c \<in> set ds. is_digit c"
  shows "0 \<le> digits_value ds"
proof -
  have "0 \<le> n \<Longrightarrow> \<forall>c \<in> set xs. is_digit c \<Longrightarrow> 0 \<le> foldl (\<lambda>n c. 10 * n + (of_char c - 48)) n xs" for n :: int and xs
  proof (induction xs arbitrary: n)
    case (Cons x xs)
    have "(48 :: int) \<le> of_char x"
      using Cons.prems(2) by (simp add: is_digit_def) (metis of_nat_le_iff of_nat_numeral of_nat_of_char)
    with Cons show ?case by simp
  qed simp
  from this [of 0 ds] show ?thesis using assms by (simp add: digits_value_def)
qed

lemma stoi_digits:
  assumes "ds \<noteq> []" and "\<forall>c \<in> set ds. is_digit c" and "digits_value ds \<le> 2147483647"
  shows "stoi ds = Some (digits_value ds)"
proof -
  obtain c cs where ds: "ds = c # cs" using assms(1) by (cases ds) auto
  have c: "is_digit c" using assms(2) by (simp add: ds)
  have "dropWhile is_space ds = ds" using is_digit_facts [OF c] by (simp add: ds)
  moreover have tw: "takeWhile is_digit cs = cs" using assms(2) by (simp add: takeWhile_eq_all_conv ds)
  moreover have "0 \<le> digits_value ds" using assms(2) by (rule digits_value_nonneg)
  ultimately show ?thesis
    using assms c is_digit_facts [OF c] by (simp add: stoi_def Let_def ds tw)
qed

lemma status_word:
  assumes "0 \<le> v"
  shows "(word_of_int v :: 16 word) < 200 \<longleftrightarrow> v mod 65536 < 200" "(word_of_int v :: 16 word) \<ge> 300 \<longleftrightarrow> v mod 65536 \<ge> 300"
proof -
  have u: "uint (word_of_int v :: 16 word) = v mod 65536" by (simp add: uint_word_of_int)
  show "(word_of_int v :: 16 word) < 200 \<longleftrightarrow> v mod 65536 < 200" by (simp add: word_less_alt u)
  show "(word_of_int v :: 16 word) \<ge> 300 \<longleftrightarrow> v mod 65536 \<ge> 300" by (simp add: word_le_def u)
qed

lemma check_digits:
  assumes "hm_status api h = ds" and "ds \<noteq> []" and "\<forall>c \<in> set ds. is_digit c" and "digits_value ds \<le> 2147483647"
    and "0 \<le> digits_value ds"
  shows "checkSuccessfulStatusCode api h f = (True, f\<lparr>successful_status_code_m :=
    (successful_status_code_m f \<and> 200 \<le> digits_value ds mod 65536 \<and> digits_value ds mod 65536 < 300)\<rparr>)"
  using stoi_digits [OF assms(2-4)] status_word [OF assms(5)] assms(1)
  by (auto simp: checkSuccessfulStatusCode_def Let_def not_less)

section \<open>The groups\<close>

definition group_of :: "bytes \<Rightarrow> 'h shared \<Rightarrow> wrapper_id option" where
  "group_of key s = (case coalesced_requests_m s key of Some (Some w) \<Rightarrow> Some w | _ \<Rightarrow> None)"

lemma group_of_Some: "group_of key s = Some w \<longleftrightarrow> coalesced_requests_m s key = Some (Some w)"
  by (auto simp: group_of_def split: option.splits)

text \<open>\<^verbatim>\<open>begin()\<close> is some element of the map.\<close>

definition begin_ok :: "'h environ \<Rightarrow> bool" where
  "begin_ok env \<longleftrightarrow> (\<forall>gs. gs \<noteq> [] \<longrightarrow> env_begin env gs \<in> set gs)"

definition rc_inv_on :: "thread_id set \<Rightarrow> 'h shared \<Rightarrow> bool" where
  "rc_inv_on B s \<longleftrightarrow>
    (\<forall>key w. group_of key s = Some w \<longrightarrow> w < length (wrappers_m s)
       \<and> (key, w) \<in> set (led_groups (leader_thread_id_m (wrappers_m s ! w)) s))
    \<and> (\<forall>t. t \<notin> B \<longrightarrow> leader_threads_for_rc_m s t \<noteq> Some [])
    \<and> (\<forall>t. distinct (map fst (led_groups t s)))
    \<and> (\<forall>t key w. (key, w) \<in> set (led_groups t s) \<longrightarrow> group_of key s = Some w \<and> w < length (wrappers_m s)
         \<and> leader_thread_id_m (wrappers_m s ! w) = t)
    \<and> (\<forall>k k' w. group_of k s = Some w \<longrightarrow> group_of k' s = Some w \<longrightarrow> k = k')"

abbreviation rc_inv :: "'h shared \<Rightarrow> bool" where
  "rc_inv \<equiv> rc_inv_on {}"

lemma rc_invD:
  assumes "rc_inv_on B s"
  shows "group_of key s = Some w \<Longrightarrow> w < length (wrappers_m s)
      \<and> (key, w) \<in> set (led_groups (leader_thread_id_m (wrappers_m s ! w)) s)"
    "(key, w) \<in> set (led_groups t s) \<Longrightarrow> group_of key s = Some w \<and> w < length (wrappers_m s)
      \<and> leader_thread_id_m (wrappers_m s ! w) = t"
    "distinct (map fst (led_groups t s))"
    "t \<notin> B \<Longrightarrow> leader_threads_for_rc_m s t \<noteq> Some []"
    "group_of k s = Some w \<Longrightarrow> group_of k' s = Some w \<Longrightarrow> k = k'"
  using assms unfolding rc_inv_on_def by blast+

lemma led_groups_upd [simp]:
  "led_groups t (upd_wrapper w g s) = led_groups t s"
  "led_groups t (rc_assign key v s) = led_groups t s"
  "led_groups t (set_led_groups t' gs s) = (if t = t' then gs else led_groups t s)"
  by (simp_all add: led_groups_def upd_wrapper_def rc_assign_def set_led_groups_def)

lemma group_of_upd [simp]:
  "group_of key (upd_wrapper w g s) = group_of key s"
  "group_of key (rc_assign key' v s) = (if key = key' then v else group_of key s)"
  "group_of key (set_led_groups t gs s) = group_of key s"
  by (simp_all add: group_of_def upd_wrapper_def rc_assign_def set_led_groups_def split: option.split)

lemma rc_inv_upd_wrapper:
  assumes "rc_inv_on B s" and "\<And>r. leader_thread_id_m (g r) = leader_thread_id_m r"
  shows "rc_inv_on B (upd_wrapper w g s)"
proof -
  have l: "leader_thread_id_m (wrappers_m (upd_wrapper w g s) ! x) = leader_thread_id_m (wrappers_m s ! x)" for x
    using assms(2) by (cases "w < length (wrappers_m s)") (simp_all add: upd_wrapper_def nth_list_update list_update_beyond)
  have n: "length (wrappers_m (upd_wrapper w g s)) = length (wrappers_m s)"
    "leader_threads_for_rc_m (upd_wrapper w g s) = leader_threads_for_rc_m s"
    by (simp_all add: upd_wrapper_def)
  show ?thesis using assms(1) by (simp add: rc_inv_on_def l n)
qed

lemma upd_same_leader:
  assumes "\<And>r. leader_thread_id_m (g r) = leader_thread_id_m r" and "w < length (wrappers_m s)"
  shows "leader_thread_id_m (wrappers_m (upd_wrapper v g s) ! w) = leader_thread_id_m (wrappers_m s ! w)"
  using assms by (cases "v = w") (simp_all add: upd_wrapper_def)

lemma wrappers_append [simp]:
  "group_of k (s\<lparr>wrappers_m := ws\<rparr>) = group_of k s" "led_groups t (s\<lparr>wrappers_m := ws\<rparr>) = led_groups t s"
  by (simp_all add: group_of_def led_groups_def)

lemma upd_wrapper_frame [simp]:
  "cache_m (upd_wrapper w g s) = cache_m s" "entries_m (upd_wrapper w g s) = entries_m s"
  "statics_m (upd_wrapper w g s) = statics_m s" "delivered_m (upd_wrapper w g s) = delivered_m s"
  "clock_m (upd_wrapper w g s) = clock_m s" "expired_m (upd_wrapper w g s) = expired_m s"
  "leader_threads_for_rc_m (upd_wrapper w g s) = leader_threads_for_rc_m s"
  "length (wrappers_m (upd_wrapper w g s)) = length (wrappers_m s)"
  by (simp_all add: upd_wrapper_def)

lemma rc_inv_initial: "rc_inv initial_shared"
  by (simp add: rc_inv_on_def initial_shared_def group_of_def led_groups_def)

lemma rc_index_group:
  "fst (rc_index key s) = group_of key s" "wrappers_m (snd (rc_index key s)) = wrappers_m s"
  "leader_threads_for_rc_m (snd (rc_index key s)) = leader_threads_for_rc_m s"
  "group_of k (snd (rc_index key s)) = group_of k s"
  "led_groups t (snd (rc_index key s)) = led_groups t s"
  by (auto simp: rc_index_def group_of_def led_groups_def split: option.splits)

lemma rc_inv_index: "rc_inv_on B s \<Longrightarrow> rc_inv_on B (snd (rc_index key s))"
  by (simp add: rc_inv_on_def rc_index_group)


section \<open>The status of a thread\<close>

text \<open>
  What \<^verbatim>\<open>getThreadStatus\<close> decides, and what it records for a request that does not wait: the
  callbacks go to the waiting list of the group, or to the other-groups list of a group that the
  thread leads.
\<close>

definition classify :: "thread_id \<Rightarrow> bytes \<Rightarrow> 'h shared \<Rightarrow> thread_status" where
  "classify t key s =
    (case group_of key s of
       None \<Rightarrow> INITIAL_LEADER
     | Some w \<Rightarrow> if leader_thread_id_m (wrappers_m s ! w) = t then LEADER
                 else if led_groups t s \<noteq> [] then OTHER_GROUP_LEADER else WAITING)"

lemma alist_update_absent: "key \<notin> fst ` set xs \<Longrightarrow> AList.update key v xs = xs @ [(key, v)]"
  by (induction xs) auto

lemma rc_inv_found_group:
  assumes inv: "rc_inv_on B s" and new: "group_of key s = None" and w: "w = length (wrappers_m s)"
  shows "rc_inv_on B (set_led_groups t (AList.update key w (led_groups t s))
    (rc_assign key (Some w) (s\<lparr>wrappers_m := wrappers_m s @
       [\<lparr>leader_thread_id_m = t, waiting_decoder_callbacks_m = [], shared_response_entry_m = None,
         other_rc_groups_m = []\<rparr>]\<rparr>)))"
  (is "rc_inv_on B ?s'")
proof -
  have nokey: "key \<notin> fst ` set (led_groups t' s)" for t'
    using rc_invD(2) [OF inv] new by fastforce
  have upd: "set (AList.update key w (led_groups t s)) = insert (key, w) (set (led_groups t s))"
    using alist_update_absent [OF nokey [of t]] by auto
  have g: "group_of k ?s' = (if k = key then Some w else group_of k s)" for k
    by (simp add: group_of_def rc_assign_def set_led_groups_def)
  have l: "led_groups t' ?s' = (if t' = t then AList.update key w (led_groups t s) else led_groups t' s)" for t'
    by (simp add: led_groups_def rc_assign_def set_led_groups_def)
  have wr: "length (wrappers_m ?s') = Suc (length (wrappers_m s))"
    "x < length (wrappers_m s) \<Longrightarrow> wrappers_m ?s' ! x = wrappers_m s ! x"
    "leader_thread_id_m (wrappers_m ?s' ! w) = t" for x
    by (simp_all add: rc_assign_def set_led_groups_def nth_append w)
  show ?thesis
    unfolding rc_inv_on_def
  proof (intro conjI allI impI)
    fix k v assume "group_of k ?s' = Some v"
    then have k: "if k = key then v = w else group_of k s = Some v" by (auto simp: g split: if_splits)
    show "v < length (wrappers_m ?s')"
      unfolding wr(1) using k rc_invD(1) [OF inv, of k v] by (auto simp: w split: if_splits)
    show "(k, v) \<in> set (led_groups (leader_thread_id_m (wrappers_m ?s' ! v)) ?s')"
      using k rc_invD(1) [OF inv, of k v] by (auto simp: wr l upd split: if_splits)
  next
    fix t' assume "t' \<notin> B"
    then show "leader_threads_for_rc_m ?s' t' \<noteq> Some []"
      using rc_invD(4) [OF inv, of t'] by (auto simp: set_led_groups_def rc_assign_def update_nonempty)
  next
    fix t' show "distinct (map fst (led_groups t' ?s'))"
      using rc_invD(3) [OF inv] by (auto simp: l distinct_update)
  next
    fix t' k v assume kv: "(k, v) \<in> set (led_groups t' ?s')"
    then have c: "k = key \<and> v = w \<and> t' = t \<or> (k, v) \<in> set (led_groups t' s)" by (auto simp: l upd split: if_splits)
    then show "group_of k ?s' = Some v" using rc_invD(2) [OF inv, of k v t'] new by (auto simp: g)
    show "v < length (wrappers_m ?s')"
      unfolding wr(1) using c rc_invD(2) [OF inv, of k v t'] by (auto simp: w)
    show "leader_thread_id_m (wrappers_m ?s' ! v) = t'" using c rc_invD(2) [OF inv, of k v t'] wr by auto
  next
    fix k k' v assume "group_of k ?s' = Some v" "group_of k' ?s' = Some v"
    then show "k = k'"
      using rc_invD(5) [OF inv, of k v k'] rc_invD(1) [OF inv, of k v] rc_invD(1) [OF inv, of k' v]
      by (auto simp: g w split: if_splits)
  qed
qed


text \<open>
  \<^verbatim>\<open>getThreadStatus\<close> never faults under the invariant, decides by \<open>classify\<close>, points the filter to
  the wrapper of its group, and keeps the invariant; only a new leader adds a group.
\<close>

lemma not_in_empty: "x \<notin> {}"
  by simp

lemma getThreadStatus_ok:
  fixes f :: "'h http_filter"
  assumes inv: "rc_inv_on B s" and env: "begin_ok env" and free: "this_thread_id_m f \<notin> B"
  defines "t \<equiv> this_thread_id_m f" and "key \<equiv> request_headers_str_key_m f"
  shows "\<exists>s' w. getThreadStatus env f s = Some (Inr (classify t key s, f\<lparr>response_wrapper_rc_ptr_m := Some w\<rparr>, s'))
    \<and> rc_inv_on B s' \<and> group_of key s' = Some w
    \<and> (\<forall>k. k \<noteq> key \<longrightarrow> group_of k s' = group_of k s) \<and> (\<forall>t'. t' \<noteq> t \<longrightarrow> led_groups t' s' = led_groups t' s)
    \<and> cache_m s' = cache_m s \<and> entries_m s' = entries_m s \<and> statics_m s' = statics_m s
    \<and> delivered_m s' = delivered_m s \<and> clock_m s' = clock_m s \<and> expired_m s' = expired_m s
    \<and> (classify t key s = INITIAL_LEADER \<longrightarrow> w = length (wrappers_m s) \<and> wrappers_m s' = wrappers_m s @
         [\<lparr>leader_thread_id_m = t, waiting_decoder_callbacks_m = [], shared_response_entry_m = None,
           other_rc_groups_m = []\<rparr>] \<and> led_groups t s' = led_groups t s @ [(key, w)])
    \<and> (classify t key s = LEADER \<longrightarrow> s' = upd_wrapper w (\<lambda>r. r\<lparr>waiting_decoder_callbacks_m :=
         waiting_decoder_callbacks_m r @ [decoder_callbacks_m f]\<rparr>) s)
    \<and> (classify t key s = OTHER_GROUP_LEADER \<longrightarrow> (\<exists>k' w'. (k', w') \<in> set (led_groups t s)
         \<and> s' = upd_wrapper w' (\<lambda>r. r\<lparr>other_rc_groups_m := other_rc_groups_m r @ [(decoder_callbacks_m f, w)]\<rparr>) s))
    \<and> (classify t key s = WAITING \<longrightarrow> s' = s)"
proof (cases "group_of key s")
  case None
  let ?w = "length (wrappers_m s)"
  obtain s1 where ri: "rc_index key s = (None, s1)"
    using rc_index_group(1) [of key s] None by (cases "rc_index key s") simp
  have s1: "wrappers_m s1 = wrappers_m s" "group_of k s1 = group_of k s" "led_groups t' s1 = led_groups t' s"
    "rc_inv_on B s1" for k t'
    using rc_index_group(2,4,5) [where key = key and s = s] rc_inv_index [OF inv, of key] by (simp_all add: ri)
  have fr: "cache_m s1 = cache_m s" "entries_m s1 = entries_m s" "statics_m s1 = statics_m s"
    "delivered_m s1 = delivered_m s" "clock_m s1 = clock_m s" "expired_m s1 = expired_m s"
    using ri by (auto simp: rc_index_def split: option.splits)
  let ?s' = "set_led_groups t (AList.update key ?w (led_groups t s1)) (rc_assign key (Some ?w)
      (s1\<lparr>wrappers_m := wrappers_m s1 @ [\<lparr>leader_thread_id_m = t, waiting_decoder_callbacks_m = [],
        shared_response_entry_m = None, other_rc_groups_m = []\<rparr>]\<rparr>))"
  have cl: "classify t key s = INITIAL_LEADER" using None by (simp add: classify_def)
  have g: "getThreadStatus env f s = Some (Inr (INITIAL_LEADER, f\<lparr>response_wrapper_rc_ptr_m := Some ?w\<rparr>, ?s'))"
    unfolding getThreadStatus_def Let_def t_def [symmetric] key_def [symmetric] ri
    by (simp add: s1)
  have "key \<notin> fst ` set (led_groups t s)" using rc_invD(2) [OF inv] None by fastforce
  then have led: "led_groups t ?s' = led_groups t s @ [(key, ?w)]" by (simp add: s1 alist_update_absent)
  have "rc_inv_on B ?s'"
    by (rule rc_inv_found_group [OF s1(4)]) (simp_all add: s1 None)
  moreover have "cache_m ?s' = cache_m s" "entries_m ?s' = entries_m s" "statics_m ?s' = statics_m s"
    "delivered_m ?s' = delivered_m s" "clock_m ?s' = clock_m s" "expired_m ?s' = expired_m s"
    by (simp_all add: set_led_groups_def rc_assign_def fr)
  moreover have "wrappers_m ?s' = wrappers_m s @ [\<lparr>leader_thread_id_m = t, waiting_decoder_callbacks_m = [],
      shared_response_entry_m = None, other_rc_groups_m = []\<rparr>]"
    by (simp add: set_led_groups_def rc_assign_def s1)
  moreover have "group_of key ?s' = Some ?w" "\<And>k. k \<noteq> key \<Longrightarrow> group_of k ?s' = group_of k s"
    "\<And>t'. t' \<noteq> t \<Longrightarrow> led_groups t' ?s' = led_groups t' s" by (simp_all add: s1)
  ultimately show ?thesis using g led cl by (intro exI [of _ ?s'] exI [of _ ?w]) simp
next
  case (Some w)
  let ?f = "f\<lparr>response_wrapper_rc_ptr_m := Some w\<rparr>"
  have ri: "rc_index key s = (Some w, s)" using Some by (simp add: rc_index_def group_of_Some)
  have w: "w < length (wrappers_m s)" "(key, w) \<in> set (led_groups (leader_thread_id_m (wrappers_m s ! w)) s)"
    using rc_invD(1) [OF inv Some] by simp_all
  have wr: "wrapper_of ?f s = Inr w" using w by (simp add: wrapper_of_def)
  note unf = getThreadStatus_def Let_def t_def [symmetric] key_def [symmetric] ri
  show ?thesis
  proof (cases "leader_thread_id_m (wrappers_m s ! w) = t")
    case True
    let ?s' = "upd_wrapper w (\<lambda>r. r\<lparr>waiting_decoder_callbacks_m := waiting_decoder_callbacks_m r @ [decoder_callbacks_m f]\<rparr>) s"
    have "getThreadStatus env f s = Some (Inr (LEADER, ?f, ?s'))"
      unfolding unf using True wr by (simp add: t_def)
    moreover have "rc_inv_on B ?s'" by (rule rc_inv_upd_wrapper [OF inv]) simp
    moreover have "classify t key s = LEADER" using Some True by (simp add: classify_def)
    ultimately show ?thesis using Some
      by (intro exI [of _ ?s'] exI [of _ w]) simp
  next
    case other: False
    show ?thesis
    proof (cases "leader_threads_for_rc_m s t")
      case None
      then have "isLeaderOfOtherRCGroup env ?f s = Inr (False, s)" by (simp add: isLeaderOfOtherRCGroup_def t_def)
      then have "getThreadStatus env f s = Some (Inr (WAITING, ?f, s))"
        unfolding unf using other wr by (simp add: t_def)
      moreover have "classify t key s = WAITING" using Some other None by (simp add: classify_def led_groups_def)
      ultimately show ?thesis using Some inv by (intro exI [of _ s] exI [of _ w]) simp
    next
      case (Some gs)
      then have gs: "gs \<noteq> []" "led_groups t s = gs" using rc_invD(4) [OF inv, of t] free by (auto simp: t_def led_groups_def) 
      obtain k' w' where b: "env_begin env gs = (k', w')" by (cases "env_begin env gs")
      have in_gs: "(k', w') \<in> set gs" using env gs(1) b unfolding begin_ok_def by metis
      then have w': "w' < length (wrappers_m s)" using rc_invD(2) [OF inv, of k' w' t] gs(2) by simp
      let ?s' = "upd_wrapper w' (\<lambda>r. r\<lparr>other_rc_groups_m := other_rc_groups_m r @ [(decoder_callbacks_m f, w)]\<rparr>) s"
      have "isLeaderOfOtherRCGroup env ?f s = Inr (True, ?s')"
        using Some gs(1) wr b w' by (simp add: isLeaderOfOtherRCGroup_def t_def)
      then have "getThreadStatus env f s = Some (Inr (OTHER_GROUP_LEADER, ?f, ?s'))"
        unfolding unf using other wr by (simp add: t_def)
      moreover have "classify t key s = OTHER_GROUP_LEADER"
        using \<open>group_of key s = Some w\<close> other gs by (simp add: classify_def)
      moreover have "rc_inv_on B ?s'" by (rule rc_inv_upd_wrapper [OF inv]) simp
      ultimately show ?thesis using \<open>group_of key s = Some w\<close> in_gs gs(2)
        by (intro exI [of _ ?s'] exI [of _ w]) (simp, blast)
    qed
  qed
qed


section \<open>Serving a finished entry\<close>

text \<open>While a finished entry is read, the other threads only read it.\<close>

definition quiet :: "'h environ \<Rightarrow> bool" where
  "quiet env \<longleftrightarrow> (\<forall>n e. entry_wf e \<longrightarrow> same_content e (env_read env n e))"

definition finished :: "'h envoy_api \<Rightarrow> 'h response \<Rightarrow> cache_entry \<Rightarrow> bool" where
  "finished api resp e \<longleftrightarrow> 0 < entry_cap e
     \<and> partial_of (resp_final api (single_buffer_blocks_capacity_m e) resp) e
     \<and> complete_of (resp_final api (single_buffer_blocks_capacity_m e) resp) e"

definition statics_ok :: "'h shared \<Rightarrow> bool" where
  "statics_ok s \<longleftrightarrow> block_with_ones_m (statics_m s) = end_block"

lemma finished_same: "finished api resp e \<Longrightarrow> same_content e e' \<Longrightarrow> finished api resp e'"
  by (simp add: finished_def same_content_def partial_of_def complete_of_def)

lemma quiet_follows: "quiet env \<Longrightarrow> entry_wf e \<Longrightarrow> follows (\<lambda>_. e) (env_read env)"
  unfolding quiet_def follows_def using same_content_trans by (fastforce simp: same_content_def)

lemma serve_entry_ok:
  assumes fin: "finished api resp (entries_m s ! a)" and a: "a < length (entries_m s)"
    and env: "quiet env" and k: "consumer_idle (cache_entry_consumer_m f)" and st: "statics_ok s"
    and ok: "resp_ok api resp" "drains api"
  shows "\<exists>k' e' n'. serve_entry api env (Some a) cb f s = Some (Inr (f\<lparr>cache_entry_consumer_m := k'\<rparr>,
      s\<lparr>entries_m := (entries_m s)[a := e'], delivered_m := delivered_m s @ [(cb, resp_events api resp)],
        clock_m := n'\<rparr>)) \<and> consumer_idle k' \<and> same_content (entries_m s ! a) e'"
proof -
  let ?e = "entries_m s ! a"
  let ?F = "resp_final api (single_buffer_blocks_capacity_m ?e) resp"
  have F: "0 < unat (fe_cap ?F)" "partial_of ?F ?e" "complete_of ?F ?e"
    using fin by (simp_all add: finished_def) (simp add: resp_final_def)
  have S: "schedule ?F 0 (\<lambda>_. ?e)" by (rule schedule_const [OF F])
  have wf: "entry_wf ?e" using F(2) by (simp add: partial_of_def)
  have "world_ok (\<lambda>_. ?e) (clock_m s, ?e)" using wf by (simp add: world_ok_def same_content_refl)
  from serve_streams [OF S quiet_follows [OF env wf] this k ok] obtain k' n' e' where
    "serveCachedResponse api end_block (env_read env) a cb (cache_entry_consumer_m f) (clock_m s, ?e)
      = Some (Inr (k', (n', e'), resp_events api resp))" "world_ok (\<lambda>_. ?e) (n', e')" "consumer_idle k'"
    by (metis surj_pair)
  then show ?thesis using a st by (auto simp: serve_entry_def statics_ok_def world_ok_def)
qed

lemma serve_callbacks_ok:
  assumes "finished api resp (entries_m s ! a)" and "a < length (entries_m s)"
    and env: "quiet env" and "consumer_idle (cache_entry_consumer_m f)" and "statics_ok s"
    and ok: "resp_ok api resp" "drains api" and "cache_entry_ptr_m (cache_entry_producer_m f) = Some a"
  shows "\<exists>k' e' n'. serve_callbacks api env cbs f s = Some (Inr (f\<lparr>cache_entry_consumer_m := k'\<rparr>,
      s\<lparr>entries_m := (entries_m s)[a := e'],
        delivered_m := delivered_m s @ map (\<lambda>cb. (cb, resp_events api resp)) cbs,
        clock_m := n'\<rparr>)) \<and> consumer_idle k' \<and> same_content (entries_m s ! a) e'"
  using assms(1,2,4,5,8)
proof (induction cbs arbitrary: f s)
  case Nil
  have "f\<lparr>cache_entry_consumer_m := cache_entry_consumer_m f\<rparr> = f" by simp
  moreover have "s\<lparr>entries_m := (entries_m s)[a := entries_m s ! a], delivered_m := delivered_m s, clock_m := clock_m s\<rparr> = s"
    by simp
  moreover have "same_content (entries_m s ! a) (entries_m s ! a)"
    using Nil.prems(1) by (simp add: same_content_refl finished_def partial_of_def)
  ultimately show ?case using Nil.prems(3) by (metis append_Nil2 concat.simps(1) list.map(1) serve_callbacks.simps(1))
next
  case (Cons cb cbs)
  from serve_entry_ok [OF Cons.prems(1,2) env Cons.prems(3,4) ok, of cb] obtain k1 e1 n1 where
    1: "serve_entry api env (Some a) cb f s = Some (Inr (f\<lparr>cache_entry_consumer_m := k1\<rparr>,
      s\<lparr>entries_m := (entries_m s)[a := e1], delivered_m := delivered_m s @ [(cb, resp_events api resp)],
        clock_m := n1\<rparr>))" "consumer_idle k1" "same_content (entries_m s ! a) e1" by blast
  let ?f1 = "f\<lparr>cache_entry_consumer_m := k1\<rparr>"
  let ?s1 = "s\<lparr>entries_m := (entries_m s)[a := e1], delivered_m := delivered_m s @ [(cb, resp_events api resp)],
        clock_m := n1\<rparr>"
  have fin1: "finished api resp (entries_m ?s1 ! a)" using finished_same [OF Cons.prems(1) 1(3)] Cons.prems(2) by simp
  have p: "a < length (entries_m ?s1)" "consumer_idle (cache_entry_consumer_m ?f1)" "statics_ok ?s1"
    "cache_entry_ptr_m (cache_entry_producer_m ?f1) = Some a"
    using Cons.prems 1(2) by (simp_all add: statics_ok_def)
  from Cons.IH [OF fin1 p] obtain k2 e2 n2 where
    2: "serve_callbacks api env cbs ?f1 ?s1 = Some (Inr (?f1\<lparr>cache_entry_consumer_m := k2\<rparr>,
      ?s1\<lparr>entries_m := (entries_m ?s1)[a := e2],
        delivered_m := delivered_m ?s1 @ map (\<lambda>cb. (cb, resp_events api resp)) cbs,
        clock_m := n2\<rparr>))" "consumer_idle k2" "same_content (entries_m ?s1 ! a) e2"
    by blast
  have "same_content (entries_m s ! a) e2" using same_content_trans [OF 1(3)] 2(3) Cons.prems(2) by simp
  then show ?case using 1(1) 2(1,2) Cons.prems(5)
    by (intro exI [of _ k2] exI [of _ e2] exI [of _ n2]) (simp add: getCacheEntryPtr_def)
qed

section \<open>Leaving the groups\<close>

lemma alist_delete_set: "set (AList.delete key xs) = {(k, v) \<in> set xs. k \<noteq> key}"
  by (auto simp: AList.delete_eq)

text \<open>After \<^verbatim>\<open>detachCurrentRCGroup\<close> and the first step of \<^verbatim>\<open>attendToOtherRCGroups\<close> the group is gone.\<close>

definition leave_group :: "thread_id \<Rightarrow> bytes \<Rightarrow> 'h shared \<Rightarrow> 'h shared" where
  "leave_group t key s = set_led_groups t (AList.delete key (led_groups t s)) (rc_assign key None s)"

definition release :: "thread_id \<Rightarrow> 'h shared \<Rightarrow> 'h shared" where
  "release t s = (if led_groups t s = []
     then s\<lparr>leader_threads_for_rc_m := (leader_threads_for_rc_m s)(t := None)\<rparr> else s)"

lemma release_eq: "releaseLeaderThreadIfPossible f s = release (this_thread_id_m f) s"
  by (simp add: releaseLeaderThreadIfPossible_def release_def)

lemma release_facts:
  "group_of key (release t s) = group_of key s" "led_groups t' (release t s) = led_groups t' s"
  "wrappers_m (release t s) = wrappers_m s" "leader_threads_for_rc_m (release t s) t \<noteq> Some []"
  "t' \<noteq> t \<Longrightarrow> leader_threads_for_rc_m (release t s) t' = leader_threads_for_rc_m s t'"
  by (auto simp: release_def group_of_def led_groups_def split: option.splits)

lemma rc_inv_leave:
  assumes inv: "rc_inv_on B s" and w: "group_of key s = Some w" "leader_thread_id_m (wrappers_m s ! w) = t"
  shows "rc_inv_on B (release t (leave_group t key s))"
proof -
  let ?s = "release t (leave_group t key s)"
  have g: "group_of k ?s = (if k = key then None else group_of k s)" for k
    by (simp add: release_facts leave_group_def)
  have l: "led_groups t' ?s = (if t' = t then AList.delete key (led_groups t s) else led_groups t' s)" for t'
    by (simp add: release_facts leave_group_def)
  have wr: "wrappers_m ?s = wrappers_m s"
    by (simp add: release_facts) (simp add: leave_group_def set_led_groups_def rc_assign_def)
  have only: "t' = t" if "(key, v) \<in> set (led_groups t' s)" for t' v
    using rc_invD(2) [OF inv that] w by simp
  show ?thesis
    unfolding rc_inv_on_def
  proof (intro conjI allI impI)
    fix k v assume "group_of k ?s = Some v"
    then have k: "k \<noteq> key" "group_of k s = Some v" by (auto simp: g split: if_splits)
    show "v < length (wrappers_m ?s)" using rc_invD(1) [OF inv k(2)] by (simp add: wr)
    show "(k, v) \<in> set (led_groups (leader_thread_id_m (wrappers_m ?s ! v)) ?s)"
      using rc_invD(1) [OF inv k(2)] k(1) by (auto simp: wr l alist_delete_set)
  next
    fix t' assume "t' \<notin> B"
    then show "leader_threads_for_rc_m ?s t' \<noteq> Some []"
      using rc_invD(4) [OF inv, of t']
      by (cases "t' = t") (simp_all add: release_facts, simp add: leave_group_def set_led_groups_def rc_assign_def)
  next
    fix t' show "distinct (map fst (led_groups t' ?s))"
      using rc_invD(3) [OF inv] by (auto simp: l AList.distinct_delete)
  next
    fix t' k v assume "(k, v) \<in> set (led_groups t' ?s)"
    then have kv: "(k, v) \<in> set (led_groups t' s)" "k \<noteq> key"
      using only by (auto simp: l alist_delete_set split: if_splits)
    show "group_of k ?s = Some v" "v < length (wrappers_m ?s)" "leader_thread_id_m (wrappers_m ?s ! v) = t'"
      using rc_invD(2) [OF inv kv(1)] kv(2) by (simp_all add: g wr)
  next
    fix k k' v assume "group_of k ?s = Some v" "group_of k' ?s = Some v"
    then show "k = k'" using rc_invD(5) [OF inv, of k v k'] by (auto simp: g split: if_splits)
  qed
qed


section \<open>A whole response through the filter\<close>

text \<open>The calls Envoy makes on the encoder side of a filter, for a response in pieces.\<close>

datatype 'h upstream = UpHeaders 'h bool | UpData bytes bool | UpTrailers 'h | UpComplete

fun upstream_call :: "'h envoy_api \<Rightarrow> 'h environ \<Rightarrow> 'h upstream \<Rightarrow> 'h http_filter \<times> 'h shared \<Rightarrow>
    ('h http_filter \<times> 'h shared) run" where
  "upstream_call api env (UpHeaders h fin) (f, s) =
     bindRun (encodeHeaders api h fin f s) (\<lambda>(_, f1, s1). Some (Inr (f1, s1)))"
| "upstream_call api env (UpData d fin) (f, s) = encodeData d fin f s"
| "upstream_call api env (UpTrailers t) (f, s) = encodeTrailers api t f s"
| "upstream_call api env UpComplete (f, s) = encodeComplete api env f s"

fun upstream_run :: "'h envoy_api \<Rightarrow> 'h environ \<Rightarrow> 'h upstream list \<Rightarrow> 'h http_filter \<times> 'h shared \<Rightarrow>
    ('h http_filter \<times> 'h shared) run" where
  "upstream_run api env [] x = Some (Inr x)"
| "upstream_run api env (c # cs) x = bindRun (upstream_call api env c x) (upstream_run api env cs)"

fun data_calls :: "bytes list \<Rightarrow> bool \<Rightarrow> 'h upstream list" where
  "data_calls [] fin = []"
| "data_calls (d # ds) fin = UpData d (fin \<and> ds = []) # data_calls ds fin"

definition front_calls :: "'h response \<Rightarrow> 'h upstream list" where
  "front_calls resp =
     UpHeaders (resp_headers resp) (headers_only resp) # data_calls (resp_body resp) (resp_trailers resp = None)
     @ (case resp_trailers resp of None \<Rightarrow> [] | Some t \<Rightarrow> [UpTrailers t])"

definition upstream_calls :: "'h response \<Rightarrow> 'h upstream list" where
  "upstream_calls resp = front_calls resp @ [UpComplete]"

lemma upstream_run_append:
  "upstream_run api env (cs @ cs') x = bindRun (upstream_run api env cs x) (upstream_run api env cs')"
proof (induction cs arbitrary: x)
  case (Cons c cs)
  then have "upstream_run api env (cs @ cs') = (\<lambda>x. bindRun (upstream_run api env cs x) (upstream_run api env cs'))"
    by (simp add: fun_eq_iff)
  then show ?case by (simp add: bindRun_assoc)
qed simp

text \<open>The producer of the filter has made the calls \<open>ops\<close> on the entry at address \<open>a\<close>.\<close>

definition storing :: "'h envoy_api \<Rightarrow> 'h write_op list \<Rightarrow> u32 \<Rightarrow> entry_id \<Rightarrow> 'h http_filter \<Rightarrow> 'h shared \<Rightarrow> bool" where
  "storing api ops cap a f s \<longleftrightarrow> \<not> entry_cached_m f \<and> a < length (entries_m s)
     \<and> cache_entry_ptr_m (cache_entry_producer_m f) = Some a
     \<and> run_write_ops api ops (start_write cap a) = Some (Inr (cache_entry_producer_m f, entries_m s ! a))"

abbreviation set_entry :: "entry_id \<Rightarrow> cache_entry \<Rightarrow> 'h shared \<Rightarrow> 'h shared" where
  "set_entry a e s \<equiv> s\<lparr>entries_m := (entries_m s)[a := e]\<rparr>"

lemma produce_next:
  assumes st: "storing api ops cap a f s" and ok: "resp_ok api resp" "0 < unat cap"
    and ops: "ops @ op # rest = response_ops resp"
    and g: "\<And>p e. g p e = run_write_op api op (p, e)"
  shows "\<exists>p e. produce g f s = Some (Inr (f\<lparr>cache_entry_producer_m := p\<rparr>, set_entry a e s))
    \<and> storing api (ops @ [op]) cap a (f\<lparr>cache_entry_producer_m := p\<rparr>) (set_entry a e s)"
proof -
  have "(ops @ [op]) @ rest = response_ops resp" using ops by simp
  from stored_prefix [OF ok this, of a] obtain p e where
    r: "run_write_ops api (ops @ [op]) (start_write cap a) = Some (Inr (p, e))" "cache_entry_ptr_m p = Some a"
    by blast
  then have "run_write_op api op (cache_entry_producer_m f, entries_m s ! a) = Some (Inr (p, e))"
    using st by (auto simp: storing_def run_write_ops_append bindRun_Inr_iff)
  then have "produce g f s = Some (Inr (f\<lparr>cache_entry_producer_m := p\<rparr>, set_entry a e s))"
    using st by (simp add: produce_def storing_def g)
  then show ?thesis using r st by (simp add: storing_def)
qed

lemma storing_flags [simp]:
  "storing api ops cap a (f\<lparr>is_first_headers_m := b\<rparr>) s = storing api ops cap a f s"
  "storing api ops cap a (f\<lparr>is_first_data_m := b\<rparr>) s = storing api ops cap a f s"
  "storing api ops cap a (f\<lparr>is_first_trailers_m := b\<rparr>) s = storing api ops cap a f s"
  "storing api ops cap a (f\<lparr>successful_status_code_m := b\<rparr>) s = storing api ops cap a f s"
  "storing api ops cap a f (s\<lparr>cache_m := c\<rparr>) = storing api ops cap a f s"
  "storing api ops cap a f (upd_wrapper w u s) = storing api ops cap a f s"
  by (simp_all add: storing_def)

lemma data_run:
  assumes "storing api ops cap a f s" and ok: "resp_ok api resp" "0 < unat cap"
    and "ops @ body_ops ds fin @ rest = response_ops resp" and "\<not> is_first_data_m f"
  shows "\<exists>p e. upstream_run api env (data_calls ds fin) (f, s)
      = Some (Inr (f\<lparr>cache_entry_producer_m := p\<rparr>, set_entry a e s))
    \<and> storing api (ops @ body_ops ds fin) cap a (f\<lparr>cache_entry_producer_m := p\<rparr>) (set_entry a e s)"
  using assms(1,4,5)
proof (induction ds arbitrary: ops f s)
  case Nil
  have "f\<lparr>cache_entry_producer_m := cache_entry_producer_m f\<rparr> = f" "set_entry a (entries_m s ! a) s = s" by simp_all
  then show ?case using Nil by (metis append_Nil2 body_ops.simps(1) data_calls.simps(1) upstream_run.simps(1))
next
  case (Cons d ds)
  let ?op = "OpData d (fin \<and> ds = [])"
  have ops: "ops @ ?op # body_ops ds fin @ rest = response_ops resp" using Cons.prems(2) by simp
  from produce_next [OF Cons.prems(1) ok ops, of "writeData d (fin \<and> ds = [])"] obtain p e where
    1: "produce (writeData d (fin \<and> ds = [])) f s = Some (Inr (f\<lparr>cache_entry_producer_m := p\<rparr>, set_entry a e s))"
    "storing api (ops @ [?op]) cap a (f\<lparr>cache_entry_producer_m := p\<rparr>) (set_entry a e s)" by auto
  have "\<not> entry_cached_m f" using Cons.prems(1) by (simp add: storing_def)
  then have c: "upstream_call api env (UpData d (fin \<and> ds = [])) (f, s)
      = Some (Inr (f\<lparr>cache_entry_producer_m := p\<rparr>, set_entry a e s))"
    using 1(1) Cons.prems(3) by (simp add: encodeData_def)
  have "(ops @ [?op]) @ body_ops ds fin @ rest = response_ops resp" using ops by simp
  from Cons.IH [OF 1(2) this] Cons.prems(3) obtain p' e' where
    "upstream_run api env (data_calls ds fin) (f\<lparr>cache_entry_producer_m := p\<rparr>, set_entry a e s)
      = Some (Inr (f\<lparr>cache_entry_producer_m := p'\<rparr>, set_entry a e' s))"
    "storing api ((ops @ [?op]) @ body_ops ds fin) cap a (f\<lparr>cache_entry_producer_m := p'\<rparr>) (set_entry a e' s)"
    by auto
  then show ?case using c by (intro exI [of _ p'] exI [of _ e']) simp
qed

text \<open>The headers: the status decides about caching, then the group is told the entry.\<close>

lemma headers_call:
  assumes st: "storing api [] cap a f s" and ok: "resp_ok api resp" "0 < unat cap"
    and first: "is_first_headers_m f" and valid: "checkSuccessfulStatusCode api (resp_headers resp) f = (True, f1)"
    and w: "response_wrapper_rc_ptr_m f = Some w" "w < length (wrappers_m s)"
    and ins: "if successful_status_code_m f1 then cache_insert (request_headers_str_key_m f) a (cache_m s) = Inr cache
       else cache = cache_m s"
  shows "\<exists>p e f' s'. upstream_call api env (UpHeaders (resp_headers resp) (headers_only resp)) (f, s) = Some (Inr (f', s'))
    \<and> f' = f1\<lparr>is_first_headers_m := False, cache_entry_producer_m := p\<rparr>
    \<and> s' = set_entry a e (upd_wrapper w (\<lambda>r. r\<lparr>shared_response_entry_m := Some a\<rparr>) (s\<lparr>cache_m := cache\<rparr>))
    \<and> storing api [OpHeaders (resp_headers resp) (headers_only resp)] cap a f' s'"
proof -
  let ?h = "resp_headers resp" and ?fin = "headers_only resp"
  have f1: "f1 = f\<lparr>successful_status_code_m := successful_status_code_m f1\<rparr>"
    using valid by (auto simp: checkSuccessfulStatusCode_def Let_def split: option.splits if_splits)
  let ?f = "f1\<lparr>is_first_headers_m := False\<rparr>"
  let ?s = "upd_wrapper w (\<lambda>r. r\<lparr>shared_response_entry_m := Some a\<rparr>) (s\<lparr>cache_m := cache\<rparr>)"
  have st1: "storing api [] cap a ?f ?s" using st by (subst f1) simp
  have ptr: "getCacheEntryPtr (cache_entry_producer_m f1) = Some a" and nc: "\<not> entry_cached_m f"
    using st by (subst f1, simp add: storing_def getCacheEntryPtr_def, simp add: storing_def)
  have key: "request_headers_str_key_m f1 = request_headers_str_key_m f" "response_wrapper_rc_ptr_m f1 = Some w"
    using w by (subst f1, simp)+
  have ops: "[] @ OpHeaders ?h ?fin # drop 1 (response_ops resp) = response_ops resp"
    by (simp add: response_ops_def)
  from produce_next [OF st1 ok ops, of "writeHeaders api ?h ?fin"] obtain p e where
    1: "produce (writeHeaders api ?h ?fin) ?f ?s = Some (Inr (?f\<lparr>cache_entry_producer_m := p\<rparr>, set_entry a e ?s))"
      "storing api [OpHeaders ?h ?fin] cap a (?f\<lparr>cache_entry_producer_m := p\<rparr>) (set_entry a e ?s)" by auto
  have no: "notifyWaitingCoalescedRequests (Some a) f1 (s\<lparr>cache_m := cache\<rparr>) = Inr ?s"
    using key(2) w(2) by (simp add: notifyWaitingCoalescedRequests_def wrapper_of_def)
  have "upstream_call api env (UpHeaders ?h ?fin) (f, s)
      = Some (Inr (?f\<lparr>cache_entry_producer_m := p\<rparr>, set_entry a e ?s))"
  proof (cases "successful_status_code_m f1")
    case True
    then show ?thesis using ins key(1) no 1(1)
      by (simp add: encodeHeaders_def nc first valid ptr)
  next
    case False
    then have "s\<lparr>cache_m := cache\<rparr> = s" using ins by simp
    then show ?thesis using False no 1(1)
      by (simp add: encodeHeaders_def nc first valid ptr)
  qed
  then show ?thesis using 1(2) by blast
qed


lemma set_entry_twice [simp]: "set_entry a e' (set_entry a e s) = set_entry a e' s"
  by simp

lemma body_run:
  assumes st: "storing api ops cap a f s" and ok: "resp_ok api resp" "0 < unat cap"
    and ops: "ops @ (if ds = [] then [] else OpHeadersDone # body_ops ds fin) @ rest = response_ops resp"
    and first: "is_first_data_m f"
  shows "\<exists>p e b. upstream_run api env (data_calls ds fin) (f, s)
      = Some (Inr (f\<lparr>is_first_data_m := b, cache_entry_producer_m := p\<rparr>, set_entry a e s))
    \<and> storing api (ops @ (if ds = [] then [] else OpHeadersDone # body_ops ds fin)) cap a
        (f\<lparr>is_first_data_m := b, cache_entry_producer_m := p\<rparr>) (set_entry a e s)"
proof (cases ds)
  case Nil
  have "f\<lparr>is_first_data_m := is_first_data_m f, cache_entry_producer_m := cache_entry_producer_m f\<rparr> = f"
    "set_entry a (entries_m s ! a) s = s" by simp_all
  then show ?thesis using Nil st
    by (intro exI [of _ "cache_entry_producer_m f"] exI [of _ "entries_m s ! a"] exI [of _ "is_first_data_m f"]) simp
next
  case (Cons d ds')
  let ?op = "OpHeadersDone"
  have ops1: "ops @ ?op # body_ops ds fin @ rest = response_ops resp" using ops Cons by simp
  from produce_next [OF st ok ops1, of "\<lambda>p e. Some (Inr (headersWriteComplete p e))"] obtain p1 e1 where
    1: "produce (\<lambda>p e. Some (Inr (headersWriteComplete p e))) f s
      = Some (Inr (f\<lparr>cache_entry_producer_m := p1\<rparr>, set_entry a e1 s))"
    "storing api (ops @ [?op]) cap a (f\<lparr>cache_entry_producer_m := p1\<rparr>) (set_entry a e1 s)" by auto
  let ?f1 = "f\<lparr>cache_entry_producer_m := p1, is_first_data_m := False\<rparr>" and ?s1 = "set_entry a e1 s"
  have nc: "\<not> entry_cached_m f" using st by (simp add: storing_def)
  then have "encodeData d (fin \<and> ds' = []) f s = encodeData d (fin \<and> ds' = []) ?f1 ?s1"
    using 1(1) first by (simp add: encodeData_def)
  then have eq: "upstream_run api env (data_calls ds fin) (f, s) = upstream_run api env (data_calls ds fin) (?f1, ?s1)"
    by (simp add: Cons)
  have "(ops @ [?op]) @ body_ops ds fin @ rest = response_ops resp" using ops1 by simp
  moreover have "storing api (ops @ [?op]) cap a ?f1 ?s1" using 1(2) by simp
  ultimately obtain p e where "upstream_run api env (data_calls ds fin) (?f1, ?s1)
      = Some (Inr (?f1\<lparr>cache_entry_producer_m := p\<rparr>, set_entry a e ?s1))"
    "storing api ((ops @ [?op]) @ body_ops ds fin) cap a (?f1\<lparr>cache_entry_producer_m := p\<rparr>) (set_entry a e ?s1)"
    using data_run [of api "ops @ [?op]" cap a ?f1 ?s1 resp ds fin rest env] ok by auto
  then show ?thesis using eq Cons
    by (intro exI [of _ p] exI [of _ e] exI [of _ False]) simp
qed

lemma trailers_run:
  assumes st: "storing api ops cap a f s" and ok: "resp_ok api resp" "0 < unat cap"
    and ops: "ops @ (case tr of None \<Rightarrow> [] | Some t \<Rightarrow> [OpDataDone, OpTrailers t]) @ rest = response_ops resp"
    and first: "is_first_trailers_m f"
  shows "\<exists>p e b. upstream_run api env (case tr of None \<Rightarrow> [] | Some t \<Rightarrow> [UpTrailers t]) (f, s)
      = Some (Inr (f\<lparr>is_first_trailers_m := b, cache_entry_producer_m := p\<rparr>, set_entry a e s))
    \<and> storing api (ops @ (case tr of None \<Rightarrow> [] | Some t \<Rightarrow> [OpDataDone, OpTrailers t])) cap a
        (f\<lparr>is_first_trailers_m := b, cache_entry_producer_m := p\<rparr>) (set_entry a e s)"
proof (cases tr)
  case None
  then show ?thesis using st
    by (intro exI [of _ "cache_entry_producer_m f"] exI [of _ "entries_m s ! a"] exI [of _ "is_first_trailers_m f"]) simp
next
  case (Some t)
  have ops1: "ops @ OpDataDone # OpTrailers t # rest = response_ops resp" using ops Some by simp
  from produce_next [OF st ok ops1, of "\<lambda>p e. Some (Inr (dataWriteComplete p e))"] obtain p1 e1 where
    1: "produce (\<lambda>p e. Some (Inr (dataWriteComplete p e))) f s
      = Some (Inr (f\<lparr>cache_entry_producer_m := p1\<rparr>, set_entry a e1 s))"
    "storing api (ops @ [OpDataDone]) cap a (f\<lparr>cache_entry_producer_m := p1\<rparr>) (set_entry a e1 s)" by auto
  let ?f1 = "f\<lparr>cache_entry_producer_m := p1, is_first_trailers_m := False\<rparr>" and ?s1 = "set_entry a e1 s"
  have st1: "storing api (ops @ [OpDataDone]) cap a ?f1 ?s1" using 1(2) by simp
  have "(ops @ [OpDataDone]) @ OpTrailers t # rest = response_ops resp" using ops1 by simp
  from produce_next [OF st1 ok this, of "writeTrailers api t"] obtain p2 e2 where
    2: "produce (writeTrailers api t) ?f1 ?s1 = Some (Inr (?f1\<lparr>cache_entry_producer_m := p2\<rparr>, set_entry a e2 ?s1))"
    "storing api ((ops @ [OpDataDone]) @ [OpTrailers t]) cap a (?f1\<lparr>cache_entry_producer_m := p2\<rparr>) (set_entry a e2 ?s1)"
    by auto
  have nc: "\<not> entry_cached_m f" using st by (simp add: storing_def)
  have "encodeTrailers api t f s = Some (Inr (?f1\<lparr>cache_entry_producer_m := p2\<rparr>, set_entry a e2 ?s1))"
    using 1(1) 2(1) first nc by (simp add: encodeTrailers_def)
  then show ?thesis using 2(2) Some
    by (intro exI [of _ p2] exI [of _ e2] exI [of _ False]) simp
qed

lemma front_run:
  assumes st: "storing api [] cap a f s" and ok: "resp_ok api resp" "0 < unat cap"
    and first: "is_first_headers_m f" "is_first_data_m f" "is_first_trailers_m f"
    and valid: "checkSuccessfulStatusCode api (resp_headers resp) f = (True, f1)"
    and w: "response_wrapper_rc_ptr_m f = Some w" "w < length (wrappers_m s)"
    and ins: "if successful_status_code_m f1 then cache_insert (request_headers_str_key_m f) a (cache_m s) = Inr cache
       else cache = cache_m s"
  shows "\<exists>p e b b' ops f' s'. upstream_run api env (front_calls resp) (f, s) = Some (Inr (f', s'))
    \<and> f' = f1\<lparr>is_first_headers_m := False, is_first_data_m := b, is_first_trailers_m := b', cache_entry_producer_m := p\<rparr>
    \<and> s' = set_entry a e (upd_wrapper w (\<lambda>r. r\<lparr>shared_response_entry_m := Some a\<rparr>) (s\<lparr>cache_m := cache\<rparr>))
    \<and> ops @ [OpComplete] = response_ops resp \<and> storing api ops cap a f' s'"
proof -
  let ?fin = "resp_trailers resp = None" and ?hd = "OpHeaders (resp_headers resp) (headers_only resp)"
  let ?body = "if resp_body resp = [] then [] else OpHeadersDone # body_ops (resp_body resp) ?fin"
  let ?tr = "case resp_trailers resp of None \<Rightarrow> [] | Some t \<Rightarrow> [OpDataDone, OpTrailers t]"
  have ops: "response_ops resp = [?hd] @ ?body @ ?tr @ [OpComplete]" by (simp add: response_ops_def)
  let ?s0 = "upd_wrapper w (\<lambda>r. r\<lparr>shared_response_entry_m := Some a\<rparr>) (s\<lparr>cache_m := cache\<rparr>)"
  from headers_call [OF st ok first(1) valid w ins] obtain p1 e1 where
    1: "upstream_call api env (UpHeaders (resp_headers resp) (headers_only resp)) (f, s)
        = Some (Inr (f1\<lparr>is_first_headers_m := False, cache_entry_producer_m := p1\<rparr>, set_entry a e1 ?s0))"
      "storing api [?hd] cap a (f1\<lparr>is_first_headers_m := False, cache_entry_producer_m := p1\<rparr>) (set_entry a e1 ?s0)"
    by blast
  have fl: "is_first_data_m f1" "is_first_trailers_m f1"
    using valid first by (auto simp: checkSuccessfulStatusCode_def Let_def split: option.splits if_splits)
  from body_run [OF 1(2) ok ops [symmetric], of env] fl obtain p2 e2 b where
    2: "upstream_run api env (data_calls (resp_body resp) ?fin)
          (f1\<lparr>is_first_headers_m := False, cache_entry_producer_m := p1\<rparr>, set_entry a e1 ?s0)
        = Some (Inr (f1\<lparr>is_first_headers_m := False, is_first_data_m := b, cache_entry_producer_m := p2\<rparr>, set_entry a e2 ?s0))"
      "storing api ([?hd] @ ?body) cap a
         (f1\<lparr>is_first_headers_m := False, is_first_data_m := b, cache_entry_producer_m := p2\<rparr>) (set_entry a e2 ?s0)"
    by auto
  have "([?hd] @ ?body) @ ?tr @ [OpComplete] = response_ops resp" by (simp add: ops)
  from trailers_run [OF 2(2) ok this, of env] fl obtain p3 e3 b' where
    3: "upstream_run api env (case resp_trailers resp of None \<Rightarrow> [] | Some t \<Rightarrow> [UpTrailers t])
          (f1\<lparr>is_first_headers_m := False, is_first_data_m := b, cache_entry_producer_m := p2\<rparr>, set_entry a e2 ?s0)
        = Some (Inr (f1\<lparr>is_first_headers_m := False, is_first_data_m := b, is_first_trailers_m := b',
            cache_entry_producer_m := p3\<rparr>, set_entry a e3 ?s0))"
      "storing api (([?hd] @ ?body) @ ?tr) cap a (f1\<lparr>is_first_headers_m := False, is_first_data_m := b,
         is_first_trailers_m := b', cache_entry_producer_m := p3\<rparr>) (set_entry a e3 ?s0)"
    by auto
  have "upstream_run api env (front_calls resp) (f, s) = Some (Inr (f1\<lparr>is_first_headers_m := False,
      is_first_data_m := b, is_first_trailers_m := b', cache_entry_producer_m := p3\<rparr>, set_entry a e3 ?s0))"
    using 1(1) 2(1) 3(1) by (simp add: front_calls_def upstream_run_append)
  moreover have "(([?hd] @ ?body) @ ?tr) @ [OpComplete] = response_ops resp" by (simp add: ops)
  ultimately show ?thesis using 3(2) by blast
qed


lemma stored_finished:
  assumes ok: "resp_ok api resp" "0 < unat cap"
    and run: "run_write_ops api (response_ops resp) (start_write cap a) = Some (Inr (p, e))"
  shows "finished api resp e"
proof -
  have e: "stored_after api resp cap a (length (response_ops resp)) = e" using run by (simp add: stored_after_def)
  have pt: "partial_of (resp_final api cap resp) e" using stored_after_partial [OF ok, of a] e by metis
  moreover have "complete_of (resp_final api cap resp) e"
    using stored_after_complete [OF ok, of "length (response_ops resp)" a] e by simp
  moreover have "single_buffer_blocks_capacity_m e = cap" using pt by (simp add: partial_of_def resp_final_def)
  ultimately show ?thesis using ok(2) by (simp add: finished_def)
qed

lemma attend_no_others:
  assumes "response_wrapper_rc_ptr_m f = Some w" and "w < length (wrappers_m s)"
    and "other_rc_groups_m (wrappers_m s ! w) = []"
  shows "attendToOtherRCGroups api env f s = Some (Inr (f, release (this_thread_id_m f)
    (set_led_groups (this_thread_id_m f) (AList.delete (request_headers_str_key_m f) (led_groups (this_thread_id_m f) s)) s)))"
  using assms
  by (simp add: attendToOtherRCGroups_def Let_def wrapper_of_def release_eq) (simp add: set_led_groups_def)

lemma leave_frame:
  "release t (set_led_groups t gs (rc_assign key None s\<lparr>entries_m := x, delivered_m := y, clock_m := z\<rparr>))
   = release t (set_led_groups t gs (rc_assign key None s))\<lparr>entries_m := x, delivered_m := y, clock_m := z\<rparr>"
  by (simp add: release_def set_led_groups_def rc_assign_def led_groups_def)

lemma rc_inv_frame [simp]:
  "rc_inv_on B (s\<lparr>entries_m := x\<rparr>) = rc_inv_on B s" "rc_inv_on B (s\<lparr>delivered_m := y\<rparr>) = rc_inv_on B s"
  "rc_inv_on B (s\<lparr>clock_m := z\<rparr>) = rc_inv_on B s" "rc_inv_on B (s\<lparr>cache_m := c\<rparr>) = rc_inv_on B s"
  by (simp_all add: rc_inv_on_def group_of_def led_groups_def)

lemma group_frame [simp]:
  "group_of k (s\<lparr>entries_m := x\<rparr>) = group_of k s" "group_of k (s\<lparr>delivered_m := y\<rparr>) = group_of k s"
  "group_of k (s\<lparr>clock_m := z\<rparr>) = group_of k s" "group_of k (s\<lparr>cache_m := c\<rparr>) = group_of k s"
  "led_groups t (s\<lparr>entries_m := x\<rparr>) = led_groups t s" "led_groups t (s\<lparr>delivered_m := y\<rparr>) = led_groups t s"
  "led_groups t (s\<lparr>clock_m := z\<rparr>) = led_groups t s" "led_groups t (s\<lparr>cache_m := c\<rparr>) = led_groups t s"
  by (simp_all add: group_of_def led_groups_def)

lemma leave_fields [simp]:
  "cache_m (release t (leave_group t key s)) = cache_m s" "wrappers_m (release t (leave_group t key s)) = wrappers_m s"
  "statics_m (release t (leave_group t key s)) = statics_m s" "expired_m (release t (leave_group t key s)) = expired_m s"
  "group_of k (release t (leave_group t key s)) = (if k = key then None else group_of k s)"
proof -
  show "group_of k (release t (leave_group t key s)) = (if k = key then None else group_of k s)"
    by (simp add: release_facts leave_group_def)
qed (simp_all add: release_def leave_group_def set_led_groups_def rc_assign_def)

text \<open>The end: serve the waiting requests of this thread, then leave the group.\<close>

definition leads :: "'h http_filter \<Rightarrow> wrapper_id \<Rightarrow> 'h shared \<Rightarrow> bool" where
  "leads f w s \<longleftrightarrow> rc_inv s \<and> group_of (request_headers_str_key_m f) s = Some w
     \<and> response_wrapper_rc_ptr_m f = Some w \<and> leader_thread_id_m (wrappers_m s ! w) = this_thread_id_m f"

lemma serve_and_leave:
  assumes l: "leads f w s" and none: "other_rc_groups_m (wrappers_m s ! w) = []"
    and fin: "finished api resp (entries_m s ! a)" "a < length (entries_m s)"
    and env: "quiet env" and k: "consumer_idle (cache_entry_consumer_m f)" and st: "statics_ok s"
    and ok: "resp_ok api resp" "drains api" and ptr: "cache_entry_ptr_m (cache_entry_producer_m f) = Some a"
  shows "\<exists>f' e n. bindRun (serveResponseToCurrentRCGroup api env f (detachCurrentRCGroup f s))
        (\<lambda>(f2, s2). attendToOtherRCGroups api env f2 s2)
      = Some (Inr (f', release (this_thread_id_m f) (leave_group (this_thread_id_m f) (request_headers_str_key_m f) s)
          \<lparr>entries_m := (entries_m s)[a := e],
            delivered_m := delivered_m s @ map (\<lambda>cb. (cb, resp_events api resp))
              (waiting_decoder_callbacks_m (wrappers_m s ! w)),
            clock_m := n\<rparr>))
    \<and> same_content (entries_m s ! a) e"
proof -
  let ?s1 = "rc_assign (request_headers_str_key_m f) None s"
  let ?cbs = "waiting_decoder_callbacks_m (wrappers_m s ! w)"
  have w: "response_wrapper_rc_ptr_m f = Some w" "w < length (wrappers_m s)"
    using l rc_invD(1) [of "{}" s] by (auto simp: leads_def)
  have s1: "entries_m ?s1 = entries_m s" "wrappers_m ?s1 = wrappers_m s" "delivered_m ?s1 = delivered_m s"
    "statics_ok ?s1" "led_groups t ?s1 = led_groups t s" for t
    using st by (simp_all add: rc_assign_def statics_ok_def led_groups_def)
  from serve_callbacks_ok [of api resp ?s1 a env f ?cbs] fin env k ok ptr s1 obtain k' e' n' where
    1: "serve_callbacks api env ?cbs f ?s1 = Some (Inr (f\<lparr>cache_entry_consumer_m := k'\<rparr>,
      ?s1\<lparr>entries_m := (entries_m s)[a := e'],
        delivered_m := delivered_m s @ map (\<lambda>cb. (cb, resp_events api resp)) ?cbs,
        clock_m := n'\<rparr>))" "same_content (entries_m s ! a) e'" by auto
  have sv: "serveResponseToCurrentRCGroup api env f (detachCurrentRCGroup f s) = serve_callbacks api env ?cbs f ?s1"
    using w by (simp add: serveResponseToCurrentRCGroup_def detachCurrentRCGroup_def wrapper_of_def s1)
  let ?s2 = "?s1\<lparr>entries_m := (entries_m s)[a := e'],
        delivered_m := delivered_m s @ map (\<lambda>cb. (cb, resp_events api resp)) ?cbs, clock_m := n'\<rparr>"
  have "attendToOtherRCGroups api env (f\<lparr>cache_entry_consumer_m := k'\<rparr>) ?s2
    = Some (Inr (f\<lparr>cache_entry_consumer_m := k'\<rparr>, release (this_thread_id_m f)
        (set_led_groups (this_thread_id_m f) (AList.delete (request_headers_str_key_m f) (led_groups (this_thread_id_m f) s)) ?s2)))"
    using attend_no_others [of "f\<lparr>cache_entry_consumer_m := k'\<rparr>" w ?s2 api env] w none s1 by simp
  then show ?thesis using 1 sv unfolding leave_frame leave_group_def by auto
qed

lemma complete_run:
  assumes st: "storing api ops cap a f s" and ops: "ops @ [OpComplete] = response_ops resp"
    and l: "leads f w s" and none: "other_rc_groups_m (wrappers_m s ! w) = []"
    and env: "quiet env" and k: "consumer_idle (cache_entry_consumer_m f)" and sok: "statics_ok s"
    and ok: "resp_ok api resp" "drains api" "0 < unat cap"
  shows "\<exists>f' s'. encodeComplete api env f s = Some (Inr (f', s'))
    \<and> delivered_m s' = delivered_m s @ map (\<lambda>cb. (cb, resp_events api resp))
              (waiting_decoder_callbacks_m (wrappers_m s ! w))
    \<and> rc_inv s' \<and> group_of (request_headers_str_key_m f) s' = None
    \<and> a < length (entries_m s') \<and> finished api resp (entries_m s' ! a) \<and> cache_m s' = cache_m s \<and> statics_ok s'
    \<and> wrappers_m s' = wrappers_m s"
proof -
  have ops': "ops @ OpComplete # [] = response_ops resp" using ops by simp
  from produce_next [OF st ok(1,3) ops', of "\<lambda>p e. Some (writeComplete p e)"] obtain p e where
    1: "produce (\<lambda>p e. Some (writeComplete p e)) f s = Some (Inr (f\<lparr>cache_entry_producer_m := p\<rparr>, set_entry a e s))"
      "storing api (response_ops resp) cap a (f\<lparr>cache_entry_producer_m := p\<rparr>) (set_entry a e s)"
    using ops by auto
  let ?f1 = "f\<lparr>cache_entry_producer_m := p\<rparr>" and ?s1 = "set_entry a e s"
  have a: "a < length (entries_m s)" and nc: "\<not> entry_cached_m f" using st by (simp_all add: storing_def)
  have "run_write_ops api (response_ops resp) (start_write cap a) = Some (Inr (p, e))"
    using 1(2) a by (simp add: storing_def)
  then have "finished api resp e" by (rule stored_finished [OF ok(1,3)])
  then have fin: "finished api resp (entries_m ?s1 ! a)" using a by simp
  have l1: "leads ?f1 w ?s1" "statics_ok ?s1" using l sok by (simp_all add: leads_def statics_ok_def)
  have ptr: "cache_entry_ptr_m (cache_entry_producer_m ?f1) = Some a" using 1(2) by (simp add: storing_def)
  from serve_and_leave [OF l1(1) _ fin _ env _ l1(2) ok(1,2) ptr] none a k obtain f' e' n where
    2: "bindRun (serveResponseToCurrentRCGroup api env ?f1 (detachCurrentRCGroup ?f1 ?s1))
        (\<lambda>(f2, s2). attendToOtherRCGroups api env f2 s2)
      = Some (Inr (f', release (this_thread_id_m f) (leave_group (this_thread_id_m f) (request_headers_str_key_m f) ?s1)
          \<lparr>entries_m := (entries_m ?s1)[a := e'],
            delivered_m := delivered_m s @ map (\<lambda>cb. (cb, resp_events api resp))
              (waiting_decoder_callbacks_m (wrappers_m s ! w)),
            clock_m := n\<rparr>))" "same_content (entries_m ?s1 ! a) e'" by auto
  have "rc_inv ?s1" "group_of (request_headers_str_key_m f) ?s1 = Some w"
    "leader_thread_id_m (wrappers_m ?s1 ! w) = this_thread_id_m f" using l by (simp_all add: leads_def)
  note lv = rc_inv_leave [OF this]
  have fin': "finished api resp e'" using finished_same [OF fin 2(2)] .
  have so: "statics_ok (release t (leave_group t key ?s1)\<lparr>entries_m := x, delivered_m := y, clock_m := z\<rparr>)" for t key x y z
    using sok by (simp add: statics_ok_def)
  show ?thesis
    unfolding encodeComplete_def using 1(1) 2(1) lv fin' a nc so by simp
qed

text \<open>The decision in terms of the groups alone.\<close>

lemma led_groups_iff:
  assumes "rc_inv_on B s"
  shows "led_groups t s = [] \<longleftrightarrow> (\<forall>k v. group_of k s = Some v \<longrightarrow> leader_thread_id_m (wrappers_m s ! v) \<noteq> t)"
proof
  assume "led_groups t s = []"
  then show "\<forall>k v. group_of k s = Some v \<longrightarrow> leader_thread_id_m (wrappers_m s ! v) \<noteq> t"
    using rc_invD(1) [OF assms] by fastforce
next
  assume none: "\<forall>k v. group_of k s = Some v \<longrightarrow> leader_thread_id_m (wrappers_m s ! v) \<noteq> t"
  show "led_groups t s = []"
  proof (rule ccontr)
    assume "led_groups t s \<noteq> []"
    then have "hd (led_groups t s) \<in> set (led_groups t s)" by simp
    then obtain k v where "(k, v) \<in> set (led_groups t s)" by (metis surj_pair)
    with rc_invD(2) [OF assms this] none show False by blast
  qed
qed

lemma getThreadStatus_summary:
  assumes inv: "rc_inv s" and env: "begin_ok env"
  shows "\<exists>st f' s' w. getThreadStatus env f s = Some (Inr (st, f', s')) \<and> rc_inv s'
    \<and> response_wrapper_rc_ptr_m f' = Some w \<and> group_of (request_headers_str_key_m f) s' = Some w
    \<and> (\<forall>k. k \<noteq> request_headers_str_key_m f \<longrightarrow> group_of k s' = group_of k s)
    \<and> (st = INITIAL_LEADER \<longleftrightarrow> group_of (request_headers_str_key_m f) s = None)
    \<and> (st = INITIAL_LEADER \<or> st = LEADER \<longleftrightarrow> leader_thread_id_m (wrappers_m s' ! w) = this_thread_id_m f)
    \<and> (st = WAITING \<longrightarrow> s' = s \<and> (\<forall>k v. group_of k s = Some v \<longrightarrow> leader_thread_id_m (wrappers_m s ! v) \<noteq> this_thread_id_m f))
    \<and> (st = LEADER \<longrightarrow> waiting_decoder_callbacks_m (wrappers_m s' ! w)
         = waiting_decoder_callbacks_m (wrappers_m s ! w) @ [decoder_callbacks_m f])
    \<and> (st = OTHER_GROUP_LEADER \<longrightarrow> (\<exists>k v. group_of k s' = Some v
         \<and> leader_thread_id_m (wrappers_m s' ! v) = this_thread_id_m f
         \<and> other_rc_groups_m (wrappers_m s' ! v) = other_rc_groups_m (wrappers_m s ! v) @ [(decoder_callbacks_m f, w)]))"
proof -
  let ?t = "this_thread_id_m f" and ?key = "request_headers_str_key_m f"
  from getThreadStatus_ok [OF inv env not_in_empty, of f] obtain s' w where
    1: "getThreadStatus env f s = Some (Inr (classify ?t ?key s, f\<lparr>response_wrapper_rc_ptr_m := Some w\<rparr>, s'))"
      "rc_inv s'" "group_of ?key s' = Some w" "\<forall>k. k \<noteq> ?key \<longrightarrow> group_of k s' = group_of k s"
    and il: "classify ?t ?key s = INITIAL_LEADER \<longrightarrow> w = length (wrappers_m s) \<and> wrappers_m s' = wrappers_m s @
         [\<lparr>leader_thread_id_m = ?t, waiting_decoder_callbacks_m = [], shared_response_entry_m = None,
           other_rc_groups_m = []\<rparr>]"
    and le: "classify ?t ?key s = LEADER \<longrightarrow> s' = upd_wrapper w (\<lambda>r. r\<lparr>waiting_decoder_callbacks_m :=
         waiting_decoder_callbacks_m r @ [decoder_callbacks_m f]\<rparr>) s"
    and ot: "classify ?t ?key s = OTHER_GROUP_LEADER \<longrightarrow> (\<exists>k' w'. (k', w') \<in> set (led_groups ?t s)
         \<and> s' = upd_wrapper w' (\<lambda>r. r\<lparr>other_rc_groups_m := other_rc_groups_m r @ [(decoder_callbacks_m f, w)]\<rparr>) s)"
    and wt: "classify ?t ?key s = WAITING \<longrightarrow> s' = s"
    by blast
  have cl: "classify ?t ?key s = INITIAL_LEADER \<longleftrightarrow> group_of ?key s = None" by (auto simp: classify_def split: option.split)
  have led: "classify ?t ?key s = WAITING \<Longrightarrow> led_groups ?t s = []" by (auto simp: classify_def split: option.splits if_splits)
  have lt: "classify ?t ?key s = INITIAL_LEADER \<or> classify ?t ?key s = LEADER
      \<longleftrightarrow> leader_thread_id_m (wrappers_m s' ! w) = ?t"
  proof (cases "classify ?t ?key s = INITIAL_LEADER")
    case True
    then show ?thesis using il by simp
  next
    case False
    then have g: "group_of ?key s = Some w"
      using cl 1(3) le ot wt by (cases "classify ?t ?key s") auto
    have "leader_thread_id_m (wrappers_m s' ! w) = leader_thread_id_m (wrappers_m s ! w)"
      using False le ot wt rc_invD(1) [OF inv g] by (cases "classify ?t ?key s") (auto simp: upd_same_leader)
    then show ?thesis using g by (simp add: classify_def)
  qed
  have oth: "\<exists>k v. group_of k s' = Some v \<and> leader_thread_id_m (wrappers_m s' ! v) = ?t
      \<and> other_rc_groups_m (wrappers_m s' ! v) = other_rc_groups_m (wrappers_m s ! v) @ [(decoder_callbacks_m f, w)]"
    if c: "classify ?t ?key s = OTHER_GROUP_LEADER"
  proof -
    from ot c obtain k' w' where k: "(k', w') \<in> set (led_groups ?t s)" and
      s': "s' = upd_wrapper w' (\<lambda>r. r\<lparr>other_rc_groups_m := other_rc_groups_m r @ [(decoder_callbacks_m f, w)]\<rparr>) s"
      by blast
    show ?thesis using rc_invD(2) [OF inv k] s'
      by (intro exI [of _ k'] exI [of _ w']) (simp add: upd_wrapper_def)
  qed
  have lead: "classify ?t ?key s = LEADER \<longrightarrow> waiting_decoder_callbacks_m (wrappers_m s' ! w)
         = waiting_decoder_callbacks_m (wrappers_m s ! w) @ [decoder_callbacks_m f]"
  proof
    assume c: "classify ?t ?key s = LEADER"
    then have "group_of ?key s = Some w" using 1(3) le by simp
    then show "waiting_decoder_callbacks_m (wrappers_m s' ! w)
         = waiting_decoder_callbacks_m (wrappers_m s ! w) @ [decoder_callbacks_m f]"
      using le c rc_invD(1) [OF inv] by (simp add: upd_wrapper_def)
  qed
  have w2: "classify ?t ?key s = WAITING \<longrightarrow> s' = s \<and> (\<forall>k v. group_of k s = Some v \<longrightarrow> leader_thread_id_m (wrappers_m s ! v) \<noteq> ?t)"
    using wt led led_groups_iff [OF inv, of ?t] by blast
  show ?thesis
  proof (intro exI conjI)
    show "getThreadStatus env f s = Some (Inr (classify ?t ?key s, f\<lparr>response_wrapper_rc_ptr_m := Some w\<rparr>, s'))"
      by (rule 1(1))
    show "response_wrapper_rc_ptr_m (f\<lparr>response_wrapper_rc_ptr_m := Some w\<rparr>) = Some w" by simp
  qed (use 1(2-4) cl lt lead w2 in \<open>simp_all only: simp_thms\<close>, use oth in blast)
qed

section \<open>Properties\<close>

text \<open>
  C8: what a thread becomes when a request arrives: without a group the leader of a new one; with a
  group that it leads itself, or while it leads another one, it is told not to wait, and the decoder
  callbacks are recorded in a list that a leader on this very thread will serve; it is told to wait
  only if another thread leads the group and it leads no group at all. Nothing faults, every group
  keeps exactly one leader thread, and no other group changes.
\<close>

theorem thread_status_sound:
  assumes "rc_inv s" and "begin_ok env"
  shows "\<exists>st f' s' w. getThreadStatus env f s = Some (Inr (st, f', s')) \<and> rc_inv s'
    \<and> response_wrapper_rc_ptr_m f' = Some w \<and> group_of (request_headers_str_key_m f) s' = Some w
    \<and> (\<forall>k. k \<noteq> request_headers_str_key_m f \<longrightarrow> group_of k s' = group_of k s)
    \<and> (st = INITIAL_LEADER \<longleftrightarrow> group_of (request_headers_str_key_m f) s = None)
    \<and> (st = INITIAL_LEADER \<or> st = LEADER \<longleftrightarrow> leader_thread_id_m (wrappers_m s' ! w) = this_thread_id_m f)
    \<and> (st = WAITING \<longrightarrow> s' = s \<and> (\<forall>k v. group_of k s = Some v \<longrightarrow> leader_thread_id_m (wrappers_m s ! v) \<noteq> this_thread_id_m f))
    \<and> (st = LEADER \<longrightarrow> waiting_decoder_callbacks_m (wrappers_m s' ! w)
         = waiting_decoder_callbacks_m (wrappers_m s ! w) @ [decoder_callbacks_m f])
    \<and> (st = OTHER_GROUP_LEADER \<longrightarrow> (\<exists>k v. group_of k s' = Some v
         \<and> leader_thread_id_m (wrappers_m s' ! v) = this_thread_id_m f
         \<and> other_rc_groups_m (wrappers_m s' ! v) = other_rc_groups_m (wrappers_m s ! v) @ [(decoder_callbacks_m f, w)]))"
  by (rule getThreadStatus_summary [OF assms])

text \<open>A thread 7 leads the group of key \<open>''k''\<close>; a request with that key arrives on thread 8.\<close>

definition led_shared :: "'h shared" where
  "led_shared = initial_shared\<lparr>
     wrappers_m := [\<lparr>leader_thread_id_m = 7, waiting_decoder_callbacks_m = [], shared_response_entry_m = None,
       other_rc_groups_m = []\<rparr>],
     coalesced_requests_m := [''k'' \<mapsto> Some 0],
     leader_threads_for_rc_m := [7 \<mapsto> [(''k'', 0)]]\<rparr>"

definition demo_env :: "'h environ" where
  "demo_env = \<lparr>env_wait = (\<lambda>n s. s), env_read = no_interference, env_begin = hd\<rparr>"

lemma begin_ok_demo: "begin_ok demo_env"
  by (simp add: begin_ok_def demo_env_def)

lemma led_shared_inv: "rc_inv led_shared" "group_of ''k'' led_shared = Some 0" "leader_thread_id_m (wrappers_m led_shared ! 0) = 7"
  by (auto simp: rc_inv_on_def led_shared_def initial_shared_def group_of_def led_groups_def split: if_splits option.splits)

definition keyed_filter :: "bytes \<Rightarrow> thread_id \<Rightarrow> callback_id \<Rightarrow> 'h http_filter" where
  "keyed_filter key t cb = (fst (HttpCacheRCFilter cb \<lparr>ring_buffer_capacity_cfg = 1, cache_capacity_cfg = 1\<rparr> initial_shared))
     \<lparr>request_headers_str_key_m := key, this_thread_id_m := t\<rparr>"

lemma keyed_filter_simps [simp]:
  "request_headers_str_key_m (keyed_filter key t cb) = key" "this_thread_id_m (keyed_filter key t cb) = t"
  "decoder_callbacks_m (keyed_filter key t cb) = cb"
  by (simp_all add: keyed_filter_def HttpCacheRCFilter_def Let_def split: prod.split)

theorem thread_status_sound_witness:
  "\<exists>st f' s' w. getThreadStatus (demo_env :: unit environ) (keyed_filter ''k'' 8 1) led_shared = Some (Inr (st, f', s'))
    \<and> rc_inv s' \<and> st \<noteq> INITIAL_LEADER \<and> response_wrapper_rc_ptr_m f' = Some w \<and> group_of ''k'' s' = Some w"
proof -
  have g: "group_of ''k'' (led_shared :: unit shared) \<noteq> None" by (simp add: led_shared_inv)
  from thread_status_sound [OF led_shared_inv(1) begin_ok_demo, of "keyed_filter ''k'' 8 1 :: unit http_filter"]
  obtain st f' s' w where "getThreadStatus (demo_env :: unit environ) (keyed_filter ''k'' 8 1) led_shared = Some (Inr (st, f', s'))"
    "rc_inv s'" "response_wrapper_rc_ptr_m f' = Some w" "group_of ''k'' s' = Some w"
    "st = INITIAL_LEADER \<longleftrightarrow> group_of ''k'' (led_shared :: unit shared) = None"
    unfolding keyed_filter_simps by (elim exE conjE) (rule that)
  moreover from this(5) g have "st \<noteq> INITIAL_LEADER" by simp
  ultimately show ?thesis by (intro exI conjI)
qed

end
