(* ===== verification/Writer_Steps.thy ===== *)
theory Writer_Steps
  imports Storing
begin

text \<open>
  The producer one step at a time, for readers that look at the entry while a call on the producer is
  under way. A call is unfolded into the instructions of its C++ body, kept on a stack of what is still
  to be done; a step is one instruction: a \<^verbatim>\<open>write\<close> into the last ring buffer, the \<^verbatim>\<open>emplace_back\<close> of a
  new one under the lock, the store of a block counter, or work on the producer's own members. So a
  reader can meet headers or data that are half written, and a buffer that has just been emplaced and is
  still empty. The accesses inside one \<^verbatim>\<open>write\<close> are the subject of theory \<open>Ring_Concurrent\<close>.

  The steps make together what the calls of theory \<open>Producer\<close> make at once (\<open>producer_steps_agree\<close>), and
  every step lets the entry only grow; so a reader at any step is served as if by the finished entry.
\<close>

section \<open>The machine\<close>

datatype 'h instr =
    ICall "'h write_op"
  | ISection sect
  | IString bytes
  | ILoop bytes bool
  | IDelimiter bool
  | IBlock
  | IEmplace
  | IWrite

type_synonym 'h config = "'h instr list \<times> producer \<times> cache_entry"

abbreviation config_entry :: "'h config \<Rightarrow> cache_entry" where
  "config_entry c \<equiv> snd (snd c)"

text \<open>\<^verbatim>\<open>iterate(collectAndWriteHeadersCb)\<close>: the key and the value of every entry.\<close>

fun pair_instrs :: "(bytes \<times> bytes) list \<Rightarrow> 'h instr list" where
  "pair_instrs [] = []"
| "pair_instrs ((k, v) # kvs) = IString k # IString v # pair_instrs kvs"

fun call_instrs :: "'h envoy_api \<Rightarrow> 'h write_op \<Rightarrow> 'h instr list" where
  "call_instrs api (OpHeaders h fin) = ISection HeadersSec # pair_instrs (hm_entries api h) @ [IDelimiter fin]"
| "call_instrs api (OpData d fin) = [ISection DataSec, IString d, IDelimiter fin]"
| "call_instrs api (OpTrailers t) = ISection TrailersSec # pair_instrs (hm_entries api t) @ [IDelimiter False]"
| "call_instrs api _ = []"

text \<open>
  \<^verbatim>\<open>writeBlockToBuffer\<close>: \<open>IBlock\<close> is the test and the first \<^verbatim>\<open>write\<close>, \<open>IEmplace\<close> the \<^verbatim>\<open>emplace_back\<close>,
  \<open>IWrite\<close> the second \<^verbatim>\<open>write\<close>, whose result the code ignores.
\<close>

definition block_step :: "'h instr list \<Rightarrow> producer \<Rightarrow> cache_entry \<Rightarrow> fault + 'h config" where
  "block_step is p e =
    (case buffers_m p of
       None \<Rightarrow> Inl NullDeref
     | Some sec \<Rightarrow>
         if sec_buffers sec e = [] then Inr (IEmplace # is, p, e)
         else bindR (rb_write (message_size_m p) writeBlockCb (last (sec_buffers sec e)) p)
           (\<lambda>(ok, q, p1).
              let e1 = set_buffers sec (butlast (sec_buffers sec e) @ [q]) e
              in Inr (if ok then (is, p1\<lparr>current_block_count_m := current_block_count_m p1 + 1\<rparr>, e1)
                      else (IEmplace # is, p1, e1))))"

definition emplace_step :: "'h instr list \<Rightarrow> producer \<Rightarrow> cache_entry \<Rightarrow> fault + 'h config" where
  "emplace_step is p e =
    (case buffers_m p of
       None \<Rightarrow> Inl NullDeref
     | Some sec \<Rightarrow>
         Inr (IWrite # is, p, set_buffers sec
           (sec_buffers sec e @ [new_RingBufferQueue (single_buffer_blocks_capacity_m e)]) e))"

definition write_step :: "'h instr list \<Rightarrow> producer \<Rightarrow> cache_entry \<Rightarrow> fault + 'h config" where
  "write_step is p e =
    (case buffers_m p of
       None \<Rightarrow> Inl NullDeref
     | Some sec \<Rightarrow>
         if sec_buffers sec e = [] then Inl OutOfBounds
         else bindR (rb_write (message_size_m p) writeBlockCb (last (sec_buffers sec e)) p)
           (\<lambda>(ok, q, p1). Inr (is, p1\<lparr>current_block_count_m := current_block_count_m p1 + 1\<rparr>,
              set_buffers sec (butlast (sec_buffers sec e) @ [q]) e)))"

fun w_step :: "'h envoy_api \<Rightarrow> 'h config \<Rightarrow> fault + 'h config" where
  "w_step api ([], p, e) = Inr ([], p, e)"
| "w_step api (ICall OpHeadersDone # is, p, e) = Inr (is, headersWriteComplete p e)"
| "w_step api (ICall OpDataDone # is, p, e) = Inr (is, dataWriteComplete p e)"
| "w_step api (ICall OpComplete # is, p, e) =
    (if headers_write_complete_m p \<and> data_write_complete_m p then Inr (IDelimiter True # is, p, e)
     else bindR (writeComplete p e) (\<lambda>s. Inr (is, s)))"
| "w_step api (ICall op # is, p, e) = Inr (call_instrs api op @ is, p, e)"
| "w_step api (ISection sec # is, p, e) = Inr (is, p\<lparr>buffers_m := Some sec\<rparr>, e)"
| "w_step api (IString d # is, p, e) = Inr (ILoop d True # IBlock # is, p, e)"
| "w_step api (ILoop d firstWrite # is, p, e) =
    (if firstWrite \<or> data_offset_m p \<noteq> 0 then
       bindR (writeToBlock d p)
         (\<lambda>(full, p1). Inr (if full then IBlock # ILoop d False # is else is, p1, e))
     else Inr (is, p, e))"
| "w_step api (IDelimiter end_stream # is, p, e) =
    (if end_stream then
       Inr (IBlock # is, p\<lparr>message_size_m := of_nat BLOCK_SIZE_BYTES, data_block_m := end_block\<rparr>, e)
     else Inr (IBlock # is, p, e))"
| "w_step api (IBlock # is, p, e) = block_step is p e"
| "w_step api (IEmplace # is, p, e) = emplace_step is p e"
| "w_step api (IWrite # is, p, e) = write_step is p e"

text \<open>The machine after \<open>n\<close> steps; a stack that has run empty stays empty.\<close>

fun w_steps :: "'h envoy_api \<Rightarrow> nat \<Rightarrow> 'h config \<Rightarrow> fault + 'h config" where
  "w_steps api 0 c = Inr c"
| "w_steps api (Suc n) c = bindR (w_step api c) (w_steps api n)"

text \<open>The machine that stores a response, and the entry a reader finds after \<open>j\<close> of its steps.\<close>

definition storing_config :: "'h response \<Rightarrow> u32 \<Rightarrow> entry_id \<Rightarrow> 'h config" where
  "storing_config resp cap a = (map ICall (response_ops resp), start_write cap a)"

definition stored_at :: "'h envoy_api \<Rightarrow> 'h response \<Rightarrow> u32 \<Rightarrow> entry_id \<Rightarrow> nat \<Rightarrow> cache_entry" where
  "stored_at api resp cap a j =
     (case w_steps api j (storing_config resp cap a) of
        Inr c \<Rightarrow> config_entry c
      | Inl _ \<Rightarrow> snd (start_write cap a))"

definition write_finished :: "'h envoy_api \<Rightarrow> 'h response \<Rightarrow> u32 \<Rightarrow> entry_id \<Rightarrow> nat \<Rightarrow> bool" where
  "write_finished api resp cap a j \<longleftrightarrow>
     (case w_steps api j (storing_config resp cap a) of Inr c \<Rightarrow> fst c = [] | Inl _ \<Rightarrow> False)"

section \<open>Steps let the entry grow\<close>

definition grow :: "cache_entry \<Rightarrow> cache_entry \<Rightarrow> bool" where
  "grow e e' \<longleftrightarrow> entry_wf e' \<and> single_buffer_blocks_capacity_m e' = single_buffer_blocks_capacity_m e
     \<and> (\<forall>x. prefix (sec_msgs x e) (sec_msgs x e')) \<and> entry_le e e'"

lemma grow_refl: "entry_wf e \<Longrightarrow> grow e e"
  by (simp add: grow_def entry_le_def)

lemma entry_le_trans: "entry_le e e' \<Longrightarrow> entry_le e' e'' \<Longrightarrow> entry_le e e''"
  unfolding entry_le_def by (metis le_trans)

lemma grow_trans:
  assumes "grow e e'" and "grow e' e''"
  shows "grow e e''"
  using assms entry_le_trans [of e e' e''] prefix_order.trans by (fastforce simp: grow_def)

lemma grow_ext: "entry_ext x ms e e' \<Longrightarrow> grow e e'"
proof -
  assume ext: "entry_ext x ms e e'"
  note f = entry_ext_frame [OF ext]
  have "prefix (sec_msgs y e) (sec_msgs y e')" for y
    using f(2) f(3) [of y] by (cases "y = x") simp_all
  moreover have "block_count y e' = block_count y e" for y using f(5,6) by (cases y) simp_all
  ultimately show ?thesis using f(1,4,7) by (simp add: grow_def entry_le_def)
qed

lemma grow_set:
  assumes "entry_wf e" and "rbq.vwf (entry_cap e) qs" and "rbq.vmsgs qs = rbq.vmsgs (sec_buffers x e) @ ms"
    and "length (sec_buffers x e) \<le> length qs"
  shows "grow e (set_buffers x qs e)"
  using assms by (intro grow_ext [of x ms]) (auto simp: entry_ext_def entry_wf_set sec_msgs_def)

text \<open>Runs of the machine every step of which lets the entry grow.\<close>

inductive w_path :: "'h envoy_api \<Rightarrow> 'h config \<Rightarrow> 'h config \<Rightarrow> bool" for api where
  w_path_refl: "w_path api c c"
| w_path_step: "w_step api c = Inr c1 \<Longrightarrow> grow (config_entry c) (config_entry c1) \<Longrightarrow> w_path api c1 c2
    \<Longrightarrow> w_path api c c2"

lemma w_path_trans: "w_path api c c1 \<Longrightarrow> w_path api c1 c2 \<Longrightarrow> w_path api c c2"
  by (induction rule: w_path.induct) (auto intro: w_path_step)

lemma w_path_one: "w_step api c = Inr c1 \<Longrightarrow> grow (config_entry c) (config_entry c1) \<Longrightarrow> w_path api c c1"
  by (rule w_path_step [OF _ _ w_path_refl])

text \<open>Steps that do not touch the entry.\<close>

lemma w_path_silent:
  assumes "w_step api (is, p, e) = Inr (is1, p1, e)" and "entry_wf e" and "w_path api (is1, p1, e) c"
  shows "w_path api (is, p, e) c"
  by (rule w_path_step [OF assms(1) _ assms(3)]) (simp add: assms(2) grow_refl)

section \<open>Blocks and strings\<close>

definition block_ok :: "producer \<Rightarrow> bool" where
  "block_ok p \<longleftrightarrow> length (data_block_m p) = BLOCK_SIZE_BYTES \<and> unat (message_size_m p) \<le> BLOCK_SIZE_BYTES"

lemma block_path:
  assumes cw: "can_write sec p e" and b: "block_ok p"
  shows "\<exists>p' e'. writeBlockToBuffer p e = Inr (p', e') \<and> w_path api (IBlock # is, p, e) (is, p', e')
    \<and> can_write sec p' e' \<and> block_ok p'"
proof -
  let ?bufs = "sec_buffers sec e" and ?c = "entry_cap e"
  let ?m = "take (unat (message_size_m p)) (data_block_m p)"
  let ?p1 = "p\<lparr>message_size_m := 0\<rparr>"
  let ?p' = "p\<lparr>message_size_m := 0, current_block_count_m := current_block_count_m p + 1\<rparr>"
  let ?new = "new_RingBufferQueue (single_buffer_blocks_capacity_m e)"
  have sec: "buffers_m p = Some sec" and c: "0 < ?c" and ewf: "entry_wf e" using cw by (simp_all add: can_write_def)
  have bl: "length (data_block_m p) = BLOCK_SIZE_BYTES" "unat (message_size_m p) \<le> BLOCK_SIZE_BYTES"
    using b by (simp_all add: block_ok_def)
  have v: "rbq.vwf ?c ?bufs" using ewf by (rule entry_wf_sec)
  note cb = writeBlockCb_writes [OF bl]
  obtain e' where w: "writeBlockToBuffer p e = Inr (?p', e')" and ap: "appends sec [?m] (p, e) (?p', e')"
    using writeBlockToBuffer_appends [OF cw bl refl] by blast
  have cw': "can_write sec ?p' e'" using cw ap by (rule can_write_appends)
  have g': "grow e e'" using ap by (simp add: appends_def grow_ext)
  have "w_path api (IBlock # is, p, e) (is, ?p', e')"
  proof (cases "?bufs \<noteq> [] \<and> length (rb_msgs (last ?bufs)) < ?c")
    case True
    then obtain q' where rw: "rb_write (message_size_m p) writeBlockCb (last ?bufs) p = Inr (True, q', ?p1)"
      using rbq.vec_write_last [OF v _ _ cb] by blast
    have "w_step api (IBlock # is, p, e) = Inr (is, ?p', e')"
      using True rw w by (simp add: block_step_def writeBlockToBuffer_def sec Let_def)
    then show ?thesis by (rule w_path_one) (simp add: g')
  next
    case False
    have full: "length (rb_msgs (last ?bufs)) = ?c"
      "rb_write (message_size_m p) writeBlockCb (last ?bufs) p = Inr (False, last ?bufs, p)"
      if "?bufs \<noteq> []" using rbq.vec_last_full [OF v that] False that by auto
    note emp = rbq.vec_emplace [of "single_buffer_blocks_capacity_m e" ?bufs, OF v full(1)]
    let ?e1 = "set_buffers sec (?bufs @ [?new]) e"
    have id: "set_buffers sec ?bufs e = e" by (cases sec) simp_all
    have s1: "w_step api (IBlock # is, p, e) = Inr (IEmplace # is, p, e)"
      using full(2) by (cases "?bufs = []") (simp_all add: block_step_def sec Let_def id)
    have s2: "w_step api (IEmplace # is, p, e) = Inr (IWrite # is, p, ?e1)"
      by (simp add: emplace_step_def sec)
    have g1: "grow e ?e1" using grow_set [OF ewf emp(1), of sec "[]"] emp(2) by simp
    have "length (rb_msgs (last (?bufs @ [?new]))) < ?c" using c by (simp add: new_rb)
    from rbq.vec_write_last [OF emp(1) _ this cb] obtain q'
      where rw: "rb_write (message_size_m p) writeBlockCb ?new p = Inr (True, q', ?p1)"
        and q': "rbq.vwf ?c (?bufs @ [q'])" "rbq.vmsgs (?bufs @ [q']) = rbq.vmsgs ?bufs @ [?m]"
      by (auto simp: emp(2) new_rb)
    have e': "e' = set_buffers sec (?bufs @ [q']) e"
      using w full(2) rw by (cases "?bufs = []") (simp_all add: writeBlockToBuffer_def sec Let_def id)
    have s3: "w_step api (IWrite # is, p, ?e1) = Inr (is, ?p', e')"
      using rw by (simp add: write_step_def sec Let_def e')
    have "entry_wf ?e1" using g1 by (simp add: grow_def)
    moreover have "e' = set_buffers sec (?bufs @ [q']) ?e1" by (simp add: e')
    ultimately have g2: "grow ?e1 e'"
      using grow_set [of ?e1 "?bufs @ [q']" sec "[?m]"] q' emp(2) by simp
    show ?thesis
      by (rule w_path_silent [OF s1 ewf], rule w_path_step [OF s2], use g1 in simp)
        (rule w_path_one [OF s3], use g2 in simp)
  qed
  then show ?thesis using w cw' bl by (intro exI [of _ ?p'] exI [of _ e']) (simp add: block_ok_def)
qed

lemma writeToBlock_block_ok:
  assumes "writeToBlock d p = Inr (full, p1)" and "block_ok p"
  shows "block_ok p1" "buffers_m p1 = buffers_m p"
proof -
  define sp where "sp = unat ((of_nat BLOCK_SIZE_BYTES :: u32) - message_size_m p)"
  define n where "n = min sp (unat ((of_nat (length d) :: u64) - ucast (data_offset_m p)))"
  have "message_size_m p \<le> of_nat BLOCK_SIZE_BYTES"
    using assms(2) by (simp add: block_ok_def word_le_nat_alt)
  then have "sp = BLOCK_SIZE_BYTES - unat (message_size_m p)" by (simp add: sp_def unat_sub)
  then have le: "unat (message_size_m p) + n \<le> BLOCK_SIZE_BYTES"
    using assms(2) by (auto simp: block_ok_def n_def min_def)
  then have sz: "unat (message_size_m p + of_nat n) = unat (message_size_m p) + n"
    by (simp add: BLOCK_SIZE_BYTES_def u32_simps)
  show "block_ok p1"
    using assms sz le
    by (auto simp: writeToBlock_def Let_def block_ok_def simp flip: sp_def n_def split: if_splits)
  show "buffers_m p1 = buffers_m p"
    using assms(1) by (auto simp: writeToBlock_def Let_def split: if_splits)
qed

lemma loop_path:
  assumes "writeString_loop d firstWrite p e = Some r"
  shows "r = Inr (p', e') \<Longrightarrow> can_write sec p e \<Longrightarrow> block_ok p
    \<Longrightarrow> w_path api (ILoop d firstWrite # is, p, e) (is, p', e') \<and> can_write sec p' e' \<and> block_ok p'"
  using assms
proof (induction arbitrary: p' e' rule: writeString_loop.raw_induct [rotated, consumes 1, case_names step])
  case (step loop d firstWrite p e r)
  have wf: "entry_wf e" using step.prems(2) by (simp add: can_write_def)
  show ?case
  proof (cases "firstWrite \<or> data_offset_m p \<noteq> 0")
    case False
    then have "p' = p \<and> e' = e" using step by simp
    then show ?thesis using False step.prems(2,3)
      by (auto intro!: w_path_silent [OF _ wf w_path_refl])
  next
    case go: True
    obtain full p1 where w: "writeToBlock d p = Inr (full, p1)"
      using step go by (cases "writeToBlock d p") (auto split: prod.splits)
    note p1 = writeToBlock_block_ok [OF w step.prems(3)]
    have cw1: "can_write sec p1 e" using step.prems(2) p1(2) by (simp add: can_write_def)
    show ?thesis
    proof (cases full)
      case False
      then have "p' = p1 \<and> e' = e" using step w go by simp
      then show ?thesis using False go w cw1 p1(1)
        by (auto intro!: w_path_silent [OF _ wf w_path_refl])
    next
      case True
      obtain p2 e2 where b: "writeBlockToBuffer p1 e = Inr (p2, e2)"
        and path: "w_path api (IBlock # ILoop d False # is, p1, e) (ILoop d False # is, p2, e2)"
        and ok2: "can_write sec p2 e2" "block_ok p2"
        using block_path [OF cw1 p1(1)] by blast
      have "loop d False p2 e2 = Some r" using step(2) w go True b by simp
      from step(1) [OF this step.prems(1) ok2]
      have rest: "w_path api (ILoop d False # is, p2, e2) (is, p', e')" "can_write sec p' e' \<and> block_ok p'" by auto
      have "w_step api (ILoop d firstWrite # is, p, e) = Inr (IBlock # ILoop d False # is, p1, e)"
        using w go True by simp
      from w_path_silent [OF this wf w_path_trans [OF path rest(1)]] rest(2) show ?thesis by simp
    qed
  qed
qed

lemma string_path:
  assumes "writeStringToBuffer d p e = Some (Inr (p', e'))" and "can_write sec p e" and "block_ok p"
  shows "w_path api (IString d # is, p, e) (is, p', e') \<and> can_write sec p' e' \<and> block_ok p'"
proof -
  obtain p1 e1 where l: "writeString_loop d True p e = Some (Inr (p1, e1))"
    and b: "writeBlockToBuffer p1 e1 = Inr (p', e')"
    using assms(1) by (auto simp: writeStringToBuffer_def bindRun_Inr_iff)
  from loop_path [OF l refl assms(2,3)]
  have 1: "w_path api (ILoop d True # IBlock # is, p, e) (IBlock # is, p1, e1)"
    and ok: "can_write sec p1 e1" "block_ok p1" by auto
  from block_path [OF ok] b have 2: "w_path api (IBlock # is, p1, e1) (is, p', e')"
    and ok': "can_write sec p' e'" "block_ok p'" by auto
  have "entry_wf e" using assms(2) by (simp add: can_write_def)
  with w_path_silent [OF _ _ w_path_trans [OF 1 2]] ok' show ?thesis by simp
qed

lemma pairs_path:
  assumes "iterate_write kvs p e = Some (Inr (p', e'))" and "can_write sec p e" and "block_ok p"
  shows "w_path api (pair_instrs kvs @ is, p, e) (is, p', e') \<and> can_write sec p' e' \<and> block_ok p'"
  using assms
proof (induction kvs arbitrary: p e)
  case Nil
  then show ?case by (simp add: w_path_refl)
next
  case (Cons kv kvs)
  obtain k v where kv: "kv = (k, v)" by (cases kv)
  obtain p1 e1 p2 e2 where 1: "writeStringToBuffer k p e = Some (Inr (p1, e1))"
    and 2: "writeStringToBuffer v p1 e1 = Some (Inr (p2, e2))"
    and 3: "iterate_write kvs p2 e2 = Some (Inr (p', e'))"
    using Cons.prems(1) by (auto simp: kv bindRun_Inr_iff)
  from string_path [OF 1 Cons.prems(2,3)]
  have k: "w_path api (IString k # IString v # pair_instrs kvs @ is, p, e) (IString v # pair_instrs kvs @ is, p1, e1)"
    and ok1: "can_write sec p1 e1" "block_ok p1" by auto
  from string_path [OF 2 ok1]
  have v: "w_path api (IString v # pair_instrs kvs @ is, p1, e1) (pair_instrs kvs @ is, p2, e2)"
    and ok2: "can_write sec p2 e2" "block_ok p2" by auto
  from Cons.IH [OF 3 ok2] w_path_trans [OF k w_path_trans [OF v]] show ?case by (simp add: kv)
qed

lemma delimiter_path:
  assumes "writeDelimiterBlock fin p e = Inr (p', e')" and "can_write sec p e" and "block_ok p"
  shows "w_path api (IDelimiter fin # is, p, e) (is, p', e')"
proof -
  define p1 where "p1 = (if fin then p\<lparr>message_size_m := of_nat BLOCK_SIZE_BYTES, data_block_m := end_block\<rparr> else p)"
  have "can_write sec p1 e" "block_ok p1"
    using assms(2,3) by (auto simp: p1_def can_write_def block_ok_def end_block_def)
  moreover have "writeBlockToBuffer p1 e = Inr (p', e')" using assms(1) by (cases fin) (simp_all add: p1_def writeDelimiterBlock_def)
  ultimately have "w_path api (IBlock # is, p1, e) (is, p', e')" using block_path [of sec p1 e api "is"] by auto
  moreover have "w_step api (IDelimiter fin # is, p, e) = Inr (IBlock # is, p1, e)" by (simp add: p1_def)
  moreover have "entry_wf e" using assms(2) by (simp add: can_write_def)
  ultimately show ?thesis by (rule w_path_silent [rotated 2])
qed

section \<open>Calls\<close>

lemma producer_block_ok: "producer_ok p e \<Longrightarrow> block_ok (p\<lparr>buffers_m := b\<rparr>)"
  by (simp add: producer_ok_def producer_ready_def block_ok_def)

lemma section_map_path:
  assumes "bindRun (iterate_write kvs (p\<lparr>buffers_m := Some sec\<rparr>) e)
      (\<lambda>(p1, e1). Some (writeDelimiterBlock fin p1 e1)) = Some (Inr (p', e'))" and "producer_ok p e"
  shows "w_path api (ISection sec # pair_instrs kvs @ IDelimiter fin # is, p, e) (is, p', e')"
proof -
  obtain p1 e1 where i: "iterate_write kvs (p\<lparr>buffers_m := Some sec\<rparr>) e = Some (Inr (p1, e1))"
    and d: "writeDelimiterBlock fin p1 e1 = Inr (p', e')"
    using assms(1) by (auto simp: bindRun_Inr_iff)
  from pairs_path [OF i producer_ok_can_write [OF assms(2)] producer_block_ok [OF assms(2)]]
  have 1: "w_path api (pair_instrs kvs @ IDelimiter fin # is, p\<lparr>buffers_m := Some sec\<rparr>, e) (IDelimiter fin # is, p1, e1)"
    and ok: "can_write sec p1 e1" "block_ok p1" by auto
  have "entry_wf e" using assms(2) by (simp add: producer_ok_def)
  with w_path_silent [OF _ _ w_path_trans [OF 1 delimiter_path [OF d ok]]] show ?thesis by simp
qed

lemma data_path:
  assumes "writeData d fin p e = Some (Inr (p', e'))" and "producer_ok p e"
  shows "w_path api (ISection DataSec # IString d # IDelimiter fin # is, p, e) (is, p', e')"
proof -
  obtain p1 e1 where s: "writeStringToBuffer d (p\<lparr>buffers_m := Some DataSec\<rparr>) e = Some (Inr (p1, e1))"
    and d: "writeDelimiterBlock fin p1 e1 = Inr (p', e')"
    using assms(1) by (auto simp: writeData_def bindRun_Inr_iff)
  from string_path [OF s producer_ok_can_write [OF assms(2)] producer_block_ok [OF assms(2)]]
  have 1: "w_path api (IString d # IDelimiter fin # is, p\<lparr>buffers_m := Some DataSec\<rparr>, e) (IDelimiter fin # is, p1, e1)"
    and ok: "can_write DataSec p1 e1" "block_ok p1" by auto
  have "entry_wf e" using assms(2) by (simp add: producer_ok_def)
  with w_path_silent [OF _ _ w_path_trans [OF 1 delimiter_path [OF d ok]]] show ?thesis by simp
qed

text \<open>A call as a whole may be assumed to let the entry grow: it is needed for the store of a counter only.\<close>

lemma call_path:
  assumes run: "run_write_op api op (p, e) = Some (Inr (p', e'))" and ok: "producer_ok p e"
    and buf: "buf_needed op (wabs (p, e)) \<Longrightarrow> buffers_m p \<noteq> None" and g: "grow e e'"
  shows "w_path api (ICall op # is, p, e) (is, p', e')"
proof -
  have wf: "entry_wf e" using ok by (simp add: producer_ok_def)
  show ?thesis
  proof (cases op)
    case (OpHeaders h fin)
    then have "w_path api (call_instrs api op @ is, p, e) (is, p', e')"
      using section_map_path [OF _ ok, of _ HeadersSec] run by (simp add: writeHeaders_def)
    then show ?thesis by (rule w_path_silent [OF _ wf, rotated]) (simp add: OpHeaders)
  next
    case (OpData d fin)
    then have "w_path api (call_instrs api op @ is, p, e) (is, p', e')" using data_path [OF _ ok] run by simp
    then show ?thesis by (rule w_path_silent [OF _ wf, rotated]) (simp add: OpData)
  next
    case (OpTrailers t)
    then have "w_path api (call_instrs api op @ is, p, e) (is, p', e')"
      using section_map_path [OF _ ok, of _ TrailersSec] run by (simp add: writeTrailers_def)
    then show ?thesis by (rule w_path_silent [OF _ wf, rotated]) (simp add: OpTrailers)
  next
    case OpHeadersDone
    then show ?thesis using run g by (intro w_path_one) simp_all
  next
    case OpDataDone
    then show ?thesis using run g by (intro w_path_one) simp_all
  next
    case OpComplete
    show ?thesis
    proof (cases "headers_write_complete_m p \<and> data_write_complete_m p")
      case False
      then show ?thesis using run g by (intro w_path_one) (simp_all add: OpComplete)
    next
      case True
      then obtain x where "buffers_m p = Some x" using buf by (auto simp: OpComplete wabs_def)
      then have cw: "can_write x p e" using ok by (simp add: can_write_def producer_ok_def)
      have "p\<lparr>buffers_m := buffers_m p\<rparr> = p" by simp
      then have "block_ok p" using producer_block_ok [OF ok, of "buffers_m p"] by simp
      moreover have "writeDelimiterBlock True p e = Inr (p', e')"
        using run True by (simp add: OpComplete writeComplete_def)
      ultimately have "w_path api (IDelimiter True # is, p, e) (is, p', e')" using delimiter_path cw by blast
      then show ?thesis by (rule w_path_silent [OF _ wf, rotated]) (simp add: OpComplete True)
    qed
  qed
qed

lemma calls_path:
  assumes "producer_ok p e" and "\<forall>op \<in> set ops. op_ok api op" and "chain_ok api ops (wabs (p, e))"
  shows "\<exists>p' e'. run_write_ops api ops (p, e) = Some (Inr (p', e'))
    \<and> w_path api (map ICall ops, p, e) ([], p', e')"
  using assms
proof (induction ops arbitrary: p e)
  case Nil
  then show ?case by (simp add: w_path_refl)
next
  case (Cons op ops)
  have buf: "buf_needed op (wabs (p, e)) \<Longrightarrow> buffers_m p \<noteq> None" using Cons.prems(3) by (simp add: wabs_def)
  from write_op_refines [OF Cons.prems(1) _ buf] Cons.prems(2) obtain p1 e1 where
    1: "run_write_op api op (p, e) = Some (Inr (p1, e1))" "producer_ok p1 e1"
      "wabs (p1, e1) = spec_op api op (wabs (p, e))" "grows e e1" by fastforce
  have og: "only_grows (wabs (p, e)) (wabs (p1, e1))" using Cons.prems(3) 1(3) by simp
  have "grow e e1"
    using og 1(2,4) by (auto simp: grow_def entry_le_def grows_def only_grows_def wabs_def producer_ok_def)
  from call_path [OF 1(1) Cons.prems(1) buf this]
  have first: "w_path api (ICall op # map ICall ops, p, e) (map ICall ops, p1, e1)" .
  from Cons.IH [OF 1(2)] Cons.prems(2,3) 1(3) obtain p2 e2 where
    "run_write_ops api ops (p1, e1) = Some (Inr (p2, e2))" "w_path api (map ICall ops, p1, e1) ([], p2, e2)" by auto
  with 1(1) first show ?case by (auto intro: w_path_trans)
qed

section \<open>The whole response\<close>

lemma w_steps_idle [simp]: "w_steps api n ([], p, e) = Inr ([], p, e)"
  by (induction n) simp_all

lemma w_steps_add: "w_steps api (m + n) c = bindR (w_steps api m c) (w_steps api n)"
  by (induction m arbitrary: c) (auto simp: bindR_def split: sum.splits)

text \<open>A path to an empty stack, step by step.\<close>

lemma w_path_steps:
  assumes "w_path api c c'" and "fst c' = []" and "entry_wf (config_entry c)"
  shows "\<exists>M. w_steps api M c = Inr c' \<and> (\<forall>j. \<exists>cj cj'. w_steps api j c = Inr cj \<and> w_steps api (Suc j) c = Inr cj'
    \<and> grow (config_entry cj) (config_entry cj'))"
  using assms
proof (induction rule: w_path.induct)
  case (w_path_refl c)
  obtain p e where "c = ([], p, e)" using w_path_refl(1) by (cases c) auto
  then show ?case using w_path_refl(2) by (intro exI [of _ 0]) (simp add: grow_refl)
next
  case (w_path_step c c1 c2)
  have "entry_wf (config_entry c1)" using w_path_step.hyps(2) by (simp add: grow_def)
  from w_path_step.IH [OF w_path_step.prems(1) this] obtain M where M: "w_steps api M c1 = Inr c2"
    and all: "\<forall>j. \<exists>cj cj'. w_steps api j c1 = Inr cj \<and> w_steps api (Suc j) c1 = Inr cj'
      \<and> grow (config_entry cj) (config_entry cj')" by auto
  have "\<exists>cj cj'. w_steps api j c = Inr cj \<and> w_steps api (Suc j) c = Inr cj' \<and> grow (config_entry cj) (config_entry cj')" for j
  proof (cases j)
    case 0
    then show ?thesis using w_path_step.hyps(1,2) by auto
  next
    case (Suc i)
    then show ?thesis using all [rule_format, of i] w_path_step.hyps(1) by auto
  qed
  then show ?case using M w_path_step.hyps(1) by (intro exI [of _ "Suc M"]) simp
qed

lemma storing_runs:
  assumes ok: "resp_ok api resp" and cap: "0 < unat cap"
  shows "\<exists>M p e. w_steps api M (storing_config resp cap a) = Inr ([], p, e)
    \<and> run_write_ops api (response_ops resp) (start_write cap a) = Some (Inr (p, e))
    \<and> (\<forall>j. \<exists>cj cj'. w_steps api j (storing_config resp cap a) = Inr cj \<and> w_steps api (Suc j) (storing_config resp cap a) = Inr cj'
         \<and> grow (config_entry cj) (config_entry cj'))"
proof -
  obtain p0 e0 where 0: "start_write cap a = (p0, e0)" by (cases "start_write cap a")
  have ok0: "producer_ok p0 e0" "wabs (p0, e0) = w0" using start_write_ok [of cap a] cap by (simp_all add: 0)
  from calls_path [OF ok0(1) resp_ok_ops(1) [OF ok]] chain_response [of api resp] obtain p e where
    "run_write_ops api (response_ops resp) (p0, e0) = Some (Inr (p, e))"
    "w_path api (storing_config resp cap a) ([], p, e)"
    by (auto simp: ok0(2) storing_config_def 0)
  moreover have "entry_wf (config_entry (storing_config resp cap a))"
    using ok0(1) by (simp add: storing_config_def 0 producer_ok_def)
  ultimately show ?thesis using w_path_steps [of api "storing_config resp cap a" "([], p, e)"] by (auto simp: 0)
qed

lemma stored_at_grows:
  assumes "resp_ok api resp" and "0 < unat cap"
  shows "grow (stored_at api resp cap a j) (stored_at api resp cap a (Suc j))"
proof -
  obtain cj cj' where "w_steps api j (storing_config resp cap a) = Inr cj"
    "w_steps api (Suc j) (storing_config resp cap a) = Inr cj'" "grow (config_entry cj) (config_entry cj')"
    using storing_runs [OF assms, of a] by metis
  then show ?thesis by (simp add: stored_at_def del: w_steps.simps)
qed

lemma stored_at_0: "stored_at api resp cap a 0 = new_CacheEntry cap"
  by (simp add: stored_at_def storing_config_def start_write_def initCacheEntry_def)

lemma stored_at_mono:
  assumes "resp_ok api resp" and "0 < unat cap" and "j \<le> k"
  shows "grow (stored_at api resp cap a j) (stored_at api resp cap a k)"
  using assms(3)
proof (induction k rule: dec_induct)
  case base
  have "entry_wf (stored_at api resp cap a j)"
    using stored_at_grows [OF assms(1,2)] by (cases j) (auto simp: stored_at_0 entry_wf_new grow_def)
  then show ?case by (rule grow_refl)
next
  case (step k)
  from step.IH stored_at_grows [OF assms(1,2)] show ?case by (rule grow_trans)
qed

lemma write_finishes:
  assumes "resp_ok api resp" and "0 < unat cap"
  shows "\<exists>M. write_finished api resp cap a M"
proof -
  obtain M p e where "w_steps api M (storing_config resp cap a) = Inr ([], p, e)"
    using storing_runs [OF assms, of a] by blast
  then show ?thesis by (auto simp: write_finished_def intro!: exI [of _ M])
qed

lemma stored_at_complete:
  assumes ok: "resp_ok api resp" and cap: "0 < unat cap" and fin: "write_finished api resp cap a j" and k: "j \<le> k"
  shows "complete_of (resp_final api cap resp) (stored_at api resp cap a k)"
proof -
  obtain p1 e1 where j: "w_steps api j (storing_config resp cap a) = Inr ([], p1, e1)"
    using fin by (auto simp: write_finished_def split: sum.splits)
  obtain M p e where M: "w_steps api M (storing_config resp cap a) = Inr ([], p, e)"
    and run: "run_write_ops api (response_ops resp) (start_write cap a) = Some (Inr (p, e))"
    using storing_runs [OF ok cap, of a] by blast
  have "w_steps api (j + M) (storing_config resp cap a) = Inr ([], p1, e1)" using j by (simp add: w_steps_add)
  moreover have "w_steps api (M + j) (storing_config resp cap a) = Inr ([], p, e)" using M by (simp add: w_steps_add)
  ultimately have "e1 = e" by (simp add: add.commute)
  moreover obtain i where "k = j + i" using k le_iff_add by blast
  ultimately have "stored_at api resp cap a k = e" using j by (simp add: stored_at_def w_steps_add)
  moreover have "stored_after api resp cap a (length (response_ops resp)) = e" using run by (simp add: stored_after_def)
  ultimately show ?thesis using stored_after_complete [OF ok cap, of "length (response_ops resp)" a] by simp
qed

lemma stored_at_partial:
  assumes ok: "resp_ok api resp" and cap: "0 < unat cap"
  shows "partial_of (resp_final api cap resp) (stored_at api resp cap a j)"
proof -
  obtain M where M: "write_finished api resp cap a M" using write_finishes [OF ok cap] by blast
  note c = stored_at_complete [OF ok cap M, of "M + j"]
  have g: "grow (stored_at api resp cap a j) (stored_at api resp cap a (M + j))"
    and g0: "grow (stored_at api resp cap a 0) (stored_at api resp cap a j)"
    by (rule stored_at_mono [OF ok cap]; simp)+
  have "block_count s (stored_at api resp cap a j) = UINT32_MAX
      \<or> block_count s (stored_at api resp cap a j) = resp_count api resp s" for s
  proof (cases "s = TrailersSec")
    case False
    then have "block_count s (stored_at api resp cap a (M + j)) = resp_count api resp s"
      using c by (simp add: complete_of_def resp_final_def del: resp_count.simps)
    then show ?thesis using g unfolding grow_def entry_le_def by metis
  qed simp
  moreover have "prefix (sec_msgs s (stored_at api resp cap a j)) (resp_msgs api resp s)" for s
    using c g by (simp add: complete_of_def grow_def resp_final_def)
  moreover have "entry_wf (stored_at api resp cap a j) \<and> single_buffer_blocks_capacity_m (stored_at api resp cap a j) = cap"
    using g0 by (simp add: grow_def stored_at_0 new_CacheEntry_def)
  ultimately show ?thesis by (simp add: partial_of_def resp_final_def)
qed

section \<open>Readers\<close>

text \<open>A writer that has made \<open>g n\<close> steps when the reader makes its access \<open>n\<close>.\<close>

lemma schedule_stored:
  assumes ok: "resp_ok api resp" and cap: "0 < unat cap" and g: "mono g" "write_finished api resp cap a (g N)"
  shows "schedule (resp_final api cap resp) N (\<lambda>n. stored_at api resp cap a (g n))"
proof -
  have "g N \<le> g n" if "N < n" for n using monoD [OF g(1), of N n] that by simp
  then show ?thesis
    using cap stored_at_partial [OF ok cap] stored_at_complete [OF ok cap g(2)]
      stored_at_mono [OF ok cap monoD [OF g(1)]]
    by (simp add: schedule_def resp_final_def grow_def)
qed

lemma serve_while_storing:
  assumes ok: "resp_ok api resp" and dr: "drains api" and cap: "0 < unat cap"
    and g: "mono g" "write_finished api resp cap a (g N)"
    and env: "follows (\<lambda>n. stored_at api resp cap a (g n)) env"
    and e: "same_content (stored_at api resp cap a (g n)) e" and k: "consumer_idle k"
  shows "\<exists>k' n' e'. serveCachedResponse api end_block env a cb k (n, e)
    = Some (Inr (k', (n', e'), resp_events api resp))"
proof -
  have "world_ok (\<lambda>n. stored_at api resp cap a (g n)) (n, e)" using e by (simp add: world_ok_def)
  from serve_streams [OF schedule_stored [OF ok cap g] env this k ok dr, of a cb] show ?thesis by fastforce
qed

section \<open>Properties\<close>

text \<open>
  C1: a consumer that starts reading while the producer is still writing -- between any two of the
  producer's steps, also in the middle of \<^verbatim>\<open>writeHeaders\<close> or \<^verbatim>\<open>writeData\<close> or with a new ring buffer
  emplaced and still empty -- terminates and makes exactly the calls of a replay of the finished entry
  (\<open>resp_events\<close>), in every interleaving of its accesses with these steps and with any number of other
  readers, provided the writer finishes some time (\<open>N\<close>): it never loses, repeats or reorders a block and
  never uses a null pointer or an index out of bounds. A \<^verbatim>\<open>write\<close> or \<^verbatim>\<open>read\<close> of a ring buffer is one access.
\<close>

theorem concurrent_read_of_growing_entry:
  assumes "resp_ok api resp" and "drains api" and "0 < unat cap"
    and "mono g" and "write_finished api resp cap a (g N)"
    and "follows (\<lambda>n. stored_at api resp cap a (g n)) env"
    and "same_content (stored_at api resp cap a (g n)) e" and "consumer_idle k"
  shows "\<exists>k' w'. serveCachedResponse api end_block env a cb k (n, e) = Some (Inr (k', w', resp_events api resp))"
  using serve_while_storing [OF assms, of cb] by blast

theorem concurrent_read_of_growing_entry_witness:
  "\<exists>k' w'. serveCachedResponse list_api end_block
      (\<lambda>n e. stored_at list_api demo_response 1 0 (Suc n div 3)) 0 0 CacheEntryConsumer_fields
      (0, new_CacheEntry 1) = Some (Inr (k', w', resp_events list_api demo_response))"
proof -
  let ?S = "\<lambda>n. stored_at list_api demo_response 1 0 (n div 3)"
  obtain M where M: "write_finished list_api demo_response 1 0 M"
    using write_finishes [OF demo_ok(1), of 1 0] by auto
  have wf: "entry_wf (?S n)" for n
    using stored_at_partial [OF demo_ok(1), of 1] by (simp add: partial_of_def)
  have m: "mono (\<lambda>n. n div 3 :: nat)" by (simp add: mono_def div_le_mono)
  have fin: "write_finished list_api demo_response 1 0 (3 * M div 3)" using M by simp
  have f: "follows ?S (\<lambda>n e. ?S (Suc n))" using wf by (simp add: follows_def same_content_refl)
  have s: "same_content (?S 0) (new_CacheEntry 1)" by (simp add: stored_at_0 same_content_refl entry_wf_new)
  show ?thesis
    by (rule concurrent_read_of_growing_entry [OF demo_ok _ m fin f s consumer_idle_new]) simp
qed

text \<open>
  C24: what a reader can see of an entry that is being written is, after any number of the producer's
  steps, a prefix of the finished entry: published messages never change or disappear, buffers are
  never removed, and a published block counter already has its final value. And the producer does finish.
\<close>

theorem growing_entry_is_prefix:
  assumes "resp_ok api resp" and "0 < unat cap" and "j \<le> k"
  shows "prefix (sec_msgs s (stored_at api resp cap a j)) (sec_msgs s (stored_at api resp cap a k))
    \<and> prefix (sec_msgs s (stored_at api resp cap a k)) (resp_msgs api resp s)
    \<and> entry_le (stored_at api resp cap a j) (stored_at api resp cap a k)
    \<and> (block_count s (stored_at api resp cap a k) = UINT32_MAX
         \<or> block_count s (stored_at api resp cap a k) = resp_count api resp s)
    \<and> (\<exists>M. write_finished api resp cap a M
         \<and> (M \<le> k \<longrightarrow> sec_msgs s (stored_at api resp cap a k) = resp_msgs api resp s))"
proof -
  obtain M where M: "write_finished api resp cap a M" using write_finishes [OF assms(1,2)] by blast
  then show ?thesis
    using stored_at_partial [OF assms(1,2), of a k] stored_at_mono [OF assms, of a]
      stored_at_complete [OF assms(1,2) M, of k]
    by (auto simp: partial_of_def resp_final_def grow_def complete_of_def)
qed

text \<open>Two states inside \<^verbatim>\<open>writeHeaders\<close>: the first buffer just emplaced, and one block in it.\<close>

theorem growing_entry_is_prefix_witness:
  "length (headers_buffers_m (stored_at list_api demo_response 2 0 6)) = 1
    \<and> prefix (sec_msgs HeadersSec (stored_at list_api demo_response 2 0 6))
        (sec_msgs HeadersSec (stored_at list_api demo_response 2 0 7))
    \<and> prefix (sec_msgs HeadersSec (stored_at list_api demo_response 2 0 7)) (resp_msgs list_api demo_response HeadersSec)"
proof -
  have "writeToBlock '':status'' (new_CacheEntryProducer\<lparr>cache_entry_ptr_m := Some 0, buffers_m := Some HeadersSec\<rparr>)
      = Inr (False, new_CacheEntryProducer\<lparr>cache_entry_ptr_m := Some 0, buffers_m := Some HeadersSec,
          data_block_m := memcpy_at 0 '':status'' (replicate BLOCK_SIZE_BYTES (CHR 0x00)), message_size_m := 7\<rparr>)"
    by (simp add: writeToBlock_empty new_CacheEntryProducer_def BLOCK_SIZE_BYTES_def)
  then have "length (headers_buffers_m (stored_at list_api demo_response 2 0 6)) = 1"
    by (simp add: stored_at_def storing_config_def response_ops_def demo_response_def numeral_eq_Suc start_write_def
        initCacheEntry_def block_step_def emplace_step_def new_CacheEntry_def new_CacheEntryProducer_def)
  then show ?thesis using growing_entry_is_prefix [OF demo_ok(1), of 2 6 7 HeadersSec 0] by simp
qed

end
