(* ===== verification/Request_Flow.thy ===== *)
theory Request_Flow
  imports Coalescing Writer_Steps
begin

text \<open>
  Whole requests through the filter: a miss that stores the response and serves the requests that
  were coalesced on the leader's thread, and a hit that is served from the cache.
\<close>

section \<open>A response of the origin\<close>

lemma upstream_complete: "upstream_run api env [UpComplete] x = (case x of (f, s) \<Rightarrow> encodeComplete api env f s)"
  by (cases x) (simp add: bindRun_def split: option.split sum.split)

text \<open>The cache after the headers of a response: it holds the entry when the status is a success.\<close>

definition cached :: "bool \<Rightarrow> bytes \<Rightarrow> entry_id \<Rightarrow> entry_id lru_cache \<Rightarrow> entry_id lru_cache" where
  "cached ok key a c = (if ok then (case cache_insert key a c of Inr c' \<Rightarrow> c' | Inl _ \<Rightarrow> c) else c)"

lemma cached_ok:
  assumes "lru_wf c"
  shows "if ok then cache_insert key a c = Inr (cached ok key a c) else cached ok key a c = c"
    "lru_wf (cached ok key a c)"
    "lru_entries (cached ok key a c) = (if ok then spec_insert (unat (capacity_m c)) key a (lru_entries c) else lru_entries c)"
  using insert_refines [OF assms, of key a] assms by (auto simp: cached_def)

lemma leader_run:
  assumes st: "storing api [] cap a f s" and ok: "resp_ok api resp" "drains api" "0 < unat cap"
    and first: "is_first_headers_m f" "is_first_data_m f" "is_first_trailers_m f"
    and valid: "checkSuccessfulStatusCode api (resp_headers resp) f = (True, f1)"
    and l: "leads f w s" and none: "other_rc_groups_m (wrappers_m s ! w) = []"
    and env: "quiet env" and k: "consumer_idle (cache_entry_consumer_m f)" and sok: "statics_ok s"
    and wf: "lru_wf (cache_m s)"
  shows "\<exists>f' s'. upstream_run api env (upstream_calls resp) (f, s) = Some (Inr (f', s'))
    \<and> delivered_m s' = delivered_m s @ map (\<lambda>cb. (cb, resp_events api resp))
              (waiting_decoder_callbacks_m (wrappers_m s ! w))
    \<and> rc_inv s' \<and> group_of (request_headers_str_key_m f) s' = None
    \<and> a < length (entries_m s') \<and> finished api resp (entries_m s' ! a) \<and> statics_ok s'
    \<and> cache_m s' = cached (successful_status_code_m f1) (request_headers_str_key_m f) a (cache_m s)
    \<and> shared_response_entry_m (wrappers_m s' ! w) = Some a"
proof -
  let ?c = "cached (successful_status_code_m f1) (request_headers_str_key_m f) a (cache_m s)"
  let ?g = "\<lambda>r. r\<lparr>shared_response_entry_m := Some a\<rparr>"
  have w: "response_wrapper_rc_ptr_m f = Some w" "w < length (wrappers_m s)" "rc_inv s"
    "group_of (request_headers_str_key_m f) s = Some w" "leader_thread_id_m (wrappers_m s ! w) = this_thread_id_m f"
    using l rc_invD(1) [of "{}" s] by (auto simp: leads_def)
  from front_run [OF st ok(1,3) first valid w(1,2) cached_ok(1) [OF wf], of env] obtain p e b b' ops f2 s2 where
    1: "upstream_run api env (front_calls resp) (f, s) = Some (Inr (f2, s2))"
    and f2: "f2 = f1\<lparr>is_first_headers_m := False, is_first_data_m := b, is_first_trailers_m := b',
        cache_entry_producer_m := p\<rparr>"
    and s2: "s2 = set_entry a e (upd_wrapper w ?g (s\<lparr>cache_m := ?c\<rparr>))"
    and ops: "ops @ [OpComplete] = response_ops resp" and st2: "storing api ops cap a f2 s2"
    by blast
  have f1: "f1 = f\<lparr>successful_status_code_m := successful_status_code_m f1\<rparr>"
    using valid by (auto simp: checkSuccessfulStatusCode_def Let_def split: option.splits if_splits)
  have fl: "request_headers_str_key_m f1 = request_headers_str_key_m f" "response_wrapper_rc_ptr_m f1 = Some w"
    "this_thread_id_m f1 = this_thread_id_m f" "cache_entry_consumer_m f1 = cache_entry_consumer_m f"
    using w by (subst f1, simp)+
  have ww: "wrappers_m s2 = (wrappers_m s)[w := ?g (wrappers_m s ! w)]" by (simp add: s2 upd_wrapper_def)
  have "rc_inv s2" unfolding s2 using w(3) by (simp add: rc_inv_upd_wrapper)
  then have l2: "leads f2 w s2" using w by (simp add: leads_def f2 fl s2 ww upd_wrapper_def)
  have k2: "consumer_idle (cache_entry_consumer_m f2)" "statics_ok s2"
    using k sok by (simp_all add: f2 fl s2 statics_ok_def)
  have none2: "other_rc_groups_m (wrappers_m s2 ! w) = []" using none w by (simp add: ww)
  from complete_run [OF st2 ops l2 none2 env k2 ok] obtain f' s' where
    2: "encodeComplete api env f2 s2 = Some (Inr (f', s'))"
    and s': "delivered_m s' = delivered_m s2 @ map (\<lambda>cb. (cb, resp_events api resp))
              (waiting_decoder_callbacks_m (wrappers_m s2 ! w))"
      "rc_inv s' \<and> group_of (request_headers_str_key_m f2) s' = None"
      "a < length (entries_m s') \<and> finished api resp (entries_m s' ! a)" "cache_m s' = cache_m s2" "statics_ok s'"
      "wrappers_m s' = wrappers_m s2"
    by blast
  have "upstream_run api env (upstream_calls resp) (f, s) = Some (Inr (f', s'))"
    unfolding upstream_calls_def upstream_run_append 1 using 2 by simp
  moreover have "delivered_m s2 = delivered_m s" "cache_m s2 = ?c" by (simp_all add: s2)
  moreover have "waiting_decoder_callbacks_m (wrappers_m s2 ! w) = waiting_decoder_callbacks_m (wrappers_m s ! w)"
    "shared_response_entry_m (wrappers_m s2 ! w) = Some a"
    using w(2) by (simp_all add: ww)
  ultimately show ?thesis using s' by (simp add: f2 fl)
qed

section \<open>The start of a request\<close>

definition cache_key :: "request_headers \<Rightarrow> bytes" where
  "cache_key h = getHostValue h @ getPathValue h @ getMethodValue h @ getSchemeValue h @ getUserAgentValue h"

definition fresh :: "'h http_filter \<Rightarrow> bool" where
  "fresh f \<longleftrightarrow> request_headers_str_key_m f = [] \<and> is_first_headers_m f \<and> is_first_data_m f
     \<and> is_first_trailers_m f \<and> successful_status_code_m f \<and> cache_entry_producer_m f = new_CacheEntryProducer
     \<and> consumer_idle (cache_entry_consumer_m f)"

lemma fresh_success: "fresh f \<Longrightarrow> successful_status_code_m f"
  by (simp add: fresh_def)

lemma fresh_key: "fresh f \<Longrightarrow> request_headers_str_key_m (createRequestHeadersStrKey h f) = cache_key h"
  by (simp add: fresh_def createRequestHeadersStrKey_def cache_key_def)

text \<open>A state between the callbacks: groups, cache and static members are in order.\<close>

definition calm :: "'h shared \<Rightarrow> bool" where
  "calm s \<longleftrightarrow> rc_inv s \<and> lru_wf (cache_m s)
     \<and> (is_block_with_ones_initialized_m (statics_m s) \<longrightarrow> statics_ok s)"

lemma calm_initial: "calm initial_shared"
  by (simp add: calm_def rc_inv_initial) (simp add: initial_shared_def lru_wf_new initial_statics_def)

lemma statics_frame [simp]:
  "rc_inv (s\<lparr>statics_m := st\<rparr>) = rc_inv s" "group_of k (s\<lparr>statics_m := st\<rparr>) = group_of k s"
  "led_groups t (s\<lparr>statics_m := st\<rparr>) = led_groups t s"
  by (simp_all add: rc_inv_on_def group_of_def led_groups_def)

lemma new_filter:
  fixes s :: "'h shared"
  assumes calm: "calm s" and new: "HttpCacheRCFilter cb config s = (f, s')"
  shows "fresh f \<and> config_m f = config \<and> decoder_callbacks_m f = cb \<and> calm s' \<and> statics_ok s'"
    "lru_entries (cache_m s') = lru_entries (cache_m s)" "entries_m s' = entries_m s"
    "delivered_m s' = delivered_m s" "group_of key s' = group_of key s" "led_groups t s' = led_groups t s"
    "capacity_m (cache_m s') = (if capacity_m (cache_m s) = 0 then cache_capacity_cfg config else capacity_m (cache_m s))"
    "wrappers_m s' = wrappers_m s"
proof -
  obtain st and k :: "'h consumer" where k: "new_CacheEntryConsumer (statics_m s) = (st, k)"
    by (metis surj_pair)
  then have st: "k = CacheEntryConsumer_fields" "block_with_ones_m st = end_block"
    using calm by (auto simp: new_CacheEntryConsumer_def ctor_claim_def ctor_fill_def calm_def statics_ok_def
      split: if_splits prod.splits)
  let ?c = "if getCacheCapacity (cache_m s) = 0 then initCacheCapacity (cache_capacity_cfg config) (cache_m s) else cache_m s"
  have s': "s' = s\<lparr>statics_m := st, cache_m := ?c\<rparr>" and f: "f = \<lparr>config_m = config, request_headers_str_key_m = [],
      entry_cached_m = True, successful_status_code_m = True, is_first_headers_m = True, is_first_data_m = True,
      is_first_trailers_m = True, cache_entry_producer_m = new_CacheEntryProducer,
      cache_entry_consumer_m = CacheEntryConsumer_fields, response_wrapper_rc_ptr_m = None,
      this_thread_id_m = 0, decoder_callbacks_m = cb\<rparr>"
    using new k st by (simp_all add: HttpCacheRCFilter_def Let_def)
  have c: "lru_wf ?c" "lru_entries ?c = lru_entries (cache_m s)"
    using lru_wf_init [of "cache_m s" "cache_capacity_cfg config"] calm by (auto simp: calm_def)
  show "fresh f \<and> config_m f = config \<and> decoder_callbacks_m f = cb \<and> calm s' \<and> statics_ok s'"
    using calm c(1) st(2) consumer_idle_new by (simp add: f s' fresh_def calm_def statics_ok_def)
  show "lru_entries (cache_m s') = lru_entries (cache_m s)" using c(2) by (simp add: s')
  show "capacity_m (cache_m s') = (if capacity_m (cache_m s) = 0 then cache_capacity_cfg config else capacity_m (cache_m s))"
    by (simp add: s' getCacheCapacity_def initCacheCapacity_def)
qed (use new in \<open>auto simp: HttpCacheRCFilter_def Let_def split: prod.splits\<close>)

text \<open>A miss: the request becomes the leader of a new group and starts a new entry.\<close>

lemma decode_miss:
  assumes calm: "calm s" and env: "begin_ok env" and f: "fresh f"
    and miss: "group_of (cache_key h) s = None" "map_of (lru_entries (cache_m s)) (cache_key h) = None"
  shows "\<exists>f' s'. decodeHeaders api env t h f s = Some (Inr (Continue, f', s'))
    \<and> storing api [] (ring_buffer_capacity_cfg (config_m f)) (length (entries_m s)) f' s'
    \<and> leads f' (length (wrappers_m s)) s' \<and> calm s' \<and> statics_m s' = statics_m s
    \<and> wrappers_m s' = wrappers_m s @ [\<lparr>leader_thread_id_m = t, waiting_decoder_callbacks_m = [],
         shared_response_entry_m = None, other_rc_groups_m = []\<rparr>]
    \<and> is_first_headers_m f' \<and> is_first_data_m f' \<and> is_first_trailers_m f' \<and> successful_status_code_m f'
    \<and> consumer_idle (cache_entry_consumer_m f') \<and> request_headers_str_key_m f' = cache_key h \<and> this_thread_id_m f' = t
    \<and> delivered_m s' = delivered_m s \<and> lru_entries (cache_m s') = lru_entries (cache_m s)
    \<and> capacity_m (cache_m s') = capacity_m (cache_m s)
    \<and> take (length (entries_m s)) (entries_m s') = entries_m s"
proof -
  let ?f1 = "(createRequestHeadersStrKey h f)\<lparr>this_thread_id_m := t\<rparr>"
  have key: "request_headers_str_key_m ?f1 = cache_key h" using fresh_key [OF f] by simp
  have cl: "classify t (cache_key h) s = INITIAL_LEADER" using miss(1) by (simp add: classify_def)
  have inv: "rc_inv s" "lru_wf (cache_m s)" using calm by (simp_all add: calm_def)
  from getThreadStatus_ok [OF inv(1) env not_in_empty, of ?f1] key cl obtain s2 where
    g: "getThreadStatus env ?f1 s = Some (Inr (INITIAL_LEADER, ?f1\<lparr>response_wrapper_rc_ptr_m := Some (length (wrappers_m s))\<rparr>, s2))"
    and s2: "rc_inv s2" "group_of (cache_key h) s2 = Some (length (wrappers_m s))" "cache_m s2 = cache_m s"
      "entries_m s2 = entries_m s" "statics_m s2 = statics_m s" "delivered_m s2 = delivered_m s"
      "wrappers_m s2 = wrappers_m s @ [\<lparr>leader_thread_id_m = t, waiting_decoder_callbacks_m = [],
           shared_response_entry_m = None, other_rc_groups_m = []\<rparr>]"
    by auto
  from at_refines [OF inv(2), of "cache_key h"] miss(2) obtain c where
    c: "at (cache_key h) (cache_m s) = Inr (None, c)" "lru_entries c = lru_entries (cache_m s)" "lru_wf c"
      "capacity_m c = capacity_m (cache_m s)"
    by (auto simp: spec_at_def)
  let ?cap = "ring_buffer_capacity_cfg (config_m f)" and ?a = "length (entries_m s)"
  let ?f' = "?f1\<lparr>response_wrapper_rc_ptr_m := Some (length (wrappers_m s)), entry_cached_m := False,
    cache_entry_producer_m := fst (initCacheEntry ?cap ?a (cache_entry_producer_m f))\<rparr>"
  let ?s' = "s2\<lparr>cache_m := c, entries_m := entries_m s @ [snd (initCacheEntry ?cap ?a (cache_entry_producer_m f))]\<rparr>"
  have cf: "config_m ?f1 = config_m f" "cache_entry_producer_m ?f1 = cache_entry_producer_m f"
    by (simp_all add: createRequestHeadersStrKey_def)
  have d: "decodeHeaders api env t h f s = Some (Inr (Continue, ?f', ?s'))"
    using g c(1) key cf s2(3,4) by (simp add: decodeHeaders_def Let_def split: prod.split)
  have "start_write ?cap ?a = initCacheEntry ?cap ?a (cache_entry_producer_m f)"
    using f by (simp add: fresh_def start_write_def)
  then have "storing api [] ?cap ?a ?f' ?s'"
    by (auto simp: storing_def initCacheEntry_def)
  moreover have "leads ?f' (length (wrappers_m s)) ?s'" using s2 key by (simp add: leads_def)
  moreover have "calm ?s'" using s2 c calm by (simp add: calm_def statics_ok_def)
  moreover have "is_first_headers_m ?f' \<and> is_first_data_m ?f' \<and> is_first_trailers_m ?f' \<and> successful_status_code_m ?f'
    \<and> consumer_idle (cache_entry_consumer_m ?f') \<and> request_headers_str_key_m ?f' = cache_key h"
    using f key by (simp add: fresh_def createRequestHeadersStrKey_def)
  ultimately show ?thesis using d s2 c
    by (intro exI [of _ ?f'] exI [of _ ?s']) simp
qed

text \<open>A hit: the entry is announced and served, and the group dissolved again.\<close>

lemma release_frame [simp]:
  "entries_m (release t s) = entries_m s" "delivered_m (release t s) = delivered_m s"
  "statics_m (release t s) = statics_m s" "cache_m (release t s) = cache_m s" "clock_m (release t s) = clock_m s"
  by (simp_all add: release_def)

lemma leave_group_frame [simp]:
  "entries_m (leave_group t key s) = entries_m s" "delivered_m (leave_group t key s) = delivered_m s"
  "statics_m (leave_group t key s) = statics_m s" "cache_m (leave_group t key s) = cache_m s"
  by (simp_all add: leave_group_def set_led_groups_def rc_assign_def)

lemma leave_at_once:
  assumes l: "leads f w s" and none: "other_rc_groups_m (wrappers_m s ! w) = []" "waiting_decoder_callbacks_m (wrappers_m s ! w) = []"
  shows "bindRun (serveResponseToCurrentRCGroup api env f (detachCurrentRCGroup f s))
        (\<lambda>(f2, s2). attendToOtherRCGroups api env f2 s2)
      = Some (Inr (f, release (this_thread_id_m f) (leave_group (this_thread_id_m f) (request_headers_str_key_m f) s)))"
proof -
  let ?s1 = "rc_assign (request_headers_str_key_m f) None s"
  have w: "response_wrapper_rc_ptr_m f = Some w" "w < length (wrappers_m s)"
    using l rc_invD(1) [of "{}" s] by (auto simp: leads_def)
  have s1: "wrappers_m ?s1 = wrappers_m s" by (simp add: rc_assign_def)
  have "serveResponseToCurrentRCGroup api env f ?s1 = Some (Inr (f, ?s1))"
    using w none by (simp add: serveResponseToCurrentRCGroup_def wrapper_of_def s1)
  moreover have "attendToOtherRCGroups api env f ?s1 = Some (Inr (f, release (this_thread_id_m f)
      (leave_group (this_thread_id_m f) (request_headers_str_key_m f) s)))"
    using attend_no_others [of f w ?s1 api env] w none by (simp add: s1 leave_group_def)
  ultimately show ?thesis by (simp add: detachCurrentRCGroup_def)
qed

lemma decode_hit:
  assumes calm: "calm s" and env: "begin_ok env" "quiet env" and f: "fresh f" and st: "statics_ok s"
    and hit: "group_of (cache_key h) s = None" "map_of (lru_entries (cache_m s)) (cache_key h) = Some a"
    and fin: "finished api resp (entries_m s ! a)" "a < length (entries_m s)"
    and ok: "resp_ok api resp" "drains api"
  shows "\<exists>f' s'. decodeHeaders api env t h f s = Some (Inr (StopIteration, f', s'))
    \<and> delivered_m s' = delivered_m s @ [(decoder_callbacks_m f, resp_events api resp)]
    \<and> calm s' \<and> statics_ok s' \<and> group_of k s' = (if k = cache_key h then None else group_of k s)
    \<and> length (entries_m s') = length (entries_m s) \<and> finished api resp (entries_m s' ! a)
    \<and> lru_entries (cache_m s') = (cache_key h, a) # remove_key (cache_key h) (lru_entries (cache_m s))"
proof -
  let ?f1 = "(createRequestHeadersStrKey h f)\<lparr>this_thread_id_m := t\<rparr>" and ?w = "length (wrappers_m s)"
  let ?f2 = "?f1\<lparr>response_wrapper_rc_ptr_m := Some ?w\<rparr>"
  have key: "request_headers_str_key_m ?f1 = cache_key h" using fresh_key [OF f] by simp
  have cl: "classify t (cache_key h) s = INITIAL_LEADER" using hit(1) by (simp add: classify_def)
  have inv: "rc_inv s" "lru_wf (cache_m s)" using calm by (simp_all add: calm_def)
  from getThreadStatus_ok [OF inv(1) env(1) not_in_empty, of ?f1] key cl obtain s2 where
    g: "getThreadStatus env ?f1 s = Some (Inr (INITIAL_LEADER, ?f2, s2))"
    and s2: "rc_inv s2" "group_of (cache_key h) s2 = Some ?w" "cache_m s2 = cache_m s"
      "entries_m s2 = entries_m s" "statics_m s2 = statics_m s" "delivered_m s2 = delivered_m s"
      "wrappers_m s2 = wrappers_m s @ [\<lparr>leader_thread_id_m = t, waiting_decoder_callbacks_m = [],
           shared_response_entry_m = None, other_rc_groups_m = []\<rparr>]"
      "k \<noteq> cache_key h \<Longrightarrow> group_of k s2 = group_of k s" for k
      by auto
  from at_refines [OF inv(2), of "cache_key h"] hit(2) obtain c where
    c: "at (cache_key h) (cache_m s) = Inr (Some a, c)" "lru_wf c"
      "lru_entries c = (cache_key h, a) # remove_key (cache_key h) (lru_entries (cache_m s))"
    by (auto simp: spec_at_def)
  let ?s3 = "upd_wrapper ?w (\<lambda>r. r\<lparr>shared_response_entry_m := Some a\<rparr>) (s2\<lparr>cache_m := c\<rparr>)"
  have nf: "notifyWaitingCoalescedRequests (Some a) ?f2 (s2\<lparr>cache_m := c\<rparr>) = Inr ?s3"
    by (simp add: notifyWaitingCoalescedRequests_def wrapper_of_def s2)
  have f2: "consumer_idle (cache_entry_consumer_m ?f2)" "decoder_callbacks_m ?f2 = decoder_callbacks_m f"
    using f by (simp_all add: fresh_def createRequestHeadersStrKey_def)
  have s3: "entries_m ?s3 = entries_m s" "statics_ok ?s3" "rc_inv ?s3" "delivered_m ?s3 = delivered_m s"
    using s2 st by (simp_all add: statics_ok_def rc_inv_upd_wrapper)
  from serve_entry_ok [of api resp ?s3 a env ?f2 "decoder_callbacks_m f"] fin s3 env(2) f2 ok obtain k' e' n' where
    sv: "serve_entry api env (Some a) (decoder_callbacks_m f) ?f2 ?s3 = Some (Inr (?f2\<lparr>cache_entry_consumer_m := k'\<rparr>,
      ?s3\<lparr>entries_m := (entries_m s)[a := e'], delivered_m := delivered_m s @ [(decoder_callbacks_m f, resp_events api resp)],
        clock_m := n'\<rparr>))" and e': "same_content (entries_m s ! a) e'" by auto
  let ?f4 = "?f2\<lparr>cache_entry_consumer_m := k'\<rparr>"
  let ?s4 = "?s3\<lparr>entries_m := (entries_m s)[a := e'],
      delivered_m := delivered_m s @ [(decoder_callbacks_m f, resp_events api resp)], clock_m := n'\<rparr>"
  have wr: "wrappers_m ?s4 ! ?w = \<lparr>leader_thread_id_m = t, waiting_decoder_callbacks_m = [],
      shared_response_entry_m = Some a, other_rc_groups_m = []\<rparr>"
    by (simp add: upd_wrapper_def s2)
  have gr: "group_of (cache_key h) ?s4 = Some ?w" using s2(2) by simp
  have l: "leads ?f4 ?w ?s4" using s3(3) key gr wr unfolding leads_def by simp
  let ?s5 = "release t (leave_group t (cache_key h) ?s4)"
  have lv: "bindRun (serveResponseToCurrentRCGroup api env ?f4 (detachCurrentRCGroup ?f4 ?s4))
        (\<lambda>(f2, s2). attendToOtherRCGroups api env f2 s2) = Some (Inr (?f4, ?s5))"
    using leave_at_once [OF l, of api env] wr key by simp
  have d: "decodeHeaders api env t h f s = bindRun (bindRun (serveResponseToCurrentRCGroup api env ?f4 (detachCurrentRCGroup ?f4 ?s4))
        (\<lambda>(f2, s2). attendToOtherRCGroups api env f2 s2)) (\<lambda>(f7, s7). Some (Inr (StopIteration, f7, s7)))"
    using g c(1) key nf sv f2(2) s2(3) by (simp add: decodeHeaders_def Let_def bindRun_assoc split_def)
  have inv4: "rc_inv ?s4" using s3(3) by simp
  have lead: "leader_thread_id_m (wrappers_m ?s4 ! ?w) = t" by (subst wr) simp
  have "rc_inv ?s5" by (rule rc_inv_leave [OF inv4 gr lead])
  then have "calm ?s5" using s3(2) c(2) by (simp add: calm_def statics_ok_def)
  moreover have "finished api resp e'" using finished_same [OF fin(1) e'] .
  moreover have "group_of k ?s5 = (if k = cache_key h then None else group_of k s)" for k
    using s2(8) by simp
  ultimately show ?thesis using d lv s3(2) c(3) fin(2)
    by (intro exI [of _ ?f4] exI [of _ ?s5]) (simp add: statics_ok_def)
qed

section \<open>Requests that join the group on the leader's thread\<close>

fun joined :: "'h envoy_api \<Rightarrow> 'h environ \<Rightarrow> thread_id \<Rightarrow> request_headers \<Rightarrow> 'h http_filter list \<Rightarrow> 'h shared \<Rightarrow>
    (filter_status list \<times> 'h shared) run" where
  "joined api env t h [] s = Some (Inr ([], s))"
| "joined api env t h (g # gs) s =
     bindRun (decodeHeaders api env t h g s) (\<lambda>(st, _, s').
     bindRun (joined api env t h gs s') (\<lambda>(sts, s''). Some (Inr (st # sts, s''))))"

text \<open>All of these requests are stopped.\<close>

abbreviation all_stopped :: "'h http_filter list \<Rightarrow> filter_status list" where
  "all_stopped gs \<equiv> replicate (length gs) StopIteration"

lemma leader_request:
  assumes inv: "rc_inv s" and env: "begin_ok env" and g: "fresh g"
    and w: "group_of (cache_key h) s = Some w" "leader_thread_id_m (wrappers_m s ! w) = t"
  shows "\<exists>g'. decodeHeaders api env t h g s = Some (Inr (StopIteration, g', upd_wrapper w (\<lambda>r.
    r\<lparr>waiting_decoder_callbacks_m := waiting_decoder_callbacks_m r @ [decoder_callbacks_m g]\<rparr>) s))"
proof -
  let ?g1 = "(createRequestHeadersStrKey h g)\<lparr>this_thread_id_m := t\<rparr>"
  have key: "request_headers_str_key_m ?g1 = cache_key h" using fresh_key [OF g] by simp
  have cb: "decoder_callbacks_m ?g1 = decoder_callbacks_m g" by (simp add: createRequestHeadersStrKey_def)
  have cl: "classify t (cache_key h) s = LEADER" using w by (simp add: classify_def)
  from getThreadStatus_ok [OF inv env not_in_empty, of ?g1] key cl cb obtain s2 w2 where
    gs: "getThreadStatus env ?g1 s = Some (Inr (LEADER, ?g1\<lparr>response_wrapper_rc_ptr_m := Some w2\<rparr>, s2))"
    and s2: "s2 = upd_wrapper w2 (\<lambda>r. r\<lparr>waiting_decoder_callbacks_m :=
         waiting_decoder_callbacks_m r @ [decoder_callbacks_m g]\<rparr>) s" "group_of (cache_key h) s2 = Some w2"
    by auto
  have "w2 = w" using w(1) s2 by simp
  then show ?thesis using gs s2(1) by (simp add: decodeHeaders_def Let_def)
qed

lemma joined_requests:
  assumes "rc_inv s" and env: "begin_ok env" and "\<forall>g \<in> set gs. fresh g"
    and "group_of (cache_key h) s = Some w" "leader_thread_id_m (wrappers_m s ! w) = t"
  shows "joined api env t h gs s = Some (Inr (all_stopped gs, upd_wrapper w (\<lambda>r.
    r\<lparr>waiting_decoder_callbacks_m := waiting_decoder_callbacks_m r @ map decoder_callbacks_m gs\<rparr>) s))"
  using assms(1,3,4,5)
proof (induction gs arbitrary: s)
  case Nil
  then show ?case by (simp add: upd_wrapper_def)
next
  case (Cons g gs)
  let ?s1 = "upd_wrapper w (\<lambda>r. r\<lparr>waiting_decoder_callbacks_m :=
    waiting_decoder_callbacks_m r @ [decoder_callbacks_m g]\<rparr>) s"
  have w: "w < length (wrappers_m s)" using rc_invD(1) [OF Cons.prems(1,3)] by simp
  obtain g' where d: "decodeHeaders api env t h g s = Some (Inr (StopIteration, g', ?s1))"
    using leader_request [OF Cons.prems(1) env _ Cons.prems(3,4), of g api] Cons.prems(2) by auto
  have "rc_inv ?s1" by (rule rc_inv_upd_wrapper [OF Cons.prems(1)]) simp
  moreover have "leader_thread_id_m (wrappers_m ?s1 ! w) = t" using Cons.prems(4) w by (simp add: upd_wrapper_def)
  ultimately have "joined api env t h gs ?s1 = Some (Inr (all_stopped gs, upd_wrapper w (\<lambda>r. r\<lparr>waiting_decoder_callbacks_m :=
    waiting_decoder_callbacks_m r @ map decoder_callbacks_m gs\<rparr>) ?s1))"
    using Cons by simp
  then show ?case using d w by (simp add: upd_wrapper_def)
qed

text \<open>A miss, requests that join, and the response of the origin.\<close>

lemma success_code:
  assumes "stoi (hm_status api hs) = Some code" and "0 \<le> code" and "successful_status_code_m f"
  shows "checkSuccessfulStatusCode api hs f = (True, f\<lparr>successful_status_code_m :=
    (200 \<le> code mod 65536 \<and> code mod 65536 < 300)\<rparr>)"
  using assms status_word [OF assms(2)] by (auto simp: checkSuccessfulStatusCode_def Let_def not_less)

abbreviation success :: "int \<Rightarrow> bool" where
  "success code \<equiv> 200 \<le> code mod 65536 \<and> code mod 65536 < 300"

lemma miss_join_respond:
  assumes calm: "calm s" "statics_ok s" and env: "begin_ok env" "quiet env" and f: "fresh f"
    and cap: "0 < unat (ring_buffer_capacity_cfg (config_m f))" and gs: "\<forall>g \<in> set gs. fresh g"
    and miss: "group_of (cache_key h) s = None" "map_of (lru_entries (cache_m s)) (cache_key h) = None"
    and ok: "resp_ok api resp" "drains api"
    and code: "stoi (hm_status api (resp_headers resp)) = Some code" "0 \<le> code"
  shows "\<exists>f1 s1 s2 f3 s3. decodeHeaders api env t h f s = Some (Inr (Continue, f1, s1))
    \<and> joined api env t h gs s1 = Some (Inr (all_stopped gs, s2))
    \<and> upstream_run api env (upstream_calls resp) (f1, s2) = Some (Inr (f3, s3))
    \<and> delivered_m s3 = delivered_m s @ map (\<lambda>g. (decoder_callbacks_m g, resp_events api resp)) gs
    \<and> calm s3 \<and> statics_ok s3 \<and> group_of (cache_key h) s3 = None
    \<and> length (entries_m s) < length (entries_m s3) \<and> finished api resp (entries_m s3 ! length (entries_m s))
    \<and> lru_entries (cache_m s3) = (if success code
         then spec_insert (unat (capacity_m (cache_m s))) (cache_key h) (length (entries_m s)) (lru_entries (cache_m s))
         else lru_entries (cache_m s))"
proof -
  let ?w = "length (wrappers_m s)" and ?a = "length (entries_m s)" and ?cap = "ring_buffer_capacity_cfg (config_m f)"
  from decode_miss [OF calm(1) env(1) f miss, of api t] obtain f1 s1 where
    1: "decodeHeaders api env t h f s = Some (Inr (Continue, f1, s1))" "storing api [] ?cap ?a f1 s1"
      "leads f1 ?w s1" "calm s1" "statics_m s1 = statics_m s"
      "wrappers_m s1 = wrappers_m s @ [\<lparr>leader_thread_id_m = t, waiting_decoder_callbacks_m = [],
         shared_response_entry_m = None, other_rc_groups_m = []\<rparr>]"
      "is_first_headers_m f1" "is_first_data_m f1" "is_first_trailers_m f1" "successful_status_code_m f1"
      "consumer_idle (cache_entry_consumer_m f1)" "request_headers_str_key_m f1 = cache_key h" "this_thread_id_m f1 = t"
      "delivered_m s1 = delivered_m s" "lru_entries (cache_m s1) = lru_entries (cache_m s)"
      "capacity_m (cache_m s1) = capacity_m (cache_m s)"
    by blast
  let ?s2 = "upd_wrapper ?w (\<lambda>r. r\<lparr>waiting_decoder_callbacks_m :=
    waiting_decoder_callbacks_m r @ map decoder_callbacks_m gs\<rparr>) s1"
  have inv1: "rc_inv s1" "lru_wf (cache_m s1)" using 1(4) by (simp_all add: calm_def)
  have gr: "group_of (cache_key h) s1 = Some ?w" using 1(3,12) by (simp add: leads_def)
  have j: "joined api env t h gs s1 = Some (Inr (all_stopped gs, ?s2))"
    by (rule joined_requests [OF inv1(1) env(1) gs gr]) (simp add: 1(6))
  have ww: "wrappers_m ?s2 ! ?w = \<lparr>leader_thread_id_m = t, waiting_decoder_callbacks_m = map decoder_callbacks_m gs,
         shared_response_entry_m = None, other_rc_groups_m = []\<rparr>"
    by (simp add: upd_wrapper_def 1(6))
  have inv2: "rc_inv ?s2" by (rule rc_inv_upd_wrapper [OF inv1(1)]) simp
  have l2: "leads f1 ?w ?s2" using 1(3,13) inv2 unfolding leads_def by (subst ww) simp
  have so2: "statics_ok ?s2" using calm(2) 1(5) by (simp add: statics_ok_def)
  have st2: "storing api [] ?cap ?a f1 ?s2" using 1(2) by simp
  have none2: "other_rc_groups_m (wrappers_m ?s2 ! ?w) = []" by (subst ww) simp
  have wf2: "lru_wf (cache_m ?s2)" using inv1(2) by simp
  from leader_run [OF st2 ok cap 1(7-9) success_code [OF code 1(10)] l2 none2 env(2) 1(11) so2 wf2]
  obtain f3 s3 where 3: "upstream_run api env (upstream_calls resp) (f1, ?s2) = Some (Inr (f3, s3))"
      "delivered_m s3 = delivered_m ?s2 @ map (\<lambda>cb. (cb, resp_events api resp))
              (waiting_decoder_callbacks_m (wrappers_m ?s2 ! ?w))"
      "rc_inv s3" "group_of (cache_key h) s3 = None"
      "?a < length (entries_m s3)" "finished api resp (entries_m s3 ! ?a)" "statics_ok s3"
      "cache_m s3 = cached (success code) (cache_key h) ?a (cache_m s1)"
    using 1(12) by auto
  have "calm s3" using 3(3,7,8) cached_ok(2) [OF inv1(2)] by (simp add: calm_def)
  moreover have "lru_entries (cache_m s3) = (if success code
         then spec_insert (unat (capacity_m (cache_m s))) (cache_key h) ?a (lru_entries (cache_m s))
         else lru_entries (cache_m s))"
    unfolding 3(8) using cached_ok(3) [OF inv1(2)] 1(15,16) by simp
  moreover have "delivered_m s3 = delivered_m s @ map (\<lambda>g. (decoder_callbacks_m g, resp_events api resp)) gs"
    unfolding 3(2) ww using 1(14) by (simp add: comp_def)
  ultimately show ?thesis using 1(1) j 3(1,4-7) by blast
qed

section \<open>Properties\<close>

text \<open>
  C3: request coalescing on one thread. A request that misses goes on to the origin; the requests
  with the same key that arrive on its thread before the response are stopped (\<^verbatim>\<open>decodeHeaders\<close> returns
  \<^verbatim>\<open>StopIteration\<close> for each), and when the response
  comes through the filter -- whatever its status code -- each of them gets exactly the calls of
  this response, in the order of arrival; nothing faults, the group is dissolved afterwards and the
  stored entry is complete.
\<close>

theorem coalesced_requests_served:
  assumes "calm s" and "statics_ok s" and "begin_ok env" and "quiet env" and "fresh f" and "\<forall>g \<in> set gs. fresh g"
    and "0 < unat (ring_buffer_capacity_cfg (config_m f))"
    and "group_of (cache_key h) s = None" and "map_of (lru_entries (cache_m s)) (cache_key h) = None"
    and "resp_ok api resp" and "drains api" and "stoi (hm_status api (resp_headers resp)) = Some code" and "0 \<le> code"
  shows "\<exists>f1 s1 s2 f3 s3. decodeHeaders api env t h f s = Some (Inr (Continue, f1, s1))
    \<and> joined api env t h gs s1 = Some (Inr (all_stopped gs, s2))
    \<and> upstream_run api env (upstream_calls resp) (f1, s2) = Some (Inr (f3, s3))
    \<and> delivered_m s3 = delivered_m s @ map (\<lambda>g. (decoder_callbacks_m g, resp_events api resp)) gs
    \<and> rc_inv s3 \<and> group_of (cache_key h) s3 = None \<and> finished api resp (entries_m s3 ! length (entries_m s))"
  using miss_join_respond [OF assms(1-5,7,6,8-13), of t] unfolding calm_def by blast

text \<open>A filter that Envoy has just created, and a request.\<close>

definition demo_filter :: "callback_id \<Rightarrow> 'h http_filter" where
  "demo_filter cb = fst (HttpCacheRCFilter cb \<lparr>ring_buffer_capacity_cfg = 1, cache_capacity_cfg = 2\<rparr> initial_shared)"

definition demo_shared :: "'h shared" where
  "demo_shared = snd (HttpCacheRCFilter 0 \<lparr>ring_buffer_capacity_cfg = 1, cache_capacity_cfg = 2\<rparr> initial_shared)"

definition demo_request :: request_headers where
  "demo_request = \<lparr>getHostValue = ''h'', getPathValue = ''/'', getMethodValue = ''GET'', getSchemeValue = ''http'',
     getUserAgentValue = ''u''\<rparr>"

lemma demo_filter: "fresh (demo_filter cb :: 'h http_filter)" "decoder_callbacks_m (demo_filter cb :: 'h http_filter) = cb"
  "config_m (demo_filter cb :: 'h http_filter) = \<lparr>ring_buffer_capacity_cfg = 1, cache_capacity_cfg = 2\<rparr>"
proof -
  have "calm (initial_shared :: 'h shared)" by (rule calm_initial)
  note n = new_filter(1) [OF this surjective_pairing, of cb "\<lparr>ring_buffer_capacity_cfg = 1, cache_capacity_cfg = 2\<rparr>"]
  show "fresh (demo_filter cb :: 'h http_filter)" "decoder_callbacks_m (demo_filter cb :: 'h http_filter) = cb"
    "config_m (demo_filter cb :: 'h http_filter) = \<lparr>ring_buffer_capacity_cfg = 1, cache_capacity_cfg = 2\<rparr>"
    using n by (simp_all add: demo_filter_def)
qed

lemma demo_shared: "calm (demo_shared :: 'h shared)" "statics_ok (demo_shared :: 'h shared)" "group_of k (demo_shared :: 'h shared) = None"
  "lru_entries (cache_m (demo_shared :: 'h shared)) = []" "delivered_m (demo_shared :: 'h shared) = []" "entries_m (demo_shared :: 'h shared) = []"
  "capacity_m (cache_m (demo_shared :: 'h shared)) = 2"
proof -
  have "calm (initial_shared :: 'h shared)" by (rule calm_initial)
  note n = new_filter [OF this surjective_pairing, where cb = 0 and config = "\<lparr>ring_buffer_capacity_cfg = 1, cache_capacity_cfg = 2\<rparr>"]
  have i: "group_of k (initial_shared :: 'h shared) = None" "lru_entries (cache_m (initial_shared :: 'h shared)) = []"
    "delivered_m (initial_shared :: 'h shared) = []" "entries_m (initial_shared :: 'h shared) = []"
    "capacity_m (cache_m (initial_shared :: 'h shared)) = 0"
    by (simp_all add: initial_shared_def group_of_def lru_entries_def new_HTTPLRURAMCache_def)
  show "calm (demo_shared :: 'h shared)" "statics_ok (demo_shared :: 'h shared)" "group_of k (demo_shared :: 'h shared) = None"
    "lru_entries (cache_m (demo_shared :: 'h shared)) = []" "delivered_m (demo_shared :: 'h shared) = []"
    "entries_m (demo_shared :: 'h shared) = []" "capacity_m (cache_m (demo_shared :: 'h shared)) = 2"
    using n i by (simp_all add: demo_shared_def)
qed

lemma quiet_demo: "quiet demo_env"
  by (simp add: quiet_def demo_env_def no_interference_def same_content_refl)

lemma demo_code: "stoi (hm_status list_api (resp_headers demo_response)) = Some 200"
  by (simp add: demo_response_def list_api_def stoi_def is_space_def is_digit_def digits_value_def)

theorem coalesced_requests_served_witness:
  "\<exists>f1 s1 s2 f3 s3. decodeHeaders list_api demo_env 5 demo_request (demo_filter 0) demo_shared = Some (Inr (Continue, f1, s1))
    \<and> joined list_api demo_env 5 demo_request [demo_filter 1, demo_filter 2] s1
        = Some (Inr ([StopIteration, StopIteration], s2))
    \<and> upstream_run list_api demo_env (upstream_calls demo_response) (f1, s2) = Some (Inr (f3, s3))
    \<and> delivered_m s3 = [(1, resp_events list_api demo_response), (2, resp_events list_api demo_response)]"
proof -
  have "\<exists>f1 s1 s2 f3 s3. decodeHeaders list_api demo_env 5 demo_request (demo_filter 0) demo_shared = Some (Inr (Continue, f1, s1))
    \<and> joined list_api demo_env 5 demo_request [demo_filter 1, demo_filter 2] s1
        = Some (Inr (all_stopped [demo_filter 1, demo_filter 2 :: (bytes \<times> bytes) list http_filter], s2))
    \<and> upstream_run list_api demo_env (upstream_calls demo_response) (f1, s2) = Some (Inr (f3, s3))
    \<and> delivered_m s3 = delivered_m demo_shared @ map (\<lambda>g. (decoder_callbacks_m g, resp_events list_api demo_response))
        [demo_filter 1, demo_filter 2 :: (bytes \<times> bytes) list http_filter]
    \<and> rc_inv s3 \<and> group_of (cache_key demo_request) s3 = None
    \<and> finished list_api demo_response (entries_m s3 ! length (entries_m (demo_shared :: (bytes \<times> bytes) list shared)))"
    by (rule coalesced_requests_served [OF demo_shared(1,2) begin_ok_demo quiet_demo demo_filter(1) _ _ demo_shared(3) _ demo_ok demo_code])
      (simp_all add: demo_filter demo_shared)
  then show ?thesis by (auto simp: demo_shared demo_filter numeral_2_eq_2)
qed

text \<open>
  C2: a stored response is served from the cache. After a miss and a response with a status code
  from 200 to 299, the next request with the same key, on any thread and with any configuration, is
  stopped, and its decoder callbacks get exactly the calls of the stored response; the groups and
  the cache stay in order and no group is left behind.
\<close>

theorem miss_then_hit:
  assumes "calm s" and "begin_ok env" and "quiet env" and "codec_rules proto"
    and "group_of (cache_key h) s = None" and "map_of (lru_entries (cache_m s)) (cache_key h) = None"
    and "resp_ok api resp" and "drains api"
    and "stoi (hm_status api (resp_headers resp)) = Some code" and "200 \<le> code" and "code < 300"
    and "cache_key h' = cache_key h"
  shows "\<exists>f s0 f1 s1 f2 s2 g s3 g' s4. HttpCacheRCFilter cb (HttpCacheRCConfig proto) s = (f, s0)
    \<and> decodeHeaders api env t h f s0 = Some (Inr (Continue, f1, s1))
    \<and> upstream_run api env (upstream_calls resp) (f1, s1) = Some (Inr (f2, s2))
    \<and> HttpCacheRCFilter cb' config' s2 = (g, s3)
    \<and> decodeHeaders api env t' h' g s3 = Some (Inr (StopIteration, g', s4))
    \<and> delivered_m s4 = delivered_m s @ [(cb', resp_events api resp)]
    \<and> calm s4 \<and> group_of (cache_key h) s4 = None"
proof -
  obtain f s0 where new: "HttpCacheRCFilter cb (HttpCacheRCConfig proto) s = (f, s0)" by (metis surj_pair)
  note n = new_filter [OF assms(1) new]
  have cap: "0 < unat (ring_buffer_capacity_cfg (config_m f))" "0 < unat (capacity_m (cache_m s0))"
    using n(1,7) HttpCacheRCConfig_positive [OF assms(4)] by (simp_all add: unat_gt_0 word_gt_0)
  have m: "group_of (cache_key h) s0 = None" "map_of (lru_entries (cache_m s0)) (cache_key h) = None"
    using assms(5,6) n by simp_all
  have ok0: "calm s0" "statics_ok s0" "fresh f" and code: "0 \<le> code" "success code" using n(1) assms(10,11) by simp_all
  from miss_join_respond [OF ok0(1,2) assms(2,3) ok0(3) cap(1) _ m assms(7-9) code(1), of "[]" t] code(2)
  obtain f1 s1 f2 s2 where
    1: "decodeHeaders api env t h f s0 = Some (Inr (Continue, f1, s1))"
      "upstream_run api env (upstream_calls resp) (f1, s1) = Some (Inr (f2, s2))"
      "delivered_m s2 = delivered_m s0" "calm s2" "group_of (cache_key h) s2 = None"
      "length (entries_m s0) < length (entries_m s2)" "finished api resp (entries_m s2 ! length (entries_m s0))"
      "lru_entries (cache_m s2) = spec_insert (unat (capacity_m (cache_m s0))) (cache_key h) (length (entries_m s0))
         (lru_entries (cache_m s0))"
    by auto
  obtain g s3 where new': "HttpCacheRCFilter cb' config' s2 = (g, s3)" by (metis surj_pair)
  note n' = new_filter [OF 1(4) new']
  have hit: "group_of (cache_key h') s3 = None" "map_of (lru_entries (cache_m s3)) (cache_key h') = Some (length (entries_m s0))"
    using 1(5,8) cap(2) assms(12) n' by (simp_all add: spec_insert_def take_Cons split: nat.split)
  have ok3: "calm s3" "fresh g" "statics_ok s3" using n'(1) by simp_all
  have fin: "finished api resp (entries_m s3 ! length (entries_m s0))" "length (entries_m s0) < length (entries_m s3)"
    using 1(6,7) n' by simp_all
  from decode_hit [OF ok3(1) assms(2,3) ok3(2,3) hit fin assms(7,8), of t' "cache_key h"] obtain g' s4 where
    4: "decodeHeaders api env t' h' g s3 = Some (Inr (StopIteration, g', s4))"
      "delivered_m s4 = delivered_m s3 @ [(decoder_callbacks_m g, resp_events api resp)]"
      "calm s4" "group_of (cache_key h) s4 = None"
    using assms(12) by auto
  have "delivered_m s4 = delivered_m s @ [(cb', resp_events api resp)]"
    using 4(2) 1(3) n n' by simp
  then show ?thesis using new 1(1,2) new' 4 by blast
qed

theorem miss_then_hit_witness:
  "\<exists>f s0 f1 s1 f2 s2 g s3 g' s4. HttpCacheRCFilter 0 (HttpCacheRCConfig \<lparr>ring_buffer_capacity_p = 1, cache_capacity_p = 2\<rparr>)
        initial_shared = (f, s0)
    \<and> decodeHeaders list_api demo_env 5 demo_request f s0 = Some (Inr (Continue, f1, s1))
    \<and> upstream_run list_api demo_env (upstream_calls demo_response) (f1, s1) = Some (Inr (f2, s2))
    \<and> HttpCacheRCFilter 1 \<lparr>ring_buffer_capacity_cfg = 1, cache_capacity_cfg = 2\<rparr> s2 = (g, s3)
    \<and> decodeHeaders list_api demo_env 6 demo_request g s3 = Some (Inr (StopIteration, g', s4))
    \<and> delivered_m s4 = [(1, [EncodeHeaders [('':status'', ''200'')] False, EncodeData ''ab'' False,
        EncodeData ''c'' False, EncodeTrailers [(''t'', ''1'')], EncodeTrailers []])]"
proof -
  have g: "group_of k initial_shared = None" "lru_entries (cache_m initial_shared) = []" "delivered_m (initial_shared :: (bytes \<times> bytes) list shared) = []" for k
    by (simp_all add: initial_shared_def group_of_def lru_entries_def new_HTTPLRURAMCache_def)
  have "\<exists>f s0 f1 s1 f2 s2 g s3 g' s4. HttpCacheRCFilter 0 (HttpCacheRCConfig \<lparr>ring_buffer_capacity_p = 1, cache_capacity_p = 2\<rparr>)
        initial_shared = (f, s0)
    \<and> decodeHeaders list_api demo_env 5 demo_request f s0 = Some (Inr (Continue, f1, s1))
    \<and> upstream_run list_api demo_env (upstream_calls demo_response) (f1, s1) = Some (Inr (f2, s2))
    \<and> HttpCacheRCFilter 1 \<lparr>ring_buffer_capacity_cfg = 1, cache_capacity_cfg = 2\<rparr> s2 = (g, s3)
    \<and> decodeHeaders list_api demo_env 6 demo_request g s3 = Some (Inr (StopIteration, g', s4))
    \<and> delivered_m s4 = delivered_m (initial_shared :: (bytes \<times> bytes) list shared) @ [(1, resp_events list_api demo_response)]
    \<and> calm s4 \<and> group_of (cache_key demo_request) s4 = None"
    by (rule miss_then_hit [OF calm_initial begin_ok_demo quiet_demo _ g(1) _ demo_ok demo_code])
      (simp_all add: codec_rules_def g(2))
  then show ?thesis unfolding demo_events g(3) by auto
qed

text \<open>
  C31: what is cached. After the response to a miss the cache holds the response under the key exactly
  when the status code, cut to 16 bits, is in the range from 200 to 299; all other entries and their
  order are those of an insertion, or unchanged.
\<close>

theorem cached_iff_success:
  assumes "calm s" and "statics_ok s" and "begin_ok env" and "quiet env" and "fresh f"
    and "0 < unat (ring_buffer_capacity_cfg (config_m f))" and "0 < capacity_m (cache_m s)"
    and "group_of (cache_key h) s = None" and "map_of (lru_entries (cache_m s)) (cache_key h) = None"
    and "resp_ok api resp" and "drains api" and "stoi (hm_status api (resp_headers resp)) = Some code" and "0 \<le> code"
  shows "\<exists>f1 s1 f3 s3. decodeHeaders api env t h f s = Some (Inr (Continue, f1, s1))
    \<and> upstream_run api env (upstream_calls resp) (f1, s1) = Some (Inr (f3, s3))
    \<and> (200 \<le> code mod 65536 \<and> code mod 65536 < 300 \<longleftrightarrow>
         map_of (lru_entries (cache_m s3)) (cache_key h) = Some (length (entries_m s)))
    \<and> (\<not> (200 \<le> code mod 65536 \<and> code mod 65536 < 300) \<longleftrightarrow> lru_entries (cache_m s3) = lru_entries (cache_m s))"
proof -
  from miss_join_respond [OF assms(1-6) _ assms(8-13), of "[]" t] obtain f1 s1 f3 s3 where
    1: "decodeHeaders api env t h f s = Some (Inr (Continue, f1, s1))"
      "upstream_run api env (upstream_calls resp) (f1, s1) = Some (Inr (f3, s3))"
      "lru_entries (cache_m s3) = (if success code
         then spec_insert (unat (capacity_m (cache_m s))) (cache_key h) (length (entries_m s)) (lru_entries (cache_m s))
         else lru_entries (cache_m s))"
    by auto
  have "0 < unat (capacity_m (cache_m s))" using assms(7) by (simp add: unat_gt_0 word_gt_0)
  then have i: "map_of (spec_insert (unat (capacity_m (cache_m s))) (cache_key h) v (lru_entries (cache_m s))) (cache_key h)
      = Some v" for v
    by (simp add: spec_insert_def take_Cons split: nat.split)
  then have "spec_insert (unat (capacity_m (cache_m s))) (cache_key h) v (lru_entries (cache_m s)) \<noteq> lru_entries (cache_m s)" for v
    using assms(9) by (metis option.distinct(1))
  then have "(success code \<longleftrightarrow> map_of (lru_entries (cache_m s3)) (cache_key h) = Some (length (entries_m s)))
      \<and> (\<not> success code \<longleftrightarrow> lru_entries (cache_m s3) = lru_entries (cache_m s))"
    using i assms(9) by (cases "success code") (simp_all only: 1(3) if_True if_False, simp_all)
  then show ?thesis using 1(1,2) by blast
qed

theorem cached_iff_success_witness:
  "\<exists>f1 s1 f3 s3. decodeHeaders list_api demo_env 5 demo_request (demo_filter 0) demo_shared = Some (Inr (Continue, f1, s1))
    \<and> upstream_run list_api demo_env (upstream_calls demo_response) (f1, s1) = Some (Inr (f3, s3))
    \<and> map_of (lru_entries (cache_m s3)) (cache_key demo_request) = Some 0"
proof -
  have "\<exists>f1 s1 f3 s3. decodeHeaders list_api demo_env 5 demo_request (demo_filter 0) demo_shared = Some (Inr (Continue, f1, s1))
    \<and> upstream_run list_api demo_env (upstream_calls demo_response) (f1, s1) = Some (Inr (f3, s3))
    \<and> (200 \<le> (200 :: int) mod 65536 \<and> (200 :: int) mod 65536 < 300 \<longleftrightarrow>
         map_of (lru_entries (cache_m s3)) (cache_key demo_request) = Some (length (entries_m (demo_shared :: (bytes \<times> bytes) list shared))))
    \<and> (\<not> (200 \<le> (200 :: int) mod 65536 \<and> (200 :: int) mod 65536 < 300) \<longleftrightarrow>
         lru_entries (cache_m s3) = lru_entries (cache_m (demo_shared :: (bytes \<times> bytes) list shared)))"
    by (rule cached_iff_success [OF demo_shared(1,2) begin_ok_demo quiet_demo demo_filter(1) _ _ demo_shared(3) _ demo_ok demo_code])
      (simp_all add: demo_filter demo_shared)
  then show ?thesis by (auto simp: demo_shared)
qed

text \<open>
  C40: the status check reads a string of decimal digits as a number, cuts it to 16 bits and never
  rejects it, so a status that differs from a success code by a multiple of 65536 counts as one.
\<close>

theorem status_code_cut:
  assumes "hm_status api h = ds" and "ds \<noteq> []" and "\<forall>c \<in> set ds. is_digit c"
    and "digits_value ds \<le> 2147483647" and "successful_status_code_m f"
  shows "checkSuccessfulStatusCode api h f = (True, f\<lparr>successful_status_code_m :=
    (200 \<le> digits_value ds mod 65536 \<and> digits_value ds mod 65536 < 300)\<rparr>)"
  using check_digits [OF assms(1-4) digits_value_nonneg [OF assms(3)], of f] assms(5) by simp

theorem status_code_cut_witness:
  "checkSuccessfulStatusCode list_api [('':status'', ''65736'')] (demo_filter 0) = (True, (demo_filter 0)\<lparr>successful_status_code_m := True\<rparr>)"
proof (rule status_code_cut [of list_api "[('':status'', ''65736'')]" "''65736''" "demo_filter 0", THEN trans])
  show "hm_status list_api [('':status'', ''65736'')] = ''65736''" by (simp add: list_api_def)
  show "successful_status_code_m (demo_filter 0)" by (rule fresh_success [OF demo_filter(1)])
qed (simp_all add: is_digit_def digits_value_def)

text \<open>
  The key is the bare concatenation of five header values, so requests that differ in scheme and
  user agent can share a key: a request over \<^verbatim>\<open>http\<close> whose user agent starts with \<open>s\<close> has the key of
  the request over \<^verbatim>\<open>https\<close> whose user agent is the rest.
\<close>

lemma cache_keys_collide:
  "request_headers_str_key_m (createRequestHeadersStrKey
      (h\<lparr>getSchemeValue := ''http'', getUserAgentValue := CHR ''s'' # agent\<rparr>) f)
   = request_headers_str_key_m (createRequestHeadersStrKey
      (h\<lparr>getSchemeValue := ''https'', getUserAgentValue := agent\<rparr>) f)"
  by (simp add: createRequestHeadersStrKey_def)

text \<open>
  An invalid status. When the status of the first response headers is not a number, the filter
  stops the response and does nothing else: the group stays attached and unannounced, the request is
  still its leader, and requests that join it are never told an entry by this call.
\<close>

lemma invalid_status_leaves_group:
  assumes "leads f w s" and "\<not> entry_cached_m f" and "is_first_headers_m f"
    and "stoi (hm_status api headers) = None"
  shows "encodeHeaders api headers end_stream f s = Some (Inr (StopIteration, f, s)) \<and> leads f w s
    \<and> group_of (request_headers_str_key_m f) s = Some w"
  using assms by (simp add: encodeHeaders_def checkSuccessfulStatusCode_def leads_def)

lemma invalid_status_leaves_group_example:
  "encodeHeaders list_api [('':status'', ''abc'')] False
     ((keyed_filter ''k'' 7 1)\<lparr>entry_cached_m := False, response_wrapper_rc_ptr_m := Some 0\<rparr>) led_shared
   = Some (Inr (StopIteration, (keyed_filter ''k'' 7 1)\<lparr>entry_cached_m := False, response_wrapper_rc_ptr_m := Some 0\<rparr>, led_shared))"
proof (rule invalid_status_leaves_group [THEN conjunct1])
  show "leads ((keyed_filter ''k'' 7 1)\<lparr>entry_cached_m := False, response_wrapper_rc_ptr_m := Some 0\<rparr>) 0 led_shared"
    using led_shared_inv by (simp add: leads_def)
  show "stoi (hm_status list_api [('':status'', ''abc'')]) = None"
    by (simp add: list_api_def stoi_def is_space_def is_digit_def digits_value_def)
qed (simp_all add: keyed_filter_def HttpCacheRCFilter_def Let_def split: prod.split)

text \<open>
  The responses of requests that the filter does not lead -- served from the cache or coalesced --
  pass through it unchanged: every encoder callback returns at once and touches nothing.
\<close>

lemma cached_response_passes:
  assumes "entry_cached_m f"
  shows "upstream_run api env cs (f, s) = Some (Inr (f, s))"
proof (induction cs)
  case (Cons c cs)
  have "upstream_call api env c (f, s) = Some (Inr (f, s))"
    by (cases c) (simp_all add: assms encodeHeaders_def encodeData_def encodeTrailers_def encodeComplete_def)
  then show ?case using Cons by simp
qed simp

end
