(* ===== verification/Other_Threads.thy ===== *)
theory Other_Threads
  imports Request_Flow
begin

text \<open>
  Requests that another thread leads: the wait on the condition variable and its timeout, and the
  requests that a leader keeps for groups it does not lead, which it hands over while it leads
  another group and serves when it leads none any more.
\<close>

section \<open>Waiting for another thread\<close>

text \<open>The shared state when the wait on the group \<open>w\<close> is over.\<close>

definition after_wait :: "'h environ \<Rightarrow> wrapper_id \<Rightarrow> 'h shared \<Rightarrow> 'h shared" where
  "after_wait env w s = (if shared_response_entry_m (wrappers_m s ! w) \<noteq> None then s
     else (env_wait env (clock_m s) s)\<lparr>clock_m := Suc (clock_m (env_wait env (clock_m s) s))\<rparr>)"

lemma wait_ok:
  assumes "response_wrapper_rc_ptr_m f = Some w" and "w < length (wrappers_m s)"
  shows "waitOnCondVar env f s = Inr (after_wait env w s)"
  using assms by (simp add: waitOnCondVar_def wrapper_of_def after_wait_def Let_def)

lemma waitForResponse_none:
  assumes "response_wrapper_rc_ptr_m f = Some w" and "w < length (wrappers_m s)"
    and "w < length (wrappers_m (after_wait env w s))" and "shared_response_entry_m (wrappers_m (after_wait env w s) ! w) = None"
  shows "waitForResponseAndServe api env f s = Some (Inr (f, after_wait env w s))"
  using assms by (simp add: waitForResponseAndServe_def wait_ok) (simp add: wrapper_of_def)

lemma waitForResponse_some:
  assumes "response_wrapper_rc_ptr_m f = Some w" and "w < length (wrappers_m s)"
    and "w < length (wrappers_m (after_wait env w s))" and "shared_response_entry_m (wrappers_m (after_wait env w s) ! w) = Some a"
  shows "waitForResponseAndServe api env f s = serve_entry api env (Some a) (decoder_callbacks_m f) f (after_wait env w s)"
  using assms by (simp add: waitForResponseAndServe_def wait_ok) (simp add: wrapper_of_def)

text \<open>A request that has to wait: another thread leads its group, and its own thread leads none.\<close>

definition must_wait :: "thread_id \<Rightarrow> bytes \<Rightarrow> wrapper_id \<Rightarrow> 'h shared \<Rightarrow> bool" where
  "must_wait t key w s \<longleftrightarrow> rc_inv s \<and> group_of key s = Some w \<and> led_groups t s = []"

lemma must_wait_decode:
  assumes m: "must_wait t (cache_key h) w s" and env: "begin_ok env" and f: "fresh f"
  shows "\<exists>f1. decodeHeaders api env t h f s = bindRun (waitForResponseAndServe api env f1 s)
      (\<lambda>(f3, s3). Some (Inr (StopIteration, f3, s3)))
    \<and> response_wrapper_rc_ptr_m f1 = Some w \<and> w < length (wrappers_m s)
    \<and> decoder_callbacks_m f1 = decoder_callbacks_m f \<and> consumer_idle (cache_entry_consumer_m f1)"
proof -
  let ?f1 = "(createRequestHeadersStrKey h f)\<lparr>this_thread_id_m := t\<rparr>"
  have key: "request_headers_str_key_m ?f1 = cache_key h" using fresh_key [OF f] by simp
  have inv: "rc_inv s" and g: "group_of (cache_key h) s = Some w" and led: "led_groups t s = []"
    using m by (simp_all add: must_wait_def)
  have "leader_thread_id_m (wrappers_m s ! w) \<noteq> t" using rc_invD(1) [OF inv g] led by auto
  then have cl: "classify t (cache_key h) s = WAITING" using g led by (simp add: classify_def)
  from getThreadStatus_ok [OF inv env not_in_empty, of ?f1] key cl obtain w2 where
    gs: "getThreadStatus env ?f1 s = Some (Inr (WAITING, ?f1\<lparr>response_wrapper_rc_ptr_m := Some w2\<rparr>, s))"
    and w2: "group_of (cache_key h) s = Some w2" by auto
  have "w2 = w" using g w2 by simp
  then show ?thesis using gs f rc_invD(1) [OF inv g]
    by (intro exI [of _ "?f1\<lparr>response_wrapper_rc_ptr_m := Some w\<rparr>"])
      (simp add: decodeHeaders_def Let_def createRequestHeadersStrKey_def fresh_def)
qed

section \<open>Requests of other groups\<close>

text \<open>The group \<open>w\<close> has been announced with a finished entry of the response \<open>resp_of w\<close>.\<close>

definition announced :: "'h envoy_api \<Rightarrow> (wrapper_id \<Rightarrow> 'h response) \<Rightarrow> wrapper_id \<Rightarrow> 'h shared \<Rightarrow> bool" where
  "announced api resp_of w s \<longleftrightarrow> w < length (wrappers_m s) \<and> w \<notin> set (expired_m s)
     \<and> (\<exists>a < length (entries_m s). shared_response_entry_m (wrappers_m s ! w) = Some a \<and> finished api (resp_of w) (entries_m s ! a))"

lemma announced_frame:
  assumes "announced api resp_of w s" and "same_content (entries_m s ! a) e"
  shows "announced api resp_of w (s\<lparr>entries_m := (entries_m s)[a := e], delivered_m := d, clock_m := n\<rparr>)"
proof -
  from assms(1) obtain b where b: "b < length (entries_m s)" "shared_response_entry_m (wrappers_m s ! w) = Some b"
    "finished api (resp_of w) (entries_m s ! b)" "w < length (wrappers_m s)" "w \<notin> set (expired_m s)"
    by (auto simp: announced_def)
  have "finished api (resp_of w) ((entries_m s)[a := e] ! b)"
    using b(1,3) finished_same [OF _ assms(2)] by (cases "a = b") auto
  then show ?thesis using b by (auto simp: announced_def)
qed

text \<open>
  What happens while the thread \<open>t\<close> attends to the requests \<open>others\<close> one after the other: the group of each
  has been announced with a finished entry when its wait is over (\<open>True\<close> in the list), or the wait
  has ended by the timeout. Meanwhile other threads may do what they want, but wrappers and the entries of
  announced groups stay, and nobody but \<open>t\<close> itself changes which groups \<open>t\<close> leads. Between two waits
  the thread has read an entry, which leaves its content as it is.
\<close>

fun waits_go ::
  "'h envoy_api \<Rightarrow> (wrapper_id \<Rightarrow> 'h response) \<Rightarrow> 'h environ \<Rightarrow> thread_id \<Rightarrow> (callback_id \<times> wrapper_id) list \<Rightarrow>
     bool list \<Rightarrow> 'h shared \<Rightarrow> bool"
where
  "waits_go api resp_of env t [] bs s \<longleftrightarrow> bs = []"
| "waits_go api resp_of env t ((cb, w) # others) bs s \<longleftrightarrow>
     (let s1 = after_wait env w s
      in w < length (wrappers_m s) \<and> w \<notin> set (expired_m s) \<and> w < length (wrappers_m s1) \<and> statics_ok s1
         \<and> delivered_m s1 = delivered_m s \<and> led_groups t s1 = led_groups t s
         \<and> (case bs of
              [] \<Rightarrow> False
            | True # bs' \<Rightarrow> announced api resp_of w s1 \<and> resp_ok api (resp_of w)
                \<and> (\<forall>a e d n. same_content (entries_m s1 ! a) e \<longrightarrow> waits_go api resp_of env t others bs'
                     (s1\<lparr>entries_m := (entries_m s1)[a := e], delivered_m := d, clock_m := n\<rparr>))
            | False # bs' \<Rightarrow> shared_response_entry_m (wrappers_m s1 ! w) = None \<and> waits_go api resp_of env t others bs' s1))"

text \<open>The requests whose groups were announced in time, with what each of them gets.\<close>

definition served_in_time ::
  "'h envoy_api \<Rightarrow> (wrapper_id \<Rightarrow> 'h response) \<Rightarrow> (callback_id \<times> wrapper_id) list \<Rightarrow> bool list \<Rightarrow>
     (callback_id \<times> 'h response_event list) list"
where
  "served_in_time api resp_of others bs =
     map (\<lambda>((cb, w), b). (cb, resp_events api (resp_of w))) (filter snd (zip others bs))"

lemma served_in_time_simps [simp]:
  "served_in_time api resp_of [] bs = []"
  "served_in_time api resp_of ((cb, w) # others) (True # bs) = (cb, resp_events api (resp_of w)) # served_in_time api resp_of others bs"
  "served_in_time api resp_of (x # others) (False # bs) = served_in_time api resp_of others bs"
  by (simp_all add: served_in_time_def)

lemma led_groups_deliver [simp]:
  "led_groups t (s\<lparr>entries_m := es, delivered_m := d, clock_m := n\<rparr>) = led_groups t s"
  by (simp add: led_groups_def)

lemma attend_groups_ok:
  assumes "waits_go api resp_of env t others bs s"
    and env: "quiet env" and "consumer_idle (cache_entry_consumer_m f)" and dr: "drains api"
  shows "\<exists>f' s'. attend_groups api env others f s = Some (Inr (f', s'))
    \<and> delivered_m s' = delivered_m s @ served_in_time api resp_of others bs
    \<and> led_groups t s' = led_groups t s \<and> this_thread_id_m f' = this_thread_id_m f"
  using assms(1,3)
proof (induction others arbitrary: f s bs)
  case Nil
  then show ?case by simp
next
  case (Cons x others)
  obtain cb w where x: "x = (cb, w)" by (cases x)
  let ?s1 = "after_wait env w s"
  let ?f = "f\<lparr>decoder_callbacks_m := cb, response_wrapper_rc_ptr_m := weak_lock w s\<rparr>"
  have w: "w < length (wrappers_m s)" "w \<notin> set (expired_m s)" "w < length (wrappers_m ?s1)" "statics_ok ?s1"
    "delivered_m ?s1 = delivered_m s" "led_groups t ?s1 = led_groups t s"
    using Cons.prems(1) by (simp_all add: x Let_def)
  obtain b bs' where bs: "bs = b # bs'" using Cons.prems(1) by (cases bs) (simp_all add: x Let_def)
  have f: "response_wrapper_rc_ptr_m ?f = Some w" "consumer_idle (cache_entry_consumer_m ?f)"
    using w(2) Cons.prems(2) by (simp_all add: weak_lock_def)
  show ?case
  proof (cases b)
    case False
    then have none: "shared_response_entry_m (wrappers_m ?s1 ! w) = None" and rest: "waits_go api resp_of env t others bs' ?s1"
      using Cons.prems(1) by (simp_all add: x Let_def bs)
    have 1: "waitForResponseAndServe api env ?f s = Some (Inr (?f, ?s1))"
      by (rule waitForResponse_none [OF f(1) w(1,3) none])
    from Cons.IH [OF rest f(2)] obtain f' s' where
      "attend_groups api env others ?f ?s1 = Some (Inr (f', s'))"
      "delivered_m s' = delivered_m ?s1 @ served_in_time api resp_of others bs'"
      "led_groups t s' = led_groups t ?s1" "this_thread_id_m f' = this_thread_id_m f" by auto
    then show ?thesis using 1 w False by (simp add: x bs)
  next
    case True
    then have an: "announced api resp_of w ?s1" "resp_ok api (resp_of w)"
      and rest: "\<And>a e d n. same_content (entries_m ?s1 ! a) e \<Longrightarrow> waits_go api resp_of env t others bs'
                     (?s1\<lparr>entries_m := (entries_m ?s1)[a := e], delivered_m := d, clock_m := n\<rparr>)"
      using Cons.prems(1) by (simp_all add: x Let_def bs)
    then obtain a where a: "a < length (entries_m ?s1)" "shared_response_entry_m (wrappers_m ?s1 ! w) = Some a"
      "finished api (resp_of w) (entries_m ?s1 ! a)" by (auto simp: announced_def)
    have wf: "waitForResponseAndServe api env ?f s = serve_entry api env (Some a) cb ?f ?s1"
      using waitForResponse_some [OF f(1) w(1,3) a(2), of api] by simp
    from serve_entry_ok [OF a(3,1) env f(2) w(4) an(2) dr, of cb] obtain k e n where
      1: "serve_entry api env (Some a) cb ?f ?s1 = Some (Inr (?f\<lparr>cache_entry_consumer_m := k\<rparr>,
        ?s1\<lparr>entries_m := (entries_m ?s1)[a := e], delivered_m := delivered_m ?s1 @ [(cb, resp_events api (resp_of w))],
          clock_m := n\<rparr>))" "consumer_idle k" "same_content (entries_m ?s1 ! a) e" by blast
    let ?s2 = "?s1\<lparr>entries_m := (entries_m ?s1)[a := e],
        delivered_m := delivered_m ?s1 @ [(cb, resp_events api (resp_of w))], clock_m := n\<rparr>"
    have k: "consumer_idle (cache_entry_consumer_m (?f\<lparr>cache_entry_consumer_m := k\<rparr>))" using 1(2) by simp
    from Cons.IH [OF rest [OF 1(3), of n "delivered_m ?s1 @ [(cb, resp_events api (resp_of w))]"] k] obtain f' s' where
      "attend_groups api env others (?f\<lparr>cache_entry_consumer_m := k\<rparr>) ?s2 = Some (Inr (f', s'))"
      "delivered_m s' = delivered_m ?s2 @ served_in_time api resp_of others bs'"
      "led_groups t s' = led_groups t ?s2" "this_thread_id_m f' = this_thread_id_m f" by auto
    then show ?thesis using wf 1(1) w True by (simp add: x bs)
  qed
qed

lemma set_led_frame [simp]:
  "wrappers_m (set_led_groups t gs s) = wrappers_m s" "entries_m (set_led_groups t gs s) = entries_m s"
  "expired_m (set_led_groups t gs s) = expired_m s" "delivered_m (set_led_groups t gs s) = delivered_m s"
  "statics_m (set_led_groups t gs s) = statics_m s" "cache_m (set_led_groups t gs s) = cache_m s"
  by (simp_all add: set_led_groups_def)

lemma rc_assign_frame [simp]:
  "wrappers_m (rc_assign k v s) = wrappers_m s" "entries_m (rc_assign k v s) = entries_m s"
  "expired_m (rc_assign k v s) = expired_m s" "delivered_m (rc_assign k v s) = delivered_m s"
  "statics_m (rc_assign k v s) = statics_m s" "cache_m (rc_assign k v s) = cache_m s"
  by (simp_all add: rc_assign_def)

lemma release_free: "led_groups t s = [] \<Longrightarrow> leader_threads_for_rc_m (release t s) t = None"
  by (simp add: release_def)

lemma attend_serves:
  assumes w: "response_wrapper_rc_ptr_m f = Some w" "w < length (wrappers_m s)"
    and last: "AList.delete (request_headers_str_key_m f) (led_groups (this_thread_id_m f) s) = []"
    and go: "waits_go api resp_of env (this_thread_id_m f) (other_rc_groups_m (wrappers_m s ! w)) bs
      (set_led_groups (this_thread_id_m f) [] s)"
    and env: "quiet env" and k: "consumer_idle (cache_entry_consumer_m f)" and dr: "drains api"
  shows "\<exists>f' s'. attendToOtherRCGroups api env f s = Some (Inr (f', s'))
    \<and> delivered_m s' = delivered_m s @ served_in_time api resp_of (other_rc_groups_m (wrappers_m s ! w)) bs
    \<and> leader_threads_for_rc_m s' (this_thread_id_m f) = None"
proof -
  let ?t = "this_thread_id_m f" and ?others = "other_rc_groups_m (wrappers_m s ! w)"
  let ?s1 = "set_led_groups ?t [] s"
  from attend_groups_ok [OF go env k dr] obtain f' s' where
    g: "attend_groups api env ?others f ?s1 = Some (Inr (f', s'))"
      "delivered_m s' = delivered_m ?s1 @ served_in_time api resp_of ?others bs"
      "led_groups ?t s' = led_groups ?t ?s1" "this_thread_id_m f' = ?t" by blast
  have led: "led_groups ?t ?s1 = []" by (simp add: led_groups_def set_led_groups_def)
  show ?thesis
  proof (cases "?others = []")
    case True
    then show ?thesis
      using w last by (simp add: attendToOtherRCGroups_def Let_def wrapper_of_def release_eq release_free)
  next
    case False
    then show ?thesis
      using w last g led by (simp add: attendToOtherRCGroups_def Let_def wrapper_of_def release_eq release_free)
  qed
qed

lemma attend_hands_over_eq:
  assumes inv: "rc_inv_on B s" and env: "begin_ok env"
    and w: "response_wrapper_rc_ptr_m f = Some w" "group_of (request_headers_str_key_m f) s = Some w"
    and others: "other_rc_groups_m (wrappers_m s ! w) \<noteq> []"
    and more: "AList.delete (request_headers_str_key_m f) (led_groups (this_thread_id_m f) s) \<noteq> []"
  shows "\<exists>k v. (k, v) \<in> set (led_groups (this_thread_id_m f) s) \<and> k \<noteq> request_headers_str_key_m f \<and> v \<noteq> w
    \<and> attendToOtherRCGroups api env f (detachCurrentRCGroup f s) = Some (Inr (f,
        upd_wrapper v (\<lambda>r. r\<lparr>other_rc_groups_m := other_rc_groups_m r @ other_rc_groups_m (wrappers_m s ! w)\<rparr>)
          (upd_wrapper w (\<lambda>r. r\<lparr>other_rc_groups_m := []\<rparr>)
            (leave_group (this_thread_id_m f) (request_headers_str_key_m f) s))))"
proof -
  let ?t = "this_thread_id_m f" and ?key = "request_headers_str_key_m f"
  let ?gs = "AList.delete ?key (led_groups ?t s)" and ?s1 = "leave_group (this_thread_id_m f) (request_headers_str_key_m f) s"
  have wl: "w < length (wrappers_m s)" using rc_invD(1) [OF inv w(2)] by simp
  obtain k v where b: "env_begin env ?gs = (k, v)" by (cases "env_begin env ?gs")
  then have "(k, v) \<in> set ?gs" using env more unfolding begin_ok_def by metis
  then have kv: "(k, v) \<in> set (led_groups ?t s)" "k \<noteq> ?key" by (auto simp: alist_delete_set)
  note kg = rc_invD(2) [OF inv kv(1)]
  have vw: "v \<noteq> w" using rc_invD(5) [OF inv w(2)] kg kv(2) by auto
  have d: "set_led_groups ?t (AList.delete ?key (led_groups ?t (detachCurrentRCGroup f s))) (detachCurrentRCGroup f s) = ?s1"
    by (simp add: detachCurrentRCGroup_def leave_group_def)
  have led: "led_groups ?t ?s1 = ?gs" "wrappers_m ?s1 = wrappers_m s" by (simp_all add: leave_group_def)
  show ?thesis using w wl kg others more b led kv vw unfolding attendToOtherRCGroups_def Let_def d
    by (intro exI [of _ k] exI [of _ v]) (simp add: wrapper_of_def)
qed

lemma attend_hands_over:
  assumes l: "leads f w s" and env: "begin_ok env"
    and others: "other_rc_groups_m (wrappers_m s ! w) \<noteq> []"
    and more: "AList.delete (request_headers_str_key_m f) (led_groups (this_thread_id_m f) s) \<noteq> []"
  shows "\<exists>s' k v. attendToOtherRCGroups api env f (detachCurrentRCGroup f s) = Some (Inr (f, s'))
    \<and> rc_inv s' \<and> group_of (request_headers_str_key_m f) s' = None
    \<and> k \<noteq> request_headers_str_key_m f \<and> group_of k s' = Some v \<and> v \<noteq> w
    \<and> leader_thread_id_m (wrappers_m s' ! v) = this_thread_id_m f
    \<and> other_rc_groups_m (wrappers_m s' ! v) = other_rc_groups_m (wrappers_m s ! v) @ other_rc_groups_m (wrappers_m s ! w)
    \<and> other_rc_groups_m (wrappers_m s' ! w) = [] \<and> delivered_m s' = delivered_m s"
proof -
  let ?t = "this_thread_id_m f" and ?key = "request_headers_str_key_m f"
  have inv: "rc_inv s" and w: "response_wrapper_rc_ptr_m f = Some w"
    and g: "group_of ?key s = Some w" "leader_thread_id_m (wrappers_m s ! w) = ?t"
    using l by (auto simp: leads_def)
  from attend_hands_over_eq [OF inv env w g(1) others more, of api] obtain k v where
    kv: "(k, v) \<in> set (led_groups ?t s)" "k \<noteq> ?key" "v \<noteq> w"
    and r: "attendToOtherRCGroups api env f (detachCurrentRCGroup f s) = Some (Inr (f,
        upd_wrapper v (\<lambda>r. r\<lparr>other_rc_groups_m := other_rc_groups_m r @ other_rc_groups_m (wrappers_m s ! w)\<rparr>)
          (upd_wrapper w (\<lambda>r. r\<lparr>other_rc_groups_m := []\<rparr>) (leave_group ?t ?key s))))" (is "_ = Some (Inr (f, ?s'))")
    by blast
  note kg = rc_invD(2) [OF inv kv(1)]
  have led: "led_groups ?t (leave_group ?t ?key s) = AList.delete ?key (led_groups ?t s)"
    "wrappers_m (leave_group ?t ?key s) = wrappers_m s" by (simp_all add: leave_group_def)
  have "release ?t (leave_group ?t ?key s) = leave_group ?t ?key s" using more by (simp add: release_def led)
  then have "rc_inv (leave_group ?t ?key s)" using rc_inv_leave [OF inv g] by simp
  then have "rc_inv ?s'" by (simp add: rc_inv_upd_wrapper)
  moreover have "group_of ?key ?s' = None" "group_of k ?s' = Some v" using kg kv(2) by (simp_all add: leave_group_def)
  moreover have "delivered_m ?s' = delivered_m s" by simp
  moreover have "leader_thread_id_m (wrappers_m ?s' ! v) = ?t"
    "other_rc_groups_m (wrappers_m ?s' ! v) = other_rc_groups_m (wrappers_m s ! v) @ other_rc_groups_m (wrappers_m s ! w)"
    "other_rc_groups_m (wrappers_m ?s' ! w) = []"
    using kv(3) kg rc_invD(1) [OF inv g(1)] by (simp_all add: upd_wrapper_def led)
  ultimately show ?thesis using r kv(2,3) by (intro exI [of _ ?s'] exI [of _ k] exI [of _ v]) simp
qed

section \<open>Properties\<close>

text \<open>
  C7: a request that has to wait for another thread is served, if its wait ends because the group was
  announced and not by the timeout. The leader may only have begun to store the response and may be in
  the middle of any call on its producer: the waiting thread reads the entry while it grows, returns, and
  makes on the request's callbacks exactly the calls of the response, in every interleaving with the steps
  of a writer that finishes some time and with other readers.
\<close>

theorem waiting_request_served:
  assumes "must_wait t (cache_key h) w s" and "begin_ok env" and "fresh f"
    and "w < length (wrappers_m (after_wait env w s))"
    and "shared_response_entry_m (wrappers_m (after_wait env w s) ! w) = Some a"
    and "a < length (entries_m (after_wait env w s))" and "statics_ok (after_wait env w s)"
    and "resp_ok api resp" and "drains api" and "0 < unat cap"
    and "mono g" and "write_finished api resp cap a (g N)"
    and "follows (\<lambda>n. stored_at api resp cap a (g n)) (env_read env)"
    and "same_content (stored_at api resp cap a (g (clock_m (after_wait env w s)))) (entries_m (after_wait env w s) ! a)"
  shows "\<exists>f' s'. decodeHeaders api env t h f s = Some (Inr (StopIteration, f', s'))
    \<and> delivered_m s' = delivered_m (after_wait env w s) @ [(decoder_callbacks_m f, resp_events api resp)]"
proof -
  let ?s1 = "after_wait env w s"
  from must_wait_decode [OF assms(1-3), of api] obtain f1 where
    d: "decodeHeaders api env t h f s = bindRun (waitForResponseAndServe api env f1 s) (\<lambda>(f3, s3). Some (Inr (StopIteration, f3, s3)))"
    and f1: "response_wrapper_rc_ptr_m f1 = Some w" "w < length (wrappers_m s)" "decoder_callbacks_m f1 = decoder_callbacks_m f"
      "consumer_idle (cache_entry_consumer_m f1)" by blast
  from serve_while_storing [OF assms(8-14) f1(4), of "decoder_callbacks_m f"] obtain k n e where
    "serveCachedResponse api end_block (env_read env) a (decoder_callbacks_m f) (cache_entry_consumer_m f1)
       (clock_m ?s1, entries_m ?s1 ! a) = Some (Inr (k, (n, e), resp_events api resp))" by blast
  then show ?thesis
    using d waitForResponse_some [OF f1(1,2) assms(4,5), of api] assms(6,7) f1(3)
    by (simp add: serve_entry_def statics_ok_def)
qed

text \<open>
  Thread 7 leads the group of the demo request; a request on thread 8 waits for it, and is woken up
  when the response has just begun to be stored.
\<close>

definition waited_for :: "(bytes \<times> bytes) list shared" where
  "waited_for = demo_shared\<lparr>
     wrappers_m := [\<lparr>leader_thread_id_m = 7, waiting_decoder_callbacks_m = [], shared_response_entry_m = None,
       other_rc_groups_m = []\<rparr>],
     coalesced_requests_m := [cache_key demo_request \<mapsto> Some 0],
     leader_threads_for_rc_m := [7 \<mapsto> [(cache_key demo_request, 0)]]\<rparr>"

lemma waited_for: "must_wait 8 (cache_key demo_request) 0 waited_for" "clock_m waited_for = 0"
  by (auto simp: must_wait_def rc_inv_on_def waited_for_def group_of_def led_groups_def demo_shared_def HttpCacheRCFilter_def
      initial_shared_def Let_def split: if_splits option.splits prod.split)

definition woken :: "(bytes \<times> bytes) list environ" where
  "woken = \<lparr>env_wait = (\<lambda>n s. s\<lparr>wrappers_m := [(wrappers_m s ! 0)\<lparr>shared_response_entry_m := Some 0\<rparr>],
       entries_m := [stored_at list_api demo_response 1 0 0]\<rparr>),
     env_read = (\<lambda>n e. stored_at list_api demo_response 1 0 (Suc n div 3)), env_begin = hd\<rparr>"

lemma woken_wait: "after_wait woken 0 waited_for = waited_for\<lparr>wrappers_m := [\<lparr>leader_thread_id_m = 7,
    waiting_decoder_callbacks_m = [], shared_response_entry_m = Some 0, other_rc_groups_m = []\<rparr>],
  entries_m := [stored_at list_api demo_response 1 0 0], clock_m := Suc 0\<rparr>"
  using waited_for(2) by (simp add: after_wait_def woken_def) (simp add: waited_for_def)

lemma stored_demo_wf: "entry_wf (stored_at list_api demo_response 1 0 n)"
  using stored_at_partial [OF demo_ok(1), of 1] by (simp add: partial_of_def)

theorem waiting_request_served_witness:
  "\<exists>f' s'. decodeHeaders list_api woken 8 demo_request (demo_filter 3) waited_for = Some (Inr (StopIteration, f', s'))
    \<and> delivered_m s' = [(3, resp_events list_api demo_response)]"
proof -
  obtain M where M: "write_finished list_api demo_response 1 0 M"
    using write_finishes [OF demo_ok(1), of 1 0] by auto
  have "\<exists>f' s'. decodeHeaders list_api woken 8 demo_request (demo_filter 3) waited_for = Some (Inr (StopIteration, f', s'))
    \<and> delivered_m s' = delivered_m (after_wait woken 0 waited_for)
        @ [(decoder_callbacks_m (demo_filter 3 :: (bytes \<times> bytes) list http_filter), resp_events list_api demo_response)]"
  proof (rule waiting_request_served [where a = 0 and cap = 1 and g = "\<lambda>n. n div 3" and N = "3 * M"])
    show "must_wait 8 (cache_key demo_request) 0 waited_for" by (rule waited_for(1))
    show "begin_ok woken" by (simp add: begin_ok_def woken_def)
    show "fresh (demo_filter 3)" by (rule demo_filter(1))
    show "statics_ok (after_wait woken 0 waited_for)"
      using demo_shared(2) by (simp add: woken_wait statics_ok_def) (simp add: waited_for_def)
    show "resp_ok list_api demo_response" "drains list_api" by (rule demo_ok)+
    show "mono (\<lambda>n. n div 3 :: nat)" by (simp add: mono_def div_le_mono)
    show "write_finished list_api demo_response 1 0 (3 * M div 3)" using M by simp
    show "follows (\<lambda>n. stored_at list_api demo_response 1 0 (n div 3)) (env_read woken)"
      using stored_demo_wf by (simp add: follows_def woken_def same_content_refl)
  qed (use stored_demo_wf in \<open>simp_all add: woken_wait same_content_refl\<close>)
  then show ?thesis by (simp add: woken_wait demo_filter) (simp add: waited_for_def demo_shared)
qed

text \<open>
  C39: a request whose group is not announced before the timeout is never answered: the filter stops
  it without a call on its callbacks and without passing it on.
\<close>

theorem timeout_leaves_request_unanswered:
  assumes "must_wait t (cache_key h) w s" and "begin_ok env" and "fresh f"
    and "w < length (wrappers_m (after_wait env w s))"
    and "shared_response_entry_m (wrappers_m (after_wait env w s) ! w) = None"
  shows "\<exists>f'. decodeHeaders api env t h f s = Some (Inr (StopIteration, f', after_wait env w s))"
proof -
  from must_wait_decode [OF assms(1-3), of api] obtain f1 where
    "decodeHeaders api env t h f s = bindRun (waitForResponseAndServe api env f1 s) (\<lambda>(f3, s3). Some (Inr (StopIteration, f3, s3)))"
    "response_wrapper_rc_ptr_m f1 = Some w" "w < length (wrappers_m s)" by blast
  then show ?thesis using waitForResponse_none [OF _ _ assms(4,5), of f1 api] by simp
qed

theorem timeout_leaves_request_unanswered_witness:
  "\<exists>f'. decodeHeaders list_api demo_env 8 demo_request (demo_filter 3) waited_for
    = Some (Inr (StopIteration, f', waited_for\<lparr>clock_m := 1\<rparr>))"
proof -
  have a: "after_wait demo_env 0 waited_for = waited_for\<lparr>clock_m := 1\<rparr>"
    using waited_for(2) by (simp add: after_wait_def demo_env_def) (simp add: waited_for_def)
  have "\<exists>f'. decodeHeaders list_api demo_env 8 demo_request (demo_filter 3) waited_for
    = Some (Inr (StopIteration, f', after_wait demo_env 0 waited_for))"
    by (rule timeout_leaves_request_unanswered [OF waited_for(1) begin_ok_demo demo_filter(1)])
      (simp_all only: a, simp_all add: waited_for_def)
  then show ?thesis by (simp add: a)
qed

text \<open>
  C30: when a thread stops leading its last group, it attends to the requests of other groups that arrived
  on it meanwhile, in order of arrival, and waits for the group of each. A request whose group has been
  announced with a finished entry when its wait is over gets the response of its own group; one whose wait
  ends by the timeout gets nothing, and the loop goes on to the next; afterwards the thread is no leader any
  more. (\<open>waits_go\<close> says how each wait ends; what other threads log meanwhile is left out of the log.)
\<close>

theorem other_groups_served:
  assumes "response_wrapper_rc_ptr_m f = Some w" and "w < length (wrappers_m s)"
    and "AList.delete (request_headers_str_key_m f) (led_groups (this_thread_id_m f) s) = []"
    and "waits_go api resp_of env (this_thread_id_m f) (other_rc_groups_m (wrappers_m s ! w)) bs
      (set_led_groups (this_thread_id_m f) [] s)"
    and "quiet env" and "consumer_idle (cache_entry_consumer_m f)" and "drains api"
  shows "\<exists>f' s'. attendToOtherRCGroups api env f s = Some (Inr (f', s'))
    \<and> delivered_m s' = delivered_m s @ served_in_time api resp_of (other_rc_groups_m (wrappers_m s ! w)) bs
    \<and> leader_threads_for_rc_m s' (this_thread_id_m f) = None"
  by (rule attend_serves [OF assms])

text \<open>
  Thread 7 has finished its group 0; requests 4 and 5 arrived on it meanwhile and belong to groups 1 and
  2 of other threads. Group 1 is announced while thread 7 waits for it, group 2 is not.
\<close>

definition deferred_one :: "(bytes \<times> bytes) list shared" where
  "deferred_one = demo_shared\<lparr>
     wrappers_m := [\<lparr>leader_thread_id_m = 7, waiting_decoder_callbacks_m = [], shared_response_entry_m = None,
         other_rc_groups_m = [(4, 1), (5, 2)]\<rparr>,
       \<lparr>leader_thread_id_m = 9, waiting_decoder_callbacks_m = [], shared_response_entry_m = None, other_rc_groups_m = []\<rparr>,
       \<lparr>leader_thread_id_m = 8, waiting_decoder_callbacks_m = [], shared_response_entry_m = None, other_rc_groups_m = []\<rparr>],
     entries_m := [stored_after list_api demo_response 1 0 100],
     leader_threads_for_rc_m := [7 \<mapsto> [(''k'', 0)]]\<rparr>"

definition announcing_one :: "(bytes \<times> bytes) list environ" where
  "announcing_one = \<lparr>env_wait = (\<lambda>n s. upd_wrapper 1 (\<lambda>r. r\<lparr>shared_response_entry_m := Some 0\<rparr>) s),
     env_read = no_interference, env_begin = hd\<rparr>"

lemma stored_demo_finished:
  "finished list_api demo_response (stored_after list_api demo_response 1 0 100)"
  "entry_wf (stored_after list_api demo_response 1 0 100)"
proof -
  have pt: "partial_of (resp_final list_api 1 demo_response) (stored_after list_api demo_response 1 0 100)"
    using stored_after_partial [OF demo_ok(1), of 1 0 100] by simp
  moreover have "complete_of (resp_final list_api 1 demo_response) (stored_after list_api demo_response 1 0 100)"
    using stored_after_complete [OF demo_ok(1), of 1 100 0] by (simp add: response_ops_def demo_response_def)
  moreover have "single_buffer_blocks_capacity_m (stored_after list_api demo_response 1 0 100) = 1"
    using pt by (simp add: partial_of_def resp_final_def)
  ultimately show "finished list_api demo_response (stored_after list_api demo_response 1 0 100)"
    "entry_wf (stored_after list_api demo_response 1 0 100)" by (simp_all add: finished_def partial_of_def)
qed

lemma deferred_waits:
  "waits_go list_api (\<lambda>_. demo_response) announcing_one 7 [(4, 1), (5, 2)] [True, False] (set_led_groups 7 [] deferred_one)"
proof -
  let ?s = "set_led_groups 7 [] deferred_one"
  have d: "expired_m (demo_shared :: (bytes \<times> bytes) list shared) = []" "statics_ok deferred_one"
    using demo_shared(2) by (simp_all add: deferred_one_def statics_ok_def demo_shared_def HttpCacheRCFilter_def
      initial_shared_def Let_def split: prod.split)
  have w1: "after_wait announcing_one 1 ?s = (upd_wrapper 1 (\<lambda>r. r\<lparr>shared_response_entry_m := Some 0\<rparr>) ?s)
      \<lparr>clock_m := Suc (clock_m deferred_one)\<rparr>"
    by (simp add: after_wait_def announcing_one_def deferred_one_def upd_wrapper_def set_led_groups_def)
  have "announced list_api (\<lambda>_. demo_response) 1 (after_wait announcing_one 1 ?s)"
    using stored_demo_finished(1) d(1) unfolding w1
    by (simp add: announced_def upd_wrapper_def) (simp add: deferred_one_def)
  then show ?thesis
    using d demo_ok(1) unfolding waits_go.simps Let_def w1
    by (simp add: after_wait_def announcing_one_def upd_wrapper_def led_groups_def statics_ok_def)
      (simp add: deferred_one_def)
qed

theorem other_groups_served_witness:
  "\<exists>f' s'. attendToOtherRCGroups list_api announcing_one ((keyed_filter ''k'' 7 1)\<lparr>response_wrapper_rc_ptr_m := Some 0\<rparr>) deferred_one
      = Some (Inr (f', s')) \<and> delivered_m s' = [(4, resp_events list_api demo_response)]"
proof -
  let ?f = "(keyed_filter ''k'' 7 1)\<lparr>response_wrapper_rc_ptr_m := Some 0\<rparr> :: (bytes \<times> bytes) list http_filter"
  have t: "this_thread_id_m ?f = 7" "other_rc_groups_m (wrappers_m deferred_one ! 0) = [(4, 1), (5, 2)]"
    by (simp_all add: deferred_one_def)
  have "\<exists>f' s'. attendToOtherRCGroups list_api announcing_one ?f deferred_one = Some (Inr (f', s'))
    \<and> delivered_m s' = delivered_m deferred_one @ served_in_time list_api (\<lambda>_. demo_response)
         (other_rc_groups_m (wrappers_m deferred_one ! 0)) [True, False]
    \<and> leader_threads_for_rc_m s' (this_thread_id_m ?f) = None"
  proof (rule other_groups_served)
    show "consumer_idle (cache_entry_consumer_m ?f)"
      by (simp add: keyed_filter_def HttpCacheRCFilter_def new_CacheEntryConsumer_def ctor_claim_def consumer_idle_new
        Let_def initial_shared_def initial_statics_def)
    show "waits_go list_api (\<lambda>_. demo_response) announcing_one (this_thread_id_m ?f)
        (other_rc_groups_m (wrappers_m deferred_one ! 0)) [True, False] (set_led_groups (this_thread_id_m ?f) [] deferred_one)"
      unfolding t by (rule deferred_waits)
    show "quiet announcing_one" by (simp add: quiet_def announcing_one_def no_interference_def same_content_refl)
  qed (simp_all add: deferred_one_def led_groups_def demo_ok)
  then show ?thesis by (auto simp: deferred_one_def demo_shared)
qed

text \<open>
  When a thread finishes a group while it still leads another one, the requests of other groups
  that it keeps are handed over: they are appended, in order, to the list of a group that this
  thread still leads, none is lost or duplicated, and nobody is served or waits.
\<close>

lemma other_groups_handed_over:
  assumes "leads f w s" and "begin_ok env" and "other_rc_groups_m (wrappers_m s ! w) \<noteq> []"
    and "AList.delete (request_headers_str_key_m f) (led_groups (this_thread_id_m f) s) \<noteq> []"
  shows "\<exists>s' k v. attendToOtherRCGroups api env f (detachCurrentRCGroup f s) = Some (Inr (f, s'))
    \<and> rc_inv s' \<and> group_of (request_headers_str_key_m f) s' = None
    \<and> k \<noteq> request_headers_str_key_m f \<and> group_of k s' = Some v \<and> v \<noteq> w
    \<and> leader_thread_id_m (wrappers_m s' ! v) = this_thread_id_m f
    \<and> other_rc_groups_m (wrappers_m s' ! v) = other_rc_groups_m (wrappers_m s ! v) @ other_rc_groups_m (wrappers_m s ! w)
    \<and> other_rc_groups_m (wrappers_m s' ! w) = [] \<and> delivered_m s' = delivered_m s"
  by (rule attend_hands_over [OF assms])

text \<open>Thread 7 leads two groups and keeps request 4 of a third one, which thread 9 leads.\<close>

definition deferred_two :: "'h shared" where
  "deferred_two = initial_shared\<lparr>
     wrappers_m := [\<lparr>leader_thread_id_m = 7, waiting_decoder_callbacks_m = [], shared_response_entry_m = None,
         other_rc_groups_m = [(4, 2)]\<rparr>,
       \<lparr>leader_thread_id_m = 7, waiting_decoder_callbacks_m = [], shared_response_entry_m = None, other_rc_groups_m = []\<rparr>,
       \<lparr>leader_thread_id_m = 9, waiting_decoder_callbacks_m = [], shared_response_entry_m = None, other_rc_groups_m = []\<rparr>],
     coalesced_requests_m := [''k'' \<mapsto> Some 0, ''l'' \<mapsto> Some 1, ''m'' \<mapsto> Some 2],
     leader_threads_for_rc_m := [7 \<mapsto> [(''k'', 0), (''l'', 1)], 9 \<mapsto> [(''m'', 2)]]\<rparr>"

lemma deferred_two_inv: "rc_inv deferred_two" "group_of ''k'' deferred_two = Some 0"
  by (auto simp: rc_inv_on_def deferred_two_def group_of_def led_groups_def split: if_splits option.splits)

lemma other_groups_handed_over_example:
  "\<exists>s'. attendToOtherRCGroups list_api demo_env ((keyed_filter ''k'' 7 1)\<lparr>response_wrapper_rc_ptr_m := Some 0\<rparr>)
      (detachCurrentRCGroup ((keyed_filter ''k'' 7 1)\<lparr>response_wrapper_rc_ptr_m := Some 0\<rparr>) deferred_two)
    = Some (Inr ((keyed_filter ''k'' 7 1)\<lparr>response_wrapper_rc_ptr_m := Some 0\<rparr>, s'))
    \<and> rc_inv s' \<and> group_of ''k'' s' = None \<and> other_rc_groups_m (wrappers_m s' ! 0) = []"
proof -
  let ?f = "(keyed_filter ''k'' 7 1)\<lparr>response_wrapper_rc_ptr_m := Some 0\<rparr> :: (bytes \<times> bytes) list http_filter"
  have l: "leads ?f 0 deferred_two" using deferred_two_inv by (simp add: leads_def) (simp add: deferred_two_def)
  have o: "other_rc_groups_m (wrappers_m (deferred_two :: (bytes \<times> bytes) list shared) ! 0) \<noteq> []"
    "AList.delete (request_headers_str_key_m ?f) (led_groups (this_thread_id_m ?f) (deferred_two :: (bytes \<times> bytes) list shared)) \<noteq> []"
    by (simp_all add: deferred_two_def led_groups_def)
  from other_groups_handed_over [OF l begin_ok_demo o, of list_api] show ?thesis by auto
qed

section \<open>A filter is destroyed\<close>




end
