(* ===== verification/Coalescing_System.thy ===== *)
theory Coalescing_System
  imports Other_Threads "HOL-Library.Multiset"
begin

text \<open>
  Many requests on many threads: a step relation whose steps are callbacks of the filters, in any
  order, with the waits on the condition variable split off, so that other threads run while a
  thread waits. Invariants: every group has one leader thread and one request in flight, a waiting
  thread leads nothing, and every request that was stopped is kept in exactly one list until it is
  served or times out.
\<close>

section \<open>What the callbacks leave alone\<close>

text \<open>The groups, their leaders, and the lists of waiting requests are unchanged.\<close>

definition same_groups :: "'h shared \<Rightarrow> 'h shared \<Rightarrow> bool" where
  "same_groups s s' \<longleftrightarrow> coalesced_requests_m s' = coalesced_requests_m s
     \<and> leader_threads_for_rc_m s' = leader_threads_for_rc_m s \<and> expired_m s' = expired_m s
     \<and> length (wrappers_m s') = length (wrappers_m s)
     \<and> (\<forall>v < length (wrappers_m s). leader_thread_id_m (wrappers_m s' ! v) = leader_thread_id_m (wrappers_m s ! v)
          \<and> waiting_decoder_callbacks_m (wrappers_m s' ! v) = waiting_decoder_callbacks_m (wrappers_m s ! v)
          \<and> other_rc_groups_m (wrappers_m s' ! v) = other_rc_groups_m (wrappers_m s ! v)
          \<and> (shared_response_entry_m (wrappers_m s ! v) \<noteq> None \<longrightarrow> shared_response_entry_m (wrappers_m s' ! v) \<noteq> None))"

definition same_request :: "'h http_filter \<Rightarrow> 'h http_filter \<Rightarrow> bool" where
  "same_request f f' \<longleftrightarrow> request_headers_str_key_m f' = request_headers_str_key_m f
     \<and> response_wrapper_rc_ptr_m f' = response_wrapper_rc_ptr_m f \<and> this_thread_id_m f' = this_thread_id_m f
     \<and> entry_cached_m f' = entry_cached_m f \<and> decoder_callbacks_m f' = decoder_callbacks_m f"

lemma same_groups_refl [simp]: "same_groups s s"
  by (simp add: same_groups_def)

lemma same_groups_trans: "same_groups s s1 \<Longrightarrow> same_groups s1 s2 \<Longrightarrow> same_groups s s2"
  by (simp add: same_groups_def)

lemma same_request_refl [simp]: "same_request f f"
  by (simp add: same_request_def)

lemma same_request_trans: "same_request f f1 \<Longrightarrow> same_request f1 f2 \<Longrightarrow> same_request f f2"
  by (simp add: same_request_def)

lemma same_groups_maps:
  assumes "same_groups s s'"
  shows "group_of k s' = group_of k s" "led_groups t s' = led_groups t s"
  using assms by (simp_all add: same_groups_def group_of_def led_groups_def)

lemma same_groups_inv:
  assumes "same_groups s s'" and "rc_inv_on B s"
  shows "rc_inv_on B s'"
proof -
  have w: "leader_thread_id_m (wrappers_m s' ! v) = leader_thread_id_m (wrappers_m s ! v)" if "v < length (wrappers_m s)" for v
    using assms(1) that by (simp add: same_groups_def)
  have l: "length (wrappers_m s') = length (wrappers_m s)" "leader_threads_for_rc_m s' = leader_threads_for_rc_m s"
    using assms(1) by (simp_all add: same_groups_def)
  show ?thesis using assms(2) w
    unfolding rc_inv_on_def same_groups_maps [OF assms(1)] l by metis
qed

text \<open>
  What has been served between two states: the decoder callbacks of the completed
  \<^verbatim>\<open>serveCachedResponse\<close> calls that the log \<open>delivered_m\<close> has gained.
\<close>

definition answered :: "'h shared \<Rightarrow> 'h shared \<Rightarrow> callback_id list" where
  "answered s s' = map fst (drop (length (delivered_m s)) (delivered_m s'))"

definition serves :: "callback_id list \<Rightarrow> 'h shared \<Rightarrow> 'h shared \<Rightarrow> bool" where
  "serves cbs s s' \<longleftrightarrow> (\<exists>L. delivered_m s' = delivered_m s @ L \<and> map fst L = cbs)"

lemma serves_answered: "serves cbs s s' \<Longrightarrow> answered s s' = cbs"
  by (auto simp: serves_def answered_def)

lemma serves_none: "delivered_m s' = delivered_m s \<Longrightarrow> serves [] s s'"
  by (simp add: serves_def)

lemma serves_trans: "serves cbs s s1 \<Longrightarrow> serves ds s1 s2 \<Longrightarrow> serves (cbs @ ds) s s2"
  by (auto simp: serves_def)

lemma serves_eq: "delivered_m t = delivered_m s \<Longrightarrow> delivered_m t' = delivered_m s' \<Longrightarrow> serves cbs t t' = serves cbs s s'"
  by (simp add: serves_def)

lemma serve_entry_frame:
  assumes "serve_entry api env (Some a) cb f s = Some (Inr (f', s'))"
  shows "same_groups s s' \<and> same_request f f' \<and> cache_m s' = cache_m s \<and> wrappers_m s' = wrappers_m s
    \<and> statics_m s' = statics_m s \<and> serves [cb] s s'"
  using assms by (auto simp: serve_entry_def same_groups_def same_request_def serves_def bindRun_Inr_iff
      split: if_splits prod.splits)

lemma serve_entry_None: "serve_entry api env None cb f s \<noteq> Some (Inr x)"
  by (simp add: serve_entry_def)

lemma serve_callbacks_frame:
  assumes "serve_callbacks api env cbs f s = Some (Inr (f', s'))"
  shows "same_groups s s' \<and> same_request f f' \<and> cache_m s' = cache_m s \<and> wrappers_m s' = wrappers_m s
    \<and> statics_m s' = statics_m s \<and> serves cbs s s'"
  using assms
proof (induction cbs arbitrary: f s)
  case Nil
  then show ?case by (simp add: serves_none)
next
  case (Cons cb cbs)
  then obtain f1 s1 where 1: "serve_entry api env (getCacheEntryPtr (cache_entry_producer_m f)) cb f s = Some (Inr (f1, s1))"
    "serve_callbacks api env cbs f1 s1 = Some (Inr (f', s'))"
    by (auto simp: bindRun_Inr_iff)
  from 1(1) obtain a where "getCacheEntryPtr (cache_entry_producer_m f) = Some a"
    using serve_entry_None by (metis option.exhaust)
  with 1(1) have f1: "same_groups s s1 \<and> same_request f f1 \<and> cache_m s1 = cache_m s \<and> wrappers_m s1 = wrappers_m s
    \<and> statics_m s1 = statics_m s \<and> serves [cb] s s1" using serve_entry_frame by metis
  note f2 = Cons.IH [OF 1(2)]
  have "serves (cb # cbs) s s'" using serves_trans [of "[cb]" s s1 cbs s'] f1 f2 by simp
  moreover have "same_groups s s'" using same_groups_trans [of s s1 s'] f1 f2 by simp
  moreover have "same_request f f'" using same_request_trans [of f f1 f'] f1 f2 by simp
  ultimately show ?case using f1 f2 by simp
qed

lemma produce_frame:
  assumes "produce g f s = Some (Inr (f', s'))"
  shows "same_groups s s' \<and> same_request f f' \<and> cache_m s' = cache_m s \<and> wrappers_m s' = wrappers_m s
    \<and> statics_m s' = statics_m s \<and> is_first_headers_m f' = is_first_headers_m f \<and> delivered_m s' = delivered_m s"
  using assms by (auto simp: produce_def same_groups_def same_request_def bindRun_Inr_iff split: option.splits if_splits prod.splits)

lemma check_frame:
  assumes "checkSuccessfulStatusCode api h f = (v, f')"
  shows "same_request f f' \<and> is_first_headers_m f' = is_first_headers_m f"
  using assms by (auto simp: checkSuccessfulStatusCode_def same_request_def Let_def split: option.splits if_splits)

lemma notify_frame:
  assumes "notifyWaitingCoalescedRequests (Some a) f s = Inr s'"
  shows "same_groups s s' \<and> cache_m s' = cache_m s \<and> statics_m s' = statics_m s
    \<and> (\<exists>w. response_wrapper_rc_ptr_m f = Some w \<and> shared_response_entry_m (wrappers_m s' ! w) \<noteq> None)
    \<and> delivered_m s' = delivered_m s"
  using assms
  by (auto simp: notifyWaitingCoalescedRequests_def wrapper_of_def bindR_Inr_iff same_groups_def upd_wrapper_def nth_list_update
    split: option.splits if_splits)

text \<open>The calls on the encoder side before the response is complete.\<close>

definition announced_if :: "'h http_filter \<Rightarrow> 'h shared \<Rightarrow> bool" where
  "announced_if f s \<longleftrightarrow> is_first_headers_m f
     \<or> (\<exists>w. response_wrapper_rc_ptr_m f = Some w \<and> shared_response_entry_m (wrappers_m s ! w) \<noteq> None)"

lemma encodeHeaders_frame:
  assumes r: "encodeHeaders api h fin f s = Some (Inr (st, f', s'))" and wf: "lru_wf (cache_m s)" and an: "announced_if f s"
  shows "same_groups s s' \<and> same_request f f' \<and> lru_wf (cache_m s') \<and> statics_m s' = statics_m s \<and> announced_if f' s'"
proof (cases "entry_cached_m f \<or> \<not> is_first_headers_m f")
  case True
  then show ?thesis using r wf an
    by (auto simp: encodeHeaders_def bindRun_Inr_iff announced_if_def same_request_def dest!: produce_frame split: if_splits prod.splits)
next
  case False
  obtain v f1 where c: "checkSuccessfulStatusCode api h f = (v, f1)" by (metis surj_pair)
  note cf = check_frame [OF c]
  show ?thesis
  proof (cases v)
    case False
    then show ?thesis using r wf an cf \<open>\<not> (entry_cached_m f \<or> \<not> is_first_headers_m f)\<close>
      by (auto simp: encodeHeaders_def c announced_if_def)
  next
    case True
    from r False c True obtain a s1 s2 where
      a: "getCacheEntryPtr (cache_entry_producer_m f1) = Some a"
      and s1: "(if successful_status_code_m f1 then Some (bindR (cache_insert (request_headers_str_key_m f1) a (cache_m s))
             (\<lambda>cache. Inr (s\<lparr>cache_m := cache\<rparr>))) else Some (Inr s)) = Some (Inr s1)"
      and s2: "notifyWaitingCoalescedRequests (Some a) f1 s1 = Inr s2"
      and p: "produce (writeHeaders api h fin) (f1\<lparr>is_first_headers_m := False\<rparr>) s2 = Some (Inr (f', s'))"
      by (auto simp: encodeHeaders_def bindRun_Inr_iff split: option.splits prod.splits)
    from insert_refines [OF wf, of "request_headers_str_key_m f1" a]
    have "lru_wf (cache_m s1) \<and> same_groups s s1 \<and> statics_m s1 = statics_m s"
      using s1 wf by (auto simp: same_groups_def split: if_splits)
    moreover note notify_frame [OF s2] produce_frame [OF p]
    moreover have "same_request f (f1\<lparr>is_first_headers_m := False\<rparr>)" using cf by (simp add: same_request_def)
    moreover have "same_groups s s'"
      using calculation same_groups_trans [of s s1 s2] same_groups_trans [of s s2 s'] by blast
    ultimately show ?thesis by (auto simp: announced_if_def same_request_def)
  qed
qed

lemma upstream_frame:
  assumes r: "upstream_call api env c (f, s) = Some (Inr (f', s'))" and c: "c \<noteq> UpComplete"
    and wf: "lru_wf (cache_m s)" and an: "announced_if f s"
  shows "same_groups s s' \<and> same_request f f' \<and> lru_wf (cache_m s') \<and> statics_m s' = statics_m s \<and> announced_if f' s'"
proof (cases c)
  case (UpHeaders h fin)
  with r obtain st where "encodeHeaders api h fin f s = Some (Inr (st, f', s'))"
    by (auto simp: bindRun_Inr_iff split: prod.splits)
  from encodeHeaders_frame [OF this wf an] show ?thesis .
next
  case (UpData d fin)
  show ?thesis
  proof (cases "entry_cached_m f")
    case True
    then show ?thesis using r UpData wf an by (simp add: encodeData_def)
  next
    case False
    with r UpData obtain f1 s1 where
      1: "(if is_first_data_m f then bindRun (produce (\<lambda>p e. Some (Inr (headersWriteComplete p e))) f s) (\<lambda>(f1, s1).
                    Some (Inr (f1\<lparr>is_first_data_m := False\<rparr>, s1))) else Some (Inr (f, s))) = Some (Inr (f1, s1))"
      and 2: "produce (writeData d fin) f1 s1 = Some (Inr (f', s'))"
      by (auto simp: encodeData_def bindRun_Inr_iff)
    have "same_groups s s1 \<and> same_request f f1 \<and> cache_m s1 = cache_m s \<and> wrappers_m s1 = wrappers_m s
        \<and> statics_m s1 = statics_m s \<and> is_first_headers_m f1 = is_first_headers_m f"
      using 1 by (auto simp: bindRun_Inr_iff same_request_def dest!: produce_frame split: if_splits)
    moreover from this have "same_groups s s'" using produce_frame [OF 2] same_groups_trans [of s s1 s'] by blast
    ultimately show ?thesis using produce_frame [OF 2] wf an by (simp add: announced_if_def same_request_def)
  qed
next
  case (UpTrailers t)
  show ?thesis
  proof (cases "entry_cached_m f")
    case True
    then show ?thesis using r UpTrailers wf an by (simp add: encodeTrailers_def)
  next
    case False
    with r UpTrailers obtain f1 s1 where
      1: "(if is_first_trailers_m f then bindRun (produce (\<lambda>p e. Some (Inr (dataWriteComplete p e))) f s) (\<lambda>(f1, s1).
                    Some (Inr (f1\<lparr>is_first_trailers_m := False\<rparr>, s1))) else Some (Inr (f, s))) = Some (Inr (f1, s1))"
      and 2: "produce (writeTrailers api t) f1 s1 = Some (Inr (f', s'))"
      by (auto simp: encodeTrailers_def bindRun_Inr_iff)
    have "same_groups s s1 \<and> same_request f f1 \<and> cache_m s1 = cache_m s \<and> wrappers_m s1 = wrappers_m s
        \<and> statics_m s1 = statics_m s \<and> is_first_headers_m f1 = is_first_headers_m f"
      using 1 by (auto simp: bindRun_Inr_iff same_request_def dest!: produce_frame split: if_splits)
    moreover from this have "same_groups s s'" using produce_frame [OF 2] same_groups_trans [of s s1 s'] by blast
    ultimately show ?thesis using produce_frame [OF 2] wf an by (simp add: announced_if_def same_request_def)
  qed
qed (use c in simp)

section \<open>The step relation\<close>

text \<open>
  A thread that waits on the condition variable: the filter with the decoder callbacks and the group
  it waits for now, the requests of \<^verbatim>\<open>attendToOtherRCGroups\<close> that come after this one, and whether
  this is the wait of a request of its own or the loop of \<^verbatim>\<open>attendToOtherRCGroups\<close>.
\<close>

record 'h waiting_thread =
  w_filter :: "'h http_filter"
  w_rest :: "(callback_id \<times> wrapper_id) list"
  w_attends :: bool

text \<open>
  The shared state, the filters whose response is in flight, the threads that wait, and as a history
  variable the requests that are open: stopped, and neither served -- a served request is one that
  \<open>delivered_m\<close> has a new record of -- nor given up by a timeout. \<^verbatim>\<open>encodeComplete\<close> may come at any time, also
  after a response whose status code is no number, which \<^verbatim>\<open>encodeHeaders\<close> stops before it announces the group.
\<close>

record 'h sys =
  shared_s :: "'h shared"
  flights_s :: "'h http_filter list"
  waits_s :: "'h waiting_thread list"
  open_s :: "callback_id multiset"

definition thread_waits :: "thread_id \<Rightarrow> 'h sys \<Rightarrow> bool" where
  "thread_waits t S \<longleftrightarrow> (\<exists>x \<in> set (waits_s S). this_thread_id_m (w_filter x) = t)"

text \<open>What is left for a waiting thread after its current wait: the next iteration of the loop.\<close>

definition next_wait :: "'h waiting_thread \<Rightarrow> 'h http_filter \<Rightarrow> 'h shared \<Rightarrow> 'h waiting_thread list" where
  "next_wait x f s = (case w_rest x of [] \<Rightarrow> []
     | (cb, w) # rest \<Rightarrow> [\<lparr>w_filter = f\<lparr>decoder_callbacks_m := cb, response_wrapper_rc_ptr_m := weak_lock w s\<rparr>,
         w_rest = rest, w_attends = w_attends x\<rparr>])"

definition end_wait :: "'h waiting_thread \<Rightarrow> 'h http_filter \<Rightarrow> 'h shared \<Rightarrow> 'h shared" where
  "end_wait x f s = (if w_rest x = [] \<and> w_attends x then releaseLeaderThreadIfPossible f s else s)"

inductive rc_step :: "'h envoy_api \<Rightarrow> 'h sys \<Rightarrow> 'h sys \<Rightarrow> bool" for api where
  miss: "\<not> thread_waits t S \<Longrightarrow> begin_ok env \<Longrightarrow> HttpCacheRCFilter cb config (shared_s S) = (f, s0) \<Longrightarrow>
    decodeHeaders api env t h f s0 = Some (Inr (Continue, f', s')) \<Longrightarrow>
    rc_step api S (S\<lparr>shared_s := s', flights_s := f' # flights_s S\<rparr>)"
| hit: "\<not> thread_waits t S \<Longrightarrow> begin_ok env \<Longrightarrow> HttpCacheRCFilter cb config (shared_s S) = (f, s0) \<Longrightarrow>
    classify t (cache_key h) s0 = INITIAL_LEADER \<Longrightarrow>
    decodeHeaders api env t h f s0 = Some (Inr (StopIteration, f', s')) \<Longrightarrow>
    rc_step api S (S\<lparr>shared_s := s', open_s := add_mset cb (open_s S) - mset (answered (shared_s S) s')\<rparr>)"
| join: "\<not> thread_waits t S \<Longrightarrow> begin_ok env \<Longrightarrow> HttpCacheRCFilter cb config (shared_s S) = (f, s0) \<Longrightarrow>
    classify t (cache_key h) s0 = LEADER \<or> classify t (cache_key h) s0 = OTHER_GROUP_LEADER \<Longrightarrow>
    decodeHeaders api env t h f s0 = Some (Inr (StopIteration, f', s')) \<Longrightarrow>
    rc_step api S (S\<lparr>shared_s := s', open_s := add_mset cb (open_s S)\<rparr>)"
| wait: "\<not> thread_waits t S \<Longrightarrow> begin_ok env \<Longrightarrow> HttpCacheRCFilter cb config (shared_s S) = (f, s0) \<Longrightarrow>
    getThreadStatus env ((createRequestHeadersStrKey h f)\<lparr>this_thread_id_m := t\<rparr>) s0 = Some (Inr (WAITING, f', s')) \<Longrightarrow>
    rc_step api S (S\<lparr>shared_s := s', waits_s := \<lparr>w_filter = f', w_rest = [], w_attends = False\<rparr> # waits_s S,
      open_s := add_mset cb (open_s S)\<rparr>)"
| respond: "flights_s S = xs @ f # ys \<Longrightarrow> \<not> thread_waits (this_thread_id_m f) S \<Longrightarrow> c \<noteq> UpComplete \<Longrightarrow>
    upstream_call api env c (f, shared_s S) = Some (Inr (f', s')) \<Longrightarrow>
    rc_step api S (S\<lparr>shared_s := s', flights_s := xs @ f' # ys\<rparr>)"
| finish: "flights_s S = xs @ f # ys \<Longrightarrow> \<not> thread_waits (this_thread_id_m f) S \<Longrightarrow> begin_ok env \<Longrightarrow>
    response_wrapper_rc_ptr_m f = Some w \<Longrightarrow>
    other_rc_groups_m (wrappers_m (shared_s S) ! w) = []
      \<or> AList.delete (request_headers_str_key_m f) (led_groups (this_thread_id_m f) (shared_s S)) \<noteq> [] \<Longrightarrow>
    encodeComplete api env f (shared_s S) = Some (Inr (f', s')) \<Longrightarrow>
    rc_step api S (S\<lparr>shared_s := s', flights_s := xs @ ys,
      open_s := open_s S - mset (answered (shared_s S) s')\<rparr>)"
| finish_attend: "flights_s S = xs @ f # ys \<Longrightarrow> \<not> thread_waits (this_thread_id_m f) S \<Longrightarrow>
    response_wrapper_rc_ptr_m f = Some w \<Longrightarrow>
    other_rc_groups_m (wrappers_m (shared_s S) ! w) = (cb, v) # rest \<Longrightarrow>
    AList.delete (request_headers_str_key_m f) (led_groups (this_thread_id_m f) (shared_s S)) = [] \<Longrightarrow>
    produce (\<lambda>p e. Some (writeComplete p e)) f (shared_s S) = Some (Inr (f1, s1)) \<Longrightarrow>
    serveResponseToCurrentRCGroup api env f1 (detachCurrentRCGroup f1 s1) = Some (Inr (f2, s2)) \<Longrightarrow>
    rc_step api S (S\<lparr>shared_s := set_led_groups (this_thread_id_m f2)
         (AList.delete (request_headers_str_key_m f2) (led_groups (this_thread_id_m f2) s2)) s2,
      flights_s := xs @ ys,
      waits_s := \<lparr>w_filter = f2\<lparr>decoder_callbacks_m := cb, response_wrapper_rc_ptr_m := weak_lock v s2\<rparr>,
         w_rest = rest, w_attends = True\<rparr> # waits_s S,
      open_s := open_s S - mset (answered (shared_s S) s2)\<rparr>)"
| wake: "waits_s S = xs @ x # ys \<Longrightarrow> response_wrapper_rc_ptr_m (w_filter x) = Some w \<Longrightarrow>
    shared_response_entry_m (wrappers_m (shared_s S) ! w) = Some a \<Longrightarrow>
    serve_entry api env (Some a) (decoder_callbacks_m (w_filter x)) (w_filter x) (shared_s S) = Some (Inr (f', s')) \<Longrightarrow>
    rc_step api S (S\<lparr>shared_s := end_wait x f' s', waits_s := xs @ next_wait x f' s' @ ys,
      open_s := open_s S - mset (answered (shared_s S) s')\<rparr>)"
| timeout: "waits_s S = xs @ x # ys \<Longrightarrow> response_wrapper_rc_ptr_m (w_filter x) = Some w \<Longrightarrow>
    shared_response_entry_m (wrappers_m (shared_s S) ! w) = None \<Longrightarrow>
    rc_step api S (S\<lparr>shared_s := end_wait x (w_filter x) (shared_s S),
      waits_s := xs @ next_wait x (w_filter x) (shared_s S) @ ys,
      open_s := open_s S - {#decoder_callbacks_m (w_filter x)#}\<rparr>)"

inductive_simps rc_step_iff: "rc_step api S S'"

definition rc_start :: "'h sys" where
  "rc_start = \<lparr>shared_s = initial_shared, flights_s = [], waits_s = [], open_s = {#}\<rparr>"

abbreviation rc_steps :: "'h envoy_api \<Rightarrow> 'h sys \<Rightarrow> 'h sys \<Rightarrow> bool" where
  "rc_steps api \<equiv> (rc_step api)\<^sup>*\<^sup>*"

section \<open>What a request does to the groups\<close>

lemma new_filter_frame:
  assumes wf: "lru_wf (cache_m s)" and new: "HttpCacheRCFilter cb config s = (f, s')"
  shows "same_groups s s' \<and> lru_wf (cache_m s') \<and> fresh f \<and> decoder_callbacks_m f = cb \<and> wrappers_m s' = wrappers_m s"
proof -
  have "lru_wf (cache_m s')"
    using new wf lru_wf_init [OF wf] by (auto simp: HttpCacheRCFilter_def Let_def split: prod.splits)
  moreover have "fresh f"
    using new consumer_idle_new
    by (auto simp: HttpCacheRCFilter_def Let_def fresh_def new_CacheEntryConsumer_def split: prod.splits)
  ultimately show ?thesis
    using new by (auto simp: HttpCacheRCFilter_def Let_def same_groups_def split: prod.splits)
qed

text \<open>The filter that \<^verbatim>\<open>decodeHeaders\<close> passes to \<^verbatim>\<open>getThreadStatus\<close>.\<close>

abbreviation asking :: "request_headers \<Rightarrow> thread_id \<Rightarrow> 'h http_filter \<Rightarrow> 'h http_filter" where
  "asking h t f \<equiv> (createRequestHeadersStrKey h f)\<lparr>this_thread_id_m := t\<rparr>"

lemma asking_fields:
  assumes "fresh f"
  shows "request_headers_str_key_m (asking h t f) = cache_key h" "this_thread_id_m (asking h t f) = t"
    "decoder_callbacks_m (asking h t f) = decoder_callbacks_m f" "is_first_headers_m (asking h t f)"
  using fresh_key [OF assms] assms by (simp_all add: fresh_def) (simp_all add: createRequestHeadersStrKey_def)

abbreviation new_wrapper :: "thread_id \<Rightarrow> response_wrapper" where
  "new_wrapper t \<equiv> \<lparr>leader_thread_id_m = t, waiting_decoder_callbacks_m = [], shared_response_entry_m = None,
     other_rc_groups_m = []\<rparr>"

lemma lead_status:
  assumes inv: "rc_inv_on B s" "t \<notin> B" and env: "begin_ok env" and f: "fresh f"
    and c: "classify t (cache_key h) s = INITIAL_LEADER"
  shows "\<exists>s2. getThreadStatus env (asking h t f) s = Some (Inr (INITIAL_LEADER,
        (asking h t f)\<lparr>response_wrapper_rc_ptr_m := Some (length (wrappers_m s))\<rparr>, s2))
    \<and> rc_inv_on B s2 \<and> group_of (cache_key h) s = None
    \<and> group_of k s2 = (if k = cache_key h then Some (length (wrappers_m s)) else group_of k s)
    \<and> led_groups t' s2 = (if t' = t then led_groups t s @ [(cache_key h, length (wrappers_m s))] else led_groups t' s)
    \<and> wrappers_m s2 = wrappers_m s @ [new_wrapper t] \<and> expired_m s2 = expired_m s \<and> cache_m s2 = cache_m s
    \<and> entries_m s2 = entries_m s \<and> statics_m s2 = statics_m s \<and> delivered_m s2 = delivered_m s"
proof -
  have none: "group_of (cache_key h) s = None" using c by (auto simp: classify_def split: option.splits if_splits)
  from getThreadStatus_ok [OF inv(1) env, of "asking h t f"] inv(2) c
  show ?thesis unfolding asking_fields [OF f] using none by auto
qed

lemma join_status:
  assumes inv: "rc_inv_on B s" "t \<notin> B" and env: "begin_ok env" and f: "fresh f"
    and r: "decodeHeaders api env t h f s = Some (Inr (st, f', s'))"
  shows "classify t (cache_key h) s = LEADER \<Longrightarrow> \<exists>w. group_of (cache_key h) s = Some w
      \<and> leader_thread_id_m (wrappers_m s ! w) = t
      \<and> s' = upd_wrapper w (\<lambda>r. r\<lparr>waiting_decoder_callbacks_m := waiting_decoder_callbacks_m r @ [decoder_callbacks_m f]\<rparr>) s"
    "classify t (cache_key h) s = OTHER_GROUP_LEADER \<Longrightarrow> \<exists>w k v. group_of (cache_key h) s = Some w
      \<and> (k, v) \<in> set (led_groups t s)
      \<and> s' = upd_wrapper v (\<lambda>r. r\<lparr>other_rc_groups_m := other_rc_groups_m r @ [(decoder_callbacks_m f, w)]\<rparr>) s"
proof -
  from getThreadStatus_ok [OF inv(1) env, of "asking h t f"] inv(2) obtain s2 w where
    g: "getThreadStatus env (asking h t f) s = Some (Inr (classify t (cache_key h) s,
        (asking h t f)\<lparr>response_wrapper_rc_ptr_m := Some w\<rparr>, s2))" "group_of (cache_key h) s2 = Some w"
    and le: "classify t (cache_key h) s = LEADER \<Longrightarrow> s2 = upd_wrapper w (\<lambda>r. r\<lparr>waiting_decoder_callbacks_m :=
         waiting_decoder_callbacks_m r @ [decoder_callbacks_m f]\<rparr>) s"
    and ot: "classify t (cache_key h) s = OTHER_GROUP_LEADER \<Longrightarrow> \<exists>k' w'. (k', w') \<in> set (led_groups t s)
         \<and> s2 = upd_wrapper w' (\<lambda>r. r\<lparr>other_rc_groups_m := other_rc_groups_m r @ [(decoder_callbacks_m f, w)]\<rparr>) s"
    unfolding asking_fields [OF f] by blast
  {
    assume c: "classify t (cache_key h) s = LEADER"
    then have "s' = s2" using r g by (simp add: decodeHeaders_def Let_def)
    moreover have "group_of (cache_key h) s = Some w" using g(2) le [OF c] by simp
    moreover from this c have "leader_thread_id_m (wrappers_m s ! w) = t" by (simp add: classify_def split: if_splits)
    ultimately show "\<exists>w. group_of (cache_key h) s = Some w
      \<and> leader_thread_id_m (wrappers_m s ! w) = t
      \<and> s' = upd_wrapper w (\<lambda>r. r\<lparr>waiting_decoder_callbacks_m := waiting_decoder_callbacks_m r @ [decoder_callbacks_m f]\<rparr>) s"
      using le [OF c] by blast
  }
  {
    assume c: "classify t (cache_key h) s = OTHER_GROUP_LEADER"
    then have "s' = s2" using r g by (simp add: decodeHeaders_def Let_def)
    moreover have "group_of (cache_key h) s = Some w" using g(2) ot [OF c] by auto
    ultimately show "\<exists>w k v. group_of (cache_key h) s = Some w \<and> (k, v) \<in> set (led_groups t s)
      \<and> s' = upd_wrapper v (\<lambda>r. r\<lparr>other_rc_groups_m := other_rc_groups_m r @ [(decoder_callbacks_m f, w)]\<rparr>) s"
      using ot [OF c] by blast
  }
qed

lemma wait_status:
  assumes inv: "rc_inv_on B s" "t \<notin> B" and env: "begin_ok env" and f: "fresh f"
    and r: "getThreadStatus env (asking h t f) s = Some (Inr (WAITING, f', s'))"
  shows "\<exists>w. s' = s \<and> f' = (asking h t f)\<lparr>response_wrapper_rc_ptr_m := Some w\<rparr> \<and> group_of (cache_key h) s = Some w
    \<and> led_groups t s = []"
proof -
  from getThreadStatus_ok [OF inv(1) env, of "asking h t f"] inv(2) obtain s2 w where
    g: "getThreadStatus env (asking h t f) s = Some (Inr (classify t (cache_key h) s,
        (asking h t f)\<lparr>response_wrapper_rc_ptr_m := Some w\<rparr>, s2))" "group_of (cache_key h) s2 = Some w"
      "classify t (cache_key h) s = WAITING \<longrightarrow> s2 = s"
    unfolding asking_fields [OF f] by blast
  with r have c: "classify t (cache_key h) s = WAITING" by simp
  then have "led_groups t s = []" by (simp add: classify_def split: option.splits if_splits)
  with g c r show ?thesis by simp
qed

lemma continue_classify:
  assumes inv: "rc_inv_on B s" "t \<notin> B" and env: "begin_ok env" and f: "fresh f"
    and r: "decodeHeaders api env t h f s = Some (Inr (Continue, f', s'))"
  shows "classify t (cache_key h) s = INITIAL_LEADER"
proof -
  from getThreadStatus_ok [OF inv(1) env, of "asking h t f"] inv(2) obtain s2 w where
    g: "getThreadStatus env (asking h t f) s = Some (Inr (classify t (cache_key h) s,
        (asking h t f)\<lparr>response_wrapper_rc_ptr_m := Some w\<rparr>, s2))"
    unfolding asking_fields [OF f] by blast
  show ?thesis
  proof (rule ccontr)
    assume "classify t (cache_key h) s \<noteq> INITIAL_LEADER"
    then show False using r g
      by (cases "classify t (cache_key h) s") (auto simp: decodeHeaders_def Let_def bindRun_Inr_iff)
  qed
qed

lemma miss_result:
  assumes inv: "rc_inv_on B s" "t \<notin> B" and env: "begin_ok env" and f: "fresh f" and wf: "lru_wf (cache_m s)"
    and r: "decodeHeaders api env t h f s = Some (Inr (Continue, f', s'))"
  shows "rc_inv_on B s' \<and> lru_wf (cache_m s') \<and> group_of (cache_key h) s = None
    \<and> group_of k s' = (if k = cache_key h then Some (length (wrappers_m s)) else group_of k s)
    \<and> led_groups t' s' = (if t' = t then led_groups t s @ [(cache_key h, length (wrappers_m s))] else led_groups t' s)
    \<and> wrappers_m s' = wrappers_m s @ [new_wrapper t] \<and> expired_m s' = expired_m s
    \<and> response_wrapper_rc_ptr_m f' = Some (length (wrappers_m s)) \<and> this_thread_id_m f' = t
    \<and> request_headers_str_key_m f' = cache_key h \<and> \<not> entry_cached_m f' \<and> is_first_headers_m f'"
proof -
  from lead_status [OF inv env f continue_classify [OF inv env f r], of k t'] obtain s2 where
    g: "getThreadStatus env (asking h t f) s = Some (Inr (INITIAL_LEADER,
        (asking h t f)\<lparr>response_wrapper_rc_ptr_m := Some (length (wrappers_m s))\<rparr>, s2))"
    and s2: "rc_inv_on B s2" "group_of (cache_key h) s = None"
      "group_of k s2 = (if k = cache_key h then Some (length (wrappers_m s)) else group_of k s)"
      "led_groups t' s2 = (if t' = t then led_groups t s @ [(cache_key h, length (wrappers_m s))] else led_groups t' s)"
      "wrappers_m s2 = wrappers_m s @ [new_wrapper t]" "expired_m s2 = expired_m s" "cache_m s2 = cache_m s"
    by blast
  from at_refines [OF wf, of "cache_key h"] obtain x c where
    c: "at (cache_key h) (cache_m s2) = Inr (x, c)" "lru_wf c" by (metis s2(7))
  show ?thesis
  proof (cases x)
    case None
    then show ?thesis using r g c s2 asking_fields [OF f]
      by (auto simp: decodeHeaders_def Let_def split: prod.splits)
  next
    case (Some a)
    then show ?thesis using r g c asking_fields [OF f]
      by (auto simp: decodeHeaders_def Let_def bindRun_Inr_iff split: prod.splits)
  qed
qed

lemma rc_assign_same:
  assumes "same_groups s s'"
  shows "same_groups (rc_assign k v s) (rc_assign k v s')"
  using assms by (simp add: same_groups_def rc_assign_def)

text \<open>Leaving a group without requests of other groups.\<close>

lemma leave_same:
  assumes "same_groups s s'"
  shows "same_groups (release t (leave_group t key s)) (release t (leave_group t key s'))"
  using assms by (simp add: same_groups_def release_def leave_group_def set_led_groups_def rc_assign_def led_groups_def)

lemma leave_maps:
  "group_of k (release t (leave_group t key s)) = (if k = key then None else group_of k s)"
  "led_groups t' (release t (leave_group t key s)) = (if t' = t then AList.delete key (led_groups t s) else led_groups t' s)"
  by simp (simp add: release_facts leave_group_def)

lemma alist_delete_absent: "key \<notin> fst ` set xs \<Longrightarrow> AList.delete key xs = xs"
  by (induction xs) (auto simp: AList.delete_eq)

lemma attend_alone:
  assumes "same_groups (rc_assign (request_headers_str_key_m f) None s) s1" and "same_request f f1"
    and "response_wrapper_rc_ptr_m f = Some w" and "w < length (wrappers_m s)"
    and "other_rc_groups_m (wrappers_m s ! w) = []"
    and r: "attendToOtherRCGroups api env f1 s1 = Some (Inr (f', s'))"
  shows "same_groups (release (this_thread_id_m f) (leave_group (this_thread_id_m f) (request_headers_str_key_m f) s)) s'
    \<and> cache_m s' = cache_m s1 \<and> statics_m s' = statics_m s1 \<and> delivered_m s' = delivered_m s1"
proof -
  have w: "response_wrapper_rc_ptr_m f1 = Some w" "w < length (wrappers_m s1)" "other_rc_groups_m (wrappers_m s1 ! w) = []"
    using assms(1-5) by (simp_all add: same_groups_def same_request_def)
  let ?t = "this_thread_id_m f" and ?key = "request_headers_str_key_m f"
  have eq: "s' = release ?t (set_led_groups ?t (AList.delete ?key (led_groups ?t s1)) s1)"
    using attend_no_others [OF w, of api env] r assms(2) by (simp add: same_request_def)
  have "led_groups ?t s1 = led_groups ?t s" using same_groups_maps(2) [OF assms(1)] by simp
  then show ?thesis using assms(1) unfolding eq
    by (simp add: same_groups_def release_def leave_group_def set_led_groups_def rc_assign_def led_groups_def)
qed

text \<open>The calls of \<^verbatim>\<open>decodeHeaders\<close> on a hit.\<close>

lemma hit_parts:
  fixes f :: "'h http_filter"
  assumes f: "fresh f" and wf: "lru_wf (cache_m s2)"
    and g: "getThreadStatus env (asking h t f) s
      = Some (Inr (INITIAL_LEADER, (asking h t f)\<lparr>response_wrapper_rc_ptr_m := Some w\<rparr>, s2))"
    and r: "decodeHeaders api env t h f s = Some (Inr (StopIteration, f', s'))"
  obtains a c s4 f5 s5 f6 s6 where "at (cache_key h) (cache_m s2) = Inr (Some a, c)" "lru_wf c"
    "notifyWaitingCoalescedRequests (Some a) ((asking h t f)\<lparr>response_wrapper_rc_ptr_m := Some w\<rparr>) (s2\<lparr>cache_m := c\<rparr>) = Inr s4"
    "serve_entry api env (Some a) (decoder_callbacks_m f) ((asking h t f)\<lparr>response_wrapper_rc_ptr_m := Some w\<rparr>) s4
      = Some (Inr (f5, s5))"
    "serveResponseToCurrentRCGroup api env f5 (detachCurrentRCGroup f5 s5) = Some (Inr (f6, s6))"
    "serve_callbacks api env (waiting_decoder_callbacks_m (wrappers_m s5 ! w)) f5 (detachCurrentRCGroup f5 s5)
      = Some (Inr (f6, s6))"
    "attendToOtherRCGroups api env f6 s6 = Some (Inr (f', s'))"
proof -
  from at_refines [OF wf, of "cache_key h"] obtain x c where
    c: "at (cache_key h) (cache_m s2) = Inr (x, c)" "lru_wf c" by auto
  note af = asking_fields [OF f]
  from r g c af obtain a where x: "x = Some a" by (cases x) (auto simp: decodeHeaders_def Let_def split: prod.splits)
  from r g c x af obtain s4 f5 s5 f6 s6 where
    4: "notifyWaitingCoalescedRequests (Some a) ((asking h t f)\<lparr>response_wrapper_rc_ptr_m := Some w\<rparr>) (s2\<lparr>cache_m := c\<rparr>) = Inr s4"
    and 5: "serve_entry api env (Some a) (decoder_callbacks_m f) ((asking h t f)\<lparr>response_wrapper_rc_ptr_m := Some w\<rparr>) s4
      = Some (Inr (f5, s5))"
    and 6: "serveResponseToCurrentRCGroup api env f5 (detachCurrentRCGroup f5 s5) = Some (Inr (f6, s6))"
    and 7: "attendToOtherRCGroups api env f6 s6 = Some (Inr (f', s'))"
    by (auto simp: decodeHeaders_def Let_def bindRun_Inr_iff split: prod.splits)
  have "response_wrapper_rc_ptr_m f5 = Some w" using serve_entry_frame [OF 5] by (simp add: same_request_def)
  with 6 have "serve_callbacks api env (waiting_decoder_callbacks_m (wrappers_m s5 ! w)) f5 (detachCurrentRCGroup f5 s5)
      = Some (Inr (f6, s6))"
    by (auto simp: serveResponseToCurrentRCGroup_def bindRun_Inr_iff detachCurrentRCGroup_def wrapper_of_def split: if_splits)
  from that [OF c(1) [unfolded x] c(2) 4 5 6 this 7] show thesis .
qed

lemma hit_result:
  assumes inv: "rc_inv_on B s" "t \<notin> B" and env: "begin_ok env" and f: "fresh f" and wf: "lru_wf (cache_m s)"
    and c: "classify t (cache_key h) s = INITIAL_LEADER"
    and r: "decodeHeaders api env t h f s = Some (Inr (StopIteration, f', s'))"
  shows "rc_inv_on B s' \<and> lru_wf (cache_m s') \<and> group_of k s' = group_of k s \<and> led_groups t' s' = led_groups t' s
    \<and> expired_m s' = expired_m s
    \<and> length (wrappers_m s') = Suc (length (wrappers_m s))
    \<and> (\<forall>v < length (wrappers_m s). leader_thread_id_m (wrappers_m s' ! v) = leader_thread_id_m (wrappers_m s ! v)
          \<and> waiting_decoder_callbacks_m (wrappers_m s' ! v) = waiting_decoder_callbacks_m (wrappers_m s ! v)
          \<and> other_rc_groups_m (wrappers_m s' ! v) = other_rc_groups_m (wrappers_m s ! v)
          \<and> (shared_response_entry_m (wrappers_m s ! v) \<noteq> None \<longrightarrow> shared_response_entry_m (wrappers_m s' ! v) \<noteq> None))
    \<and> other_rc_groups_m (wrappers_m s' ! length (wrappers_m s)) = []
    \<and> shared_response_entry_m (wrappers_m s' ! length (wrappers_m s)) \<noteq> None
    \<and> serves [decoder_callbacks_m f] s s'"
proof -
  let ?w = "length (wrappers_m s)"
  let ?f2 = "(asking h t f)\<lparr>response_wrapper_rc_ptr_m := Some ?w\<rparr>"
  from lead_status [OF inv env f c, of "cache_key h" t] obtain s2 where
    g: "getThreadStatus env (asking h t f) s = Some (Inr (INITIAL_LEADER, ?f2, s2))"
    and s2: "rc_inv_on B s2" "group_of (cache_key h) s = None" "group_of (cache_key h) s2 = Some ?w"
      "led_groups t s2 = led_groups t s @ [(cache_key h, ?w)]"
      "wrappers_m s2 = wrappers_m s @ [new_wrapper t]" "expired_m s2 = expired_m s" "cache_m s2 = cache_m s"
      "delivered_m s2 = delivered_m s"
    by auto
  have s2k: "group_of k s2 = (if k = cache_key h then Some ?w else group_of k s)"
    "led_groups t' s2 = (if t' = t then led_groups t s @ [(cache_key h, ?w)] else led_groups t' s)"
    using lead_status [OF inv env f c, of k t'] g by auto
  have wf2: "lru_wf (cache_m s2)" using wf s2(7) by simp
  obtain a c s4 f5 s5 f6 s6 where c: "at (cache_key h) (cache_m s2) = Inr (Some a, c)" "lru_wf c"
    and 4: "notifyWaitingCoalescedRequests (Some a) ?f2 (s2\<lparr>cache_m := c\<rparr>) = Inr s4"
    and 5: "serve_entry api env (Some a) (decoder_callbacks_m f) ?f2 s4 = Some (Inr (f5, s5))"
    and 6: "serveResponseToCurrentRCGroup api env f5 (detachCurrentRCGroup f5 s5) = Some (Inr (f6, s6))"
    and c6: "serve_callbacks api env (waiting_decoder_callbacks_m (wrappers_m s5 ! ?w)) f5 (detachCurrentRCGroup f5 s5)
      = Some (Inr (f6, s6))"
    and 7: "attendToOtherRCGroups api env f6 s6 = Some (Inr (f', s'))"
    by (rule hit_parts [OF f wf2 g r])
  note af = asking_fields [OF f]
  let ?s3 = "s2\<lparr>cache_m := c\<rparr>"
  have 4: "same_groups ?s3 s4" "cache_m s4 = c" "shared_response_entry_m (wrappers_m s4 ! ?w) \<noteq> None"
    "delivered_m s4 = delivered_m s2"
    using notify_frame [OF 4] by auto
  have 5: "same_groups s4 s5" "same_request ?f2 f5" "cache_m s5 = c" "wrappers_m s5 = wrappers_m s4"
    "serves [decoder_callbacks_m f] s4 s5"
    using serve_entry_frame [OF 5] 4(2) by auto
  have f5: "response_wrapper_rc_ptr_m f5 = Some ?w" "request_headers_str_key_m f5 = cache_key h" "this_thread_id_m f5 = t"
    using 5(2) af by (simp_all add: same_request_def)
  have s5: "same_groups ?s3 s5" using same_groups_trans [OF 4(1) 5(1)] .
  have w5: "?w < length (wrappers_m s5)" "other_rc_groups_m (wrappers_m s5 ! ?w) = []"
    "leader_thread_id_m (wrappers_m s5 ! ?w) = t" "waiting_decoder_callbacks_m (wrappers_m s5 ! ?w) = []"
    using s5 by (simp_all add: same_groups_def s2(5))
  from serve_callbacks_frame [OF c6]
  have 6: "same_groups (rc_assign (cache_key h) None s5) s6" "same_request f5 f6" "cache_m s6 = c"
    "serves [] s5 s6"
    using 5(3) w5(4) by (simp_all add: detachCurrentRCGroup_def f5 serves_def)
  have 7: "same_groups (release t (leave_group t (cache_key h) s5)) s'" "cache_m s' = c" "delivered_m s' = delivered_m s6"
    using attend_alone [OF _ 6(2) f5(1) w5(1,2) 7] 6(1,3) by (simp_all add: f5)
  have "serves ([decoder_callbacks_m f] @ []) s4 s6" by (rule serves_trans [OF 5(5) 6(4)])
  then have sv: "serves [decoder_callbacks_m f] s s'" using 7(3) 4(4) s2(8) by (simp add: serves_def)
  have inv5: "rc_inv_on B s5" using same_groups_inv [OF s5] s2(1) by simp
  have g5: "group_of (cache_key h) s5 = Some ?w" using same_groups_maps(1) [OF s5] s2(3) by simp
  have "rc_inv_on B s'" using same_groups_inv [OF 7(1)] rc_inv_leave [OF inv5 g5 w5(3)] by blast
  moreover have "group_of k s' = group_of k s"
    using same_groups_maps(1) [OF 7(1)] same_groups_maps(1) [OF s5] s2k(1) s2(2) by (simp add: leave_maps)
  moreover have "led_groups t' s' = led_groups t' s"
  proof -
    have "cache_key h \<notin> fst ` set (led_groups t s)" using rc_invD(2) [OF inv(1)] s2(2) by fastforce
    then have "AList.delete (cache_key h) (led_groups t s @ [(cache_key h, ?w)]) = led_groups t s"
      by (simp add: AList.delete_eq alist_delete_absent [unfolded AList.delete_eq])
    then show ?thesis
      using same_groups_maps(2) [OF 7(1)] same_groups_maps(2) [OF s5] s2k(2) s2(4) by (simp add: leave_maps)
  qed
  moreover have "same_groups s5 (s5\<lparr>wrappers_m := wrappers_m s'\<rparr>)" "expired_m s' = expired_m s5"
    using 7(1) by (simp_all add: same_groups_def leave_group_def set_led_groups_def rc_assign_def release_def)
  ultimately show ?thesis
    using 7(2) c(2) s5 4(3) 5(4) sv by (simp add: same_groups_def s2(5,6) nth_append)
qed

section \<open>The end of a response\<close>

lemma before_attend:
  assumes p: "produce g f s = Some (Inr (f1, s1))"
    and r: "serveResponseToCurrentRCGroup api env f1 (detachCurrentRCGroup f1 s1) = Some (Inr (f2, s2))"
  shows "same_request f f2 \<and> same_groups (rc_assign (request_headers_str_key_m f) None s) s2 \<and> cache_m s2 = cache_m s"
proof -
  note 1 = produce_frame [OF p]
  from r obtain cbs where "serve_callbacks api env cbs f1 (detachCurrentRCGroup f1 s1) = Some (Inr (f2, s2))"
    by (auto simp: serveResponseToCurrentRCGroup_def bindRun_Inr_iff)
  note 2 = serve_callbacks_frame [OF this]
  have "same_groups (rc_assign (request_headers_str_key_m f) None s) (detachCurrentRCGroup f1 s1)"
    using 1 rc_assign_same [of s s1] by (simp add: detachCurrentRCGroup_def same_request_def)
  from same_groups_trans [OF this, of s2] 2
  have "same_groups (rc_assign (request_headers_str_key_m f) None s) s2" by blast
  then show ?thesis using 1 2 by (simp add: detachCurrentRCGroup_def same_request_def)
qed

lemma before_attend_serves:
  assumes p: "produce g f s = Some (Inr (f1, s1))"
    and r: "serveResponseToCurrentRCGroup api env f1 (detachCurrentRCGroup f1 s1) = Some (Inr (f2, s2))"
    and w: "response_wrapper_rc_ptr_m f = Some w"
  shows "serves (waiting_decoder_callbacks_m (wrappers_m s ! w)) s s2"
proof -
  note 1 = produce_frame [OF p]
  have "response_wrapper_rc_ptr_m f1 = Some w" "wrappers_m s1 = wrappers_m s" using 1 w by (simp_all add: same_request_def)
  with r have "serve_callbacks api env (waiting_decoder_callbacks_m (wrappers_m s ! w)) f1 (detachCurrentRCGroup f1 s1)
      = Some (Inr (f2, s2))"
    by (auto simp: serveResponseToCurrentRCGroup_def bindRun_Inr_iff detachCurrentRCGroup_def wrapper_of_def split: if_splits)
  from serve_callbacks_frame [OF this] 1 show ?thesis by (simp add: serves_def detachCurrentRCGroup_def)
qed

definition hand_over :: "wrapper_id \<Rightarrow> wrapper_id \<Rightarrow> thread_id \<Rightarrow> bytes \<Rightarrow> 'h shared \<Rightarrow> 'h shared" where
  "hand_over v w t key s = upd_wrapper v (\<lambda>r. r\<lparr>other_rc_groups_m := other_rc_groups_m r @ other_rc_groups_m (wrappers_m s ! w)\<rparr>)
     (upd_wrapper w (\<lambda>r. r\<lparr>other_rc_groups_m := []\<rparr>) (leave_group t key s))"

lemma hand_over_same:
  assumes "same_groups s s'" and "w < length (wrappers_m s)" and "v < length (wrappers_m s)"
  shows "same_groups (hand_over v w t key s) (hand_over v w t key s')"
  using assms
  by (auto simp: same_groups_def hand_over_def upd_wrapper_def leave_group_def set_led_groups_def rc_assign_def led_groups_def
      nth_list_update)

lemma finish_result:
  assumes inv: "rc_inv_on B s" and env: "begin_ok env"
    and f: "response_wrapper_rc_ptr_m f = Some w" "group_of (request_headers_str_key_m f) s = Some w" "\<not> entry_cached_m f"
    and more: "other_rc_groups_m (wrappers_m s ! w) = []
      \<or> AList.delete (request_headers_str_key_m f) (led_groups (this_thread_id_m f) s) \<noteq> []"
    and r: "encodeComplete api env f s = Some (Inr (f', s'))"
  shows "cache_m s' = cache_m s \<and> serves (waiting_decoder_callbacks_m (wrappers_m s ! w)) s s' \<and>
    (other_rc_groups_m (wrappers_m s ! w) = []
       \<and> same_groups (release (this_thread_id_m f) (leave_group (this_thread_id_m f) (request_headers_str_key_m f) s)) s'
     \<or> other_rc_groups_m (wrappers_m s ! w) \<noteq> []
       \<and> (\<exists>k v. (k, v) \<in> set (led_groups (this_thread_id_m f) s) \<and> k \<noteq> request_headers_str_key_m f \<and> v \<noteq> w
         \<and> same_groups (hand_over v w (this_thread_id_m f) (request_headers_str_key_m f) s) s'))"
proof -
  let ?t = "this_thread_id_m f" and ?key = "request_headers_str_key_m f"
  from r f(3) obtain f1 s1 f2 s2 where
    p: "produce (\<lambda>p e. Some (writeComplete p e)) f s = Some (Inr (f1, s1))"
    and d: "serveResponseToCurrentRCGroup api env f1 (detachCurrentRCGroup f1 s1) = Some (Inr (f2, s2))"
    and a: "attendToOtherRCGroups api env f2 s2 = Some (Inr (f', s'))"
    by (auto simp: encodeComplete_def bindRun_Inr_iff)
  note b = before_attend [OF p d] and sv = before_attend_serves [OF p d f(1)]
  have w: "w < length (wrappers_m s)" using rc_invD(1) [OF inv f(2)] by simp
  show ?thesis
  proof (cases "other_rc_groups_m (wrappers_m s ! w) = []")
    case True
    from attend_alone [OF _ _ f(1) w True a] b sv show ?thesis using True by (simp add: serves_def)
  next
    case False
    let ?s3 = "s2\<lparr>coalesced_requests_m := coalesced_requests_m s\<rparr>"
    have f2: "response_wrapper_rc_ptr_m f2 = Some w" "request_headers_str_key_m f2 = ?key" "this_thread_id_m f2 = ?t"
      using b f(1) by (simp_all add: same_request_def)
    have s3: "same_groups s ?s3" using b by (simp add: same_groups_def rc_assign_def)
    have d3: "detachCurrentRCGroup f2 ?s3 = s2" using b by (simp add: detachCurrentRCGroup_def f2 rc_assign_def same_groups_def)
    have inv3: "rc_inv_on B ?s3" using same_groups_inv [OF s3 inv] .
    have g3: "group_of (request_headers_str_key_m f2) ?s3 = Some w" using same_groups_maps(1) [OF s3] f(2) f2(2) by simp
    have o3: "other_rc_groups_m (wrappers_m ?s3 ! w) \<noteq> []" using s3 False w by (simp add: same_groups_def)
    have l3: "AList.delete (request_headers_str_key_m f2) (led_groups (this_thread_id_m f2) ?s3) \<noteq> []"
      using more False same_groups_maps(2) [OF s3] by (simp add: f2)
    from attend_hands_over_eq [OF inv3 env f2(1) g3 o3 l3, of api] obtain k v where
      kv: "(k, v) \<in> set (led_groups ?t s)" "k \<noteq> ?key" "v \<noteq> w"
      and e: "attendToOtherRCGroups api env f2 s2 = Some (Inr (f2, hand_over v w ?t ?key ?s3))"
      unfolding d3 f2 same_groups_maps(2) [OF s3] hand_over_def by blast
    have "s' = hand_over v w ?t ?key ?s3" using a e by simp
    moreover have "v < length (wrappers_m s)" using rc_invD(2) [OF inv kv(1)] by simp
    moreover from this have "same_groups (hand_over v w ?t ?key s) (hand_over v w ?t ?key ?s3)"
      by (rule hand_over_same [OF s3 w])
    moreover have "cache_m (hand_over v w ?t ?key ?s3) = cache_m s" "delivered_m (hand_over v w ?t ?key ?s3) = delivered_m s2"
      using b by (simp_all add: hand_over_def leave_group_def)
    ultimately show ?thesis using False kv sv by (auto simp: serves_def)
  qed
qed

lemma hand_over_maps:
  "group_of k (hand_over v w t key s) = (if k = key then None else group_of k s)"
  "led_groups t' (hand_over v w t key s) = (if t' = t then AList.delete key (led_groups t s) else led_groups t' s)"
  "length (wrappers_m (hand_over v w t key s)) = length (wrappers_m s)"
  "expired_m (hand_over v w t key s) = expired_m s"
  by (simp_all add: hand_over_def) (simp_all add: leave_group_def)

lemma hand_over_inv:
  assumes inv: "rc_inv_on B s" and w: "group_of key s = Some w" "leader_thread_id_m (wrappers_m s ! w) = t"
    and more: "(k, v) \<in> set (led_groups t s)" "k \<noteq> key"
  shows "rc_inv_on B (hand_over v w t key s)"
proof -
  have "AList.delete key (led_groups t s) \<noteq> []"
  proof -
    have "(k, v) \<in> set (AList.delete key (led_groups t s))" using more by (simp add: alist_delete_set)
    then show ?thesis by auto
  qed
  then have "release t (leave_group t key s) = leave_group t key s" by (simp add: release_def leave_group_def)
  then have "rc_inv_on B (leave_group t key s)" using rc_inv_leave [OF inv w] by simp
  then show ?thesis by (simp add: hand_over_def rc_inv_upd_wrapper)
qed

end
