(* ===== verification/Coalescing_Invariant.thy ===== *)
theory Coalescing_Invariant
  imports Coalescing_System
begin

text \<open>
  The invariant of the system of requests and threads: every group has one leader thread and one
  response in flight, a waiting thread leads nothing, and every request that was stopped is in
  exactly one list; every step of \<open>rc_step\<close> keeps it.
\<close>

section \<open>The invariant\<close>

text \<open>A filter in flight leads the group of its key; a group is announced once its headers have passed.\<close>

definition flight_ok :: "'h shared \<Rightarrow> 'h http_filter \<Rightarrow> bool" where
  "flight_ok s f \<longleftrightarrow> (\<exists>w. response_wrapper_rc_ptr_m f = Some w \<and> group_of (request_headers_str_key_m f) s = Some w
     \<and> leader_thread_id_m (wrappers_m s ! w) = this_thread_id_m f) \<and> \<not> entry_cached_m f \<and> announced_if f s"

text \<open>A waiting thread leads nothing, and what it waits for exists.\<close>

definition wait_ok :: "'h shared \<Rightarrow> 'h waiting_thread \<Rightarrow> bool" where
  "wait_ok s x \<longleftrightarrow> led_groups (this_thread_id_m (w_filter x)) s = []
     \<and> (\<exists>w < length (wrappers_m s). response_wrapper_rc_ptr_m (w_filter x) = Some w)
     \<and> (\<forall>(cb, w) \<in> set (w_rest x). w < length (wrappers_m s))"

text \<open>What the lists of other groups refer to exists, and no wrapper has expired.\<close>

definition lists_ok :: "'h shared \<Rightarrow> bool" where
  "lists_ok s \<longleftrightarrow> expired_m s = [] \<and> (\<forall>v < length (wrappers_m s).
     \<forall>(cb, w) \<in> set (other_rc_groups_m (wrappers_m s ! v)). w < length (wrappers_m s))"

text \<open>The requests kept in the lists of a group, and by a waiting thread.\<close>

definition held :: "'h shared \<Rightarrow> 'h http_filter \<Rightarrow> callback_id multiset" where
  "held s f = (case response_wrapper_rc_ptr_m f of None \<Rightarrow> {#}
     | Some w \<Rightarrow> mset (waiting_decoder_callbacks_m (wrappers_m s ! w)) + mset (map fst (other_rc_groups_m (wrappers_m s ! w))))"

definition parked :: "'h waiting_thread \<Rightarrow> callback_id multiset" where
  "parked x = add_mset (decoder_callbacks_m (w_filter x)) (mset (map fst (w_rest x)))"

definition attending :: "'h waiting_thread list \<Rightarrow> thread_id set" where
  "attending xs = (\<lambda>x. this_thread_id_m (w_filter x)) ` {x \<in> set xs. w_attends x}"

definition sys_inv :: "'h sys \<Rightarrow> bool" where
  "sys_inv S \<longleftrightarrow> rc_inv_on (attending (waits_s S)) (shared_s S) \<and> lru_wf (cache_m (shared_s S)) \<and> lists_ok (shared_s S)
     \<and> (\<forall>f \<in> set (flights_s S). flight_ok (shared_s S) f)
     \<and> distinct (map request_headers_str_key_m (flights_s S))
     \<and> (\<forall>k w. group_of k (shared_s S) = Some w \<longrightarrow> k \<in> request_headers_str_key_m ` set (flights_s S))
     \<and> (\<forall>x \<in> set (waits_s S). wait_ok (shared_s S) x)
     \<and> distinct (map (\<lambda>x. this_thread_id_m (w_filter x)) (waits_s S))
     \<and> open_s S = sum_list (map (held (shared_s S)) (flights_s S)) + sum_list (map parked (waits_s S))"

lemma sys_invD:
  assumes "sys_inv S"
  shows "rc_inv_on (attending (waits_s S)) (shared_s S)" "lru_wf (cache_m (shared_s S))" "lists_ok (shared_s S)"
    "f \<in> set (flights_s S) \<Longrightarrow> flight_ok (shared_s S) f" "distinct (map request_headers_str_key_m (flights_s S))"
    "group_of k (shared_s S) = Some w \<Longrightarrow> k \<in> request_headers_str_key_m ` set (flights_s S)"
    "x \<in> set (waits_s S) \<Longrightarrow> wait_ok (shared_s S) x"
    "distinct (map (\<lambda>x. this_thread_id_m (w_filter x)) (waits_s S))"
    "open_s S = sum_list (map (held (shared_s S)) (flights_s S)) + sum_list (map parked (waits_s S))"
  using assms unfolding sys_inv_def by blast+

lemma sys_inv_start: "sys_inv rc_start"
  using rc_inv_initial
  by (simp add: sys_inv_def rc_start_def attending_def lists_ok_def)
    (simp add: initial_shared_def lru_wf_new group_of_def)

lemma not_attending: "\<not> thread_waits t S \<Longrightarrow> t \<notin> attending (waits_s S)"
  by (auto simp: thread_waits_def attending_def)

section \<open>Steps that keep the groups\<close>

definition keeps :: "'h shared \<Rightarrow> 'h shared \<Rightarrow> bool" where
  "keeps s s' \<longleftrightarrow> (\<forall>k. group_of k s' = group_of k s) \<and> (\<forall>t. led_groups t s' = led_groups t s)
     \<and> expired_m s' = expired_m s \<and> length (wrappers_m s) \<le> length (wrappers_m s')
     \<and> (\<forall>v < length (wrappers_m s). leader_thread_id_m (wrappers_m s' ! v) = leader_thread_id_m (wrappers_m s ! v)
          \<and> waiting_decoder_callbacks_m (wrappers_m s' ! v) = waiting_decoder_callbacks_m (wrappers_m s ! v)
          \<and> other_rc_groups_m (wrappers_m s' ! v) = other_rc_groups_m (wrappers_m s ! v)
          \<and> (shared_response_entry_m (wrappers_m s ! v) \<noteq> None \<longrightarrow> shared_response_entry_m (wrappers_m s' ! v) \<noteq> None))
     \<and> (\<forall>v. length (wrappers_m s) \<le> v \<and> v < length (wrappers_m s') \<longrightarrow>
          other_rc_groups_m (wrappers_m s' ! v) = [] \<and> shared_response_entry_m (wrappers_m s' ! v) \<noteq> None)"

lemma keeps_same: "same_groups s s' \<Longrightarrow> keeps s s'"
  by (auto simp: keeps_def same_groups_maps) (auto simp: same_groups_def)

lemma keeps_trans: "keeps s s1 \<Longrightarrow> keeps s1 s2 \<Longrightarrow> keeps s s2"
  unfolding keeps_def by (auto simp: not_less) (metis not_less order_less_le_trans)+

lemma keeps_release: "keeps s (release t s)"
  by (auto simp: keeps_def release_facts) (simp add: release_def)

lemma keeps_ok:
  assumes k: "keeps s s'" and inv: "rc_inv_on B s"
  shows "flight_ok s f \<Longrightarrow> flight_ok s' f" "wait_ok s x \<Longrightarrow> wait_ok s' x" "lists_ok s \<Longrightarrow> lists_ok s'"
    "flight_ok s f \<Longrightarrow> held s' f = held s f"
proof -
  have len: "length (wrappers_m s) \<le> length (wrappers_m s')" using k by (simp add: keeps_def)
  {
    assume f: "flight_ok s f"
    then obtain w where w: "response_wrapper_rc_ptr_m f = Some w" "group_of (request_headers_str_key_m f) s = Some w"
      by (auto simp: flight_ok_def)
    then have "w < length (wrappers_m s)" using rc_invD(1) [OF inv w(2)] by simp
    then show "flight_ok s' f" "held s' f = held s f" using f w k
      by (auto simp: flight_ok_def announced_if_def keeps_def held_def)
  }
  show "wait_ok s x \<Longrightarrow> wait_ok s' x" using k len by (fastforce simp: wait_ok_def keeps_def)
  assume l: "lists_ok s"
  show "lists_ok s'"
    unfolding lists_ok_def
  proof (intro conjI allI impI)
    show "expired_m s' = []" using k l by (simp add: keeps_def lists_ok_def)
    fix v assume v: "v < length (wrappers_m s')"
    show "\<forall>(cb, w) \<in> set (other_rc_groups_m (wrappers_m s' ! v)). w < length (wrappers_m s')"
      using k l v len by (cases "v < length (wrappers_m s)") (fastforce simp: keeps_def lists_ok_def)+
  qed
qed

text \<open>A step that keeps the groups, replaces one filter in flight at most, and starts no wait.\<close>

lemma inv_keeps:
  assumes I: "sys_inv S" and k: "keeps (shared_s S) s'" and inv: "rc_inv_on (attending (waits_s S)) s'"
    and wf: "lru_wf (cache_m s')"
  shows "sys_inv (S\<lparr>shared_s := s'\<rparr>)"
proof -
  note D = sys_invD [OF I] and K = keeps_ok [OF k sys_invD(1) [OF I]]
  have h: "map (held s') (flights_s S) = map (held (shared_s S)) (flights_s S)"
    using K(4) D(4) by simp
  have g: "\<forall>k. group_of k s' = group_of k (shared_s S)" using k by (simp add: keeps_def)
  show ?thesis
    using inv wf K(1-3) D(3-9) g unfolding sys_inv_def by (simp add: h)
qed

lemma inv_replace:
  assumes I: "sys_inv S" and fl: "flights_s S = xs @ f # ys" and same: "same_request f f'" and an: "announced_if f' (shared_s S)"
  shows "sys_inv (S\<lparr>flights_s := xs @ f' # ys\<rparr>)"
proof -
  note D = sys_invD [OF I]
  have "flight_ok (shared_s S) f" using D(4) fl by simp
  then have "flight_ok (shared_s S) f'" "held (shared_s S) f' = held (shared_s S) f"
    using same an by (simp_all add: flight_ok_def same_request_def held_def)
  then show ?thesis
    using D same by (auto simp: sys_inv_def fl same_request_def)
qed

lemma attending_weaken: "rc_inv_on B s \<Longrightarrow> B \<subseteq> C \<Longrightarrow> rc_inv_on C s"
  unfolding rc_inv_on_def by blast

lemma rc_inv_release:
  assumes "rc_inv_on B s"
  shows "rc_inv_on (B - {t}) (release t s)"
  using assms unfolding rc_inv_on_def release_facts
  by (auto simp: release_def split: if_splits) (auto simp: led_groups_def split: option.splits)

section \<open>Steps that start or end a wait\<close>

lemma next_wait_simps:
  "w_rest x = [] \<Longrightarrow> next_wait x f s = []"
  "w_rest x = (cb, v) # rest \<Longrightarrow> next_wait x f s = [\<lparr>w_filter = f\<lparr>decoder_callbacks_m := cb,
     response_wrapper_rc_ptr_m := weak_lock v s\<rparr>, w_rest = rest, w_attends = w_attends x\<rparr>]"
  by (simp_all only: next_wait_def list.case prod.case)

lemma attending_append [simp]: "attending (xs @ ys) = attending xs \<union> attending ys"
  by (auto simp: attending_def)

lemma attending_Cons [simp]:
  "attending (x # xs) = (if w_attends x then {this_thread_id_m (w_filter x)} else {}) \<union> attending xs"
  "attending [] = {}"
  by (auto simp: attending_def)

lemma rest_cases:
  obtains "w_rest x = []" | cb v rest where "w_rest x = (cb, v) # rest"
  by (metis list.exhaust surj_pair)

lemma inv_wait_ends:
  assumes I: "sys_inv S" and w: "waits_s S = xs @ x # ys"
    and s: "same_groups (shared_s S) s'" "cache_m s' = cache_m (shared_s S)" and f: "same_request (w_filter x) f'"
  shows "sys_inv (S\<lparr>shared_s := end_wait x f' s', waits_s := xs @ next_wait x f' s' @ ys,
    open_s := open_s S - {#decoder_callbacks_m (w_filter x)#}\<rparr>)"
proof -
  note D = sys_invD [OF I]
  let ?t = "this_thread_id_m (w_filter x)"
  have inv: "rc_inv_on (attending (waits_s S)) s'" using same_groups_inv [OF s(1) D(1)] .
  have k: "keeps (shared_s S) (end_wait x f' s')"
    unfolding end_wait_def release_eq
    using keeps_same [OF s(1)] keeps_trans [OF keeps_same [OF s(1)] keeps_release] by presburger
  note K = keeps_ok [OF k D(1)]
  have t: "this_thread_id_m f' = ?t" using f by (simp add: same_request_def)
  have no: "x' \<in> set xs \<union> set ys \<Longrightarrow> this_thread_id_m (w_filter x') \<noteq> ?t" for x'
    using D(8) unfolding w by (force simp: image_iff)
  have wx: "wait_ok (shared_s S) x" using D(7) w by simp
  have ex: "expired_m s' = []" "length (wrappers_m s') = length (wrappers_m (shared_s S))"
    using s(1) D(3) by (simp_all add: same_groups_def lists_ok_def)
  have nw: "wait_ok (end_wait x f' s') y \<and> this_thread_id_m (w_filter y) = ?t \<and> w_attends y = w_attends x \<and> w_rest x \<noteq> []"
    if y: "y \<in> set (next_wait x f' s')" for y
  proof -
    obtain cb v rest where r: "w_rest x = (cb, v) # rest"
      using y by (cases x rule: rest_cases) (simp_all add: next_wait_simps)
    with y have ye: "y = \<lparr>w_filter = f'\<lparr>decoder_callbacks_m := cb, response_wrapper_rc_ptr_m := weak_lock v s'\<rparr>, w_rest = rest, w_attends = w_attends x\<rparr>"
      by (simp add: next_wait_simps)
    have "end_wait x f' s' = s'" by (simp add: end_wait_def r)
    then show ?thesis
      using wx ex same_groups_maps(2) [OF s(1)] by (simp add: wait_ok_def ye r t weak_lock_def)
  qed
  have "rc_inv_on (attending (xs @ next_wait x f' s' @ ys)) (end_wait x f' s')"
  proof (cases "w_rest x = [] \<and> w_attends x")
    case True
    have "attending (xs @ ys) = attending (waits_s S) - {?t}" using no True by (auto simp: attending_def w)
    then show ?thesis using rc_inv_release [OF inv, of ?t] True
      by (simp add: end_wait_def release_eq t next_wait_simps)
  next
    case False
    have "attending (waits_s S) \<subseteq> attending (xs @ next_wait x f' s' @ ys)"
      using False t by (cases x rule: rest_cases) (auto simp: w next_wait_simps)
    then show ?thesis using attending_weaken [OF inv] False by (auto simp: end_wait_def)
  qed
  moreover have "lru_wf (cache_m (end_wait x f' s'))" using D(2) s(2) by (simp add: end_wait_def release_eq)
  moreover have "lists_ok (end_wait x f' s')" using K(3) D(3) .
  moreover have "\<forall>f \<in> set (flights_s S). flight_ok (end_wait x f' s') f" using K(1) D(4) by blast
  moreover have "\<forall>k w. group_of k (end_wait x f' s') = Some w \<longrightarrow> k \<in> request_headers_str_key_m ` set (flights_s S)"
    using k D(6) by (simp add: keeps_def)
  moreover have "\<forall>y \<in> set (xs @ next_wait x f' s' @ ys). wait_ok (end_wait x f' s') y"
    using nw K(2) D(7) by (auto simp: w)
  moreover have "distinct (map (\<lambda>x. this_thread_id_m (w_filter x)) (xs @ next_wait x f' s' @ ys))"
    using D(8) t by (cases x rule: rest_cases) (auto simp: w next_wait_simps)
  moreover have "open_s S - {#decoder_callbacks_m (w_filter x)#} = sum_list (map (held (end_wait x f' s')) (flights_s S))
      + sum_list (map parked (xs @ next_wait x f' s' @ ys))"
  proof -
    have m: "map (held (end_wait x f' s')) (flights_s S) = map (held (shared_s S)) (flights_s S)" using K(4) D(4) by simp
    have "sum_list (map parked (next_wait x f' s')) = mset (map fst (w_rest x))"
      by (cases x rule: rest_cases) (simp_all add: next_wait_simps parked_def)
    then show ?thesis unfolding D(9) w m by (simp add: parked_def)
  qed
  ultimately show ?thesis using D(5) by (simp add: sys_inv_def)
qed

lemma inv_wait_starts:
  assumes I: "sys_inv S" and t: "\<not> thread_waits (this_thread_id_m (w_filter x)) S" and x: "wait_ok (shared_s S) x" "\<not> w_attends x"
  shows "sys_inv (S\<lparr>waits_s := x # waits_s S, open_s := open_s S + parked x\<rparr>)"
proof -
  note D = sys_invD [OF I]
  have "attending (x # waits_s S) = attending (waits_s S)" using x(2) by (auto simp: attending_def)
  then show ?thesis using D t x by (auto simp: sys_inv_def thread_waits_def)
qed

section \<open>Arriving requests\<close>

lemma inv_new_filter:
  assumes I: "sys_inv S" and new: "HttpCacheRCFilter cb config (shared_s S) = (f, s0)"
  shows "sys_inv (S\<lparr>shared_s := s0\<rparr>)" "fresh f" "decoder_callbacks_m f = cb" "delivered_m s0 = delivered_m (shared_s S)"
proof -
  show "delivered_m s0 = delivered_m (shared_s S)"
    using new by (auto simp: HttpCacheRCFilter_def Let_def split: prod.splits)
  note n = new_filter_frame [OF sys_invD(2) [OF I] new]
  show "sys_inv (S\<lparr>shared_s := s0\<rparr>)"
    using inv_keeps [OF I keeps_same same_groups_inv [OF _ sys_invD(1) [OF I]]] n by blast
qed (use new_filter_frame [OF sys_invD(2) [OF I] new] in blast)+

lemma inv_hit:
  assumes I: "sys_inv S" and t: "\<not> thread_waits t S" and env: "begin_ok env" and f: "fresh f"
    and c: "classify t (cache_key h) (shared_s S) = INITIAL_LEADER"
    and r: "decodeHeaders api env t h f (shared_s S) = Some (Inr (StopIteration, f', s'))"
  shows "sys_inv (S\<lparr>shared_s := s'\<rparr>)" "serves [decoder_callbacks_m f] (shared_s S) s'"
proof -
  note h = hit_result [OF sys_invD(1) [OF I] not_attending [OF t] env f sys_invD(2) [OF I] c r]
  have "keeps (shared_s S) s'"
    unfolding keeps_def using h by (auto simp: less_Suc_eq)
  with inv_keeps [OF I] h show "sys_inv (S\<lparr>shared_s := s'\<rparr>)" "serves [decoder_callbacks_m f] (shared_s S) s'" by blast+
qed

lemma inv_miss:
  assumes I: "sys_inv S" and t: "\<not> thread_waits t S" and env: "begin_ok env" and f: "fresh f"
    and r: "decodeHeaders api env t h f (shared_s S) = Some (Inr (Continue, f', s'))"
  shows "sys_inv (S\<lparr>shared_s := s', flights_s := f' # flights_s S\<rparr>)"
proof -
  note D = sys_invD [OF I]
  let ?s = "shared_s S" and ?w = "length (wrappers_m (shared_s S))"
  note m = miss_result [OF D(1) not_attending [OF t] env f D(2) r]
  have g: "group_of k s' = (if k = cache_key h then Some ?w else group_of k ?s)" for k using m by blast
  have l: "led_groups t' s' = (if t' = t then led_groups t ?s @ [(cache_key h, ?w)] else led_groups t' ?s)" for t' using m by blast
  have wr: "wrappers_m s' = wrappers_m ?s @ [new_wrapper t]" and ex: "expired_m s' = expired_m ?s" using m by blast+
  have none: "group_of (cache_key h) ?s = None" using m by blast
  have f': "response_wrapper_rc_ptr_m f' = Some ?w" "this_thread_id_m f' = t" "request_headers_str_key_m f' = cache_key h"
    "\<not> entry_cached_m f'" "is_first_headers_m f'" using m by blast+
  have old: "request_headers_str_key_m x \<noteq> cache_key h \<and> flight_ok s' x \<and> held s' x = held ?s x" if "x \<in> set (flights_s S)" for x
  proof -
    from D(4) [OF that] obtain v where v: "response_wrapper_rc_ptr_m x = Some v" "group_of (request_headers_str_key_m x) ?s = Some v"
      by (auto simp: flight_ok_def)
    have "v < ?w" using rc_invD(1) [OF D(1) v(2)] by simp
    moreover have "request_headers_str_key_m x \<noteq> cache_key h" using v(2) none by auto
    ultimately show ?thesis using D(4) [OF that] v
      by (simp add: flight_ok_def g announced_if_def wr nth_append held_def)
  qed
  have "wait_ok s' x" if "x \<in> set (waits_s S)" for x
  proof -
    have "this_thread_id_m (w_filter x) \<noteq> t" using that t by (auto simp: thread_waits_def)
    then show ?thesis using D(7) [OF that] unfolding wait_ok_def l wr by (auto intro: less_SucI)
  qed
  moreover have "lists_ok s'"
    unfolding lists_ok_def
  proof (intro conjI allI impI)
    show "expired_m s' = []" using D(3) by (simp add: ex lists_ok_def)
    fix v assume v: "v < length (wrappers_m s')"
    show "\<forall>(cb, w) \<in> set (other_rc_groups_m (wrappers_m s' ! v)). w < length (wrappers_m s')"
    proof (cases "v < ?w")
      case True
      with D(3) have "\<forall>(cb, w) \<in> set (other_rc_groups_m (wrappers_m ?s ! v)). w < ?w" by (simp add: lists_ok_def)
      then show ?thesis using True by (auto simp: wr nth_append intro: less_SucI)
    qed (use v in \<open>simp add: wr nth_append\<close>)
  qed
  moreover have "held s' f' = {#}" by (simp add: held_def f' wr)
  moreover have "sum_list (map (held s') (flights_s S)) = sum_list (map (held ?s) (flights_s S))"
    using old by (intro arg_cong [where f = sum_list] map_cong) auto
  moreover have "flight_ok s' f'" by (simp add: flight_ok_def f' g wr announced_if_def)
  moreover have "\<forall>k w. group_of k s' = Some w \<longrightarrow> k \<in> request_headers_str_key_m ` set (f' # flights_s S)"
    using D(6) f'(3) by (auto simp: g)
  moreover have "distinct (map request_headers_str_key_m (f' # flights_s S))"
  proof -
    have "cache_key h \<notin> request_headers_str_key_m ` set (flights_s S)" by (metis old imageE)
    then show ?thesis using D(5) f'(3) by simp
  qed
  moreover have "rc_inv_on (attending (waits_s S)) s'" "lru_wf (cache_m s')" using m by blast+
  ultimately show ?thesis
    using old D(8,9) unfolding sys_inv_def by simp
qed

text \<open>An update of the lists of one group adds to what its flight holds.\<close>

abbreviation kept :: "response_wrapper \<Rightarrow> callback_id multiset" where
  "kept r \<equiv> mset (waiting_decoder_callbacks_m r) + mset (map fst (other_rc_groups_m r))"

lemma sum_held_upd:
  assumes inv: "rc_inv_on B s" and ok: "\<And>f. f \<in> set fs \<Longrightarrow> flight_ok s f" and dist: "distinct (map request_headers_str_key_m fs)"
    and k: "group_of k s = Some v" "k \<in> request_headers_str_key_m ` set fs"
    and same: "\<And>k' u. k' \<in> request_headers_str_key_m ` set fs \<Longrightarrow> group_of k' s = Some u \<Longrightarrow> u < length (wrappers_m s) \<Longrightarrow>
      u \<noteq> v \<Longrightarrow> kept (wrappers_m s' ! u) = kept (wrappers_m s ! u)"
    and more: "kept (wrappers_m s' ! v) = kept (wrappers_m s ! v) + M"
  shows "sum_list (map (held s') fs) = sum_list (map (held s) fs) + M"
proof -
  have ptr: "\<exists>u < length (wrappers_m s). response_wrapper_rc_ptr_m f = Some u \<and> group_of (request_headers_str_key_m f) s = Some u"
    if "f \<in> set fs" for f
    using ok [OF that] rc_invD(1) [OF inv] by (auto simp: flight_ok_def)
  from k(2) obtain f where f: "f \<in> set fs" "request_headers_str_key_m f = k" by auto
  then obtain as bs where fs: "fs = as @ f # bs" by (metis split_list)
  have "held s' f = held s f + M" using ptr [OF f(1)] f(2) k(1) more by (auto simp: held_def)
  moreover have "held s' g = held s g" if g: "g \<in> set as \<union> set bs" for g
  proof -
    have g': "g \<in> set fs" using g fs by auto
    have "request_headers_str_key_m g \<noteq> k" using dist g f(2) by (force simp: fs image_iff)
    from ptr [OF g'] obtain u where u: "u < length (wrappers_m s)" "response_wrapper_rc_ptr_m g = Some u"
      "group_of (request_headers_str_key_m g) s = Some u" by blast
    moreover have "u \<noteq> v" using rc_invD(5) [OF inv u(3), of k] k(1) \<open>request_headers_str_key_m g \<noteq> k\<close> by auto
    ultimately show ?thesis using same [OF imageI [OF g'] u(3) u(1)] by (simp add: held_def)
  qed
  moreover from this have "sum_list (map (held s') as) = sum_list (map (held s) as)"
    "sum_list (map (held s') bs) = sum_list (map (held s) bs)"
    by (intro arg_cong [where f = sum_list] map_cong; simp)+
  ultimately show ?thesis by (simp add: fs ac_simps)
qed

text \<open>A request joins a list of a group.\<close>

lemma inv_join_list:
  assumes I: "sys_inv S" and k: "group_of k (shared_s S) = Some v"
    and s': "s' = upd_wrapper v g (shared_s S)"
    and g: "\<And>r. leader_thread_id_m (g r) = leader_thread_id_m r"
      "\<And>r. shared_response_entry_m (g r) = shared_response_entry_m r"
      "\<And>r. kept (g r) = kept r + M"
      "\<And>r u. u \<in> snd ` set (other_rc_groups_m (g r)) \<Longrightarrow>
        u \<in> snd ` set (other_rc_groups_m r) \<or> u < length (wrappers_m (shared_s S))"
  shows "sys_inv (S\<lparr>shared_s := s', open_s := open_s S + M\<rparr>)"
proof -
  note D = sys_invD [OF I]
  let ?s = "shared_s S"
  have v: "v < length (wrappers_m ?s)" using rc_invD(1) [OF D(1) k] by simp
  have len: "length (wrappers_m s') = length (wrappers_m ?s)" "expired_m s' = expired_m ?s" "cache_m s' = cache_m ?s"
    by (simp_all add: s')
  have nth: "wrappers_m s' ! u = (if u = v then g (wrappers_m ?s ! u) else wrappers_m ?s ! u)"
    if "u < length (wrappers_m ?s)" for u
    using that by (simp add: s' upd_wrapper_def)
  have gr: "group_of k' s' = group_of k' ?s" "led_groups t s' = led_groups t ?s" for k' t by (simp_all add: s')
  have "rc_inv_on (attending (waits_s S)) s'" unfolding s' by (rule rc_inv_upd_wrapper [OF D(1) g(1)])
  moreover have "flight_ok s' f" if f: "f \<in> set (flights_s S)" for f
  proof -
    from D(4) [OF f] obtain u where u: "response_wrapper_rc_ptr_m f = Some u" "group_of (request_headers_str_key_m f) ?s = Some u"
      by (auto simp: flight_ok_def)
    moreover from this have "u < length (wrappers_m ?s)" using rc_invD(1) [OF D(1) u(2)] by simp
    ultimately show ?thesis using D(4) [OF f] g by (auto simp: flight_ok_def announced_if_def gr nth)
  qed
  moreover have "wait_ok s' x" if "x \<in> set (waits_s S)" for x
    using D(7) [OF that] by (simp add: wait_ok_def gr len)
  moreover have "lists_ok s'"
    unfolding lists_ok_def len gr
  proof (intro conjI allI impI)
    show "expired_m ?s = []" using D(3) by (simp add: lists_ok_def)
    fix u assume u: "u < length (wrappers_m ?s)"
    have "\<forall>(cb, w) \<in> set (other_rc_groups_m (wrappers_m ?s ! u)). w < length (wrappers_m ?s)"
      using D(3) u by (simp add: lists_ok_def)
    then have o: "w < length (wrappers_m ?s)" if "w \<in> snd ` set (other_rc_groups_m (wrappers_m ?s ! u))" for w
      using that by auto
    have "w < length (wrappers_m ?s)" if w: "w \<in> snd ` set (other_rc_groups_m (wrappers_m s' ! u))" for w
    proof (cases "u = v")
      case True
      have "wrappers_m s' ! u = g (wrappers_m ?s ! u)" using nth [OF u] True by simp
      from g(4) [OF w [unfolded this]] o show ?thesis by blast
    next
      case False
      then have "wrappers_m s' ! u = wrappers_m ?s ! u" using nth [OF u] by simp
      from o [OF w [unfolded this]] show ?thesis .
    qed
    then show "\<forall>(cb, w) \<in> set (other_rc_groups_m (wrappers_m s' ! u)). w < length (wrappers_m ?s)" by fastforce
  qed
  moreover have "sum_list (map (held s') (flights_s S)) = sum_list (map (held ?s) (flights_s S)) + M"
    using sum_held_upd [OF D(1) D(4) D(5) k D(6) [OF k], of s' M] nth v g(3) by auto
  ultimately show ?thesis
    using D(2,5,6,8,9) unfolding sys_inv_def by (simp add: gr len ac_simps)
qed

lemma inv_join:
  assumes I: "sys_inv S" and t: "\<not> thread_waits t S" and env: "begin_ok env" and f: "fresh f"
    and c: "classify t (cache_key h) (shared_s S) = LEADER \<or> classify t (cache_key h) (shared_s S) = OTHER_GROUP_LEADER"
    and r: "decodeHeaders api env t h f (shared_s S) = Some (Inr (st, f', s'))"
  shows "sys_inv (S\<lparr>shared_s := s', open_s := add_mset (decoder_callbacks_m f) (open_s S)\<rparr>)"
proof -
  note D = sys_invD [OF I]
  note j = join_status [OF D(1) not_attending [OF t] env f r]
  from c have "\<exists>k v g. group_of k (shared_s S) = Some v \<and> s' = upd_wrapper v g (shared_s S)
    \<and> (\<forall>r. leader_thread_id_m (g r) = leader_thread_id_m r) \<and> (\<forall>r. shared_response_entry_m (g r) = shared_response_entry_m r)
    \<and> (\<forall>r. kept (g r) = kept r + {#decoder_callbacks_m f#})
    \<and> (\<forall>r u. u \<in> snd ` set (other_rc_groups_m (g r)) \<longrightarrow>
        u \<in> snd ` set (other_rc_groups_m r) \<or> u < length (wrappers_m (shared_s S)))"
  proof
    assume "classify t (cache_key h) (shared_s S) = LEADER"
    from j(1) [OF this] obtain w where "group_of (cache_key h) (shared_s S) = Some w"
      "s' = upd_wrapper w (\<lambda>r. r\<lparr>waiting_decoder_callbacks_m := waiting_decoder_callbacks_m r @ [decoder_callbacks_m f]\<rparr>) (shared_s S)"
      by blast
    then show ?thesis by (intro exI conjI) (assumption | simp)+
  next
    assume "classify t (cache_key h) (shared_s S) = OTHER_GROUP_LEADER"
    from j(2) [OF this] obtain w k v where w: "group_of (cache_key h) (shared_s S) = Some w"
      "(k, v) \<in> set (led_groups t (shared_s S))"
      "s' = upd_wrapper v (\<lambda>r. r\<lparr>other_rc_groups_m := other_rc_groups_m r @ [(decoder_callbacks_m f, w)]\<rparr>) (shared_s S)"
      by blast
    from rc_invD(2) [OF D(1) w(2)] have "group_of k (shared_s S) = Some v" by simp
    then show ?thesis using w(3) rc_invD(1) [OF D(1) w(1)] by (intro exI conjI) (assumption | simp)+
  qed
  then obtain k v g where "group_of k (shared_s S) = Some v" "s' = upd_wrapper v g (shared_s S)"
    "\<And>r. leader_thread_id_m (g r) = leader_thread_id_m r" "\<And>r. shared_response_entry_m (g r) = shared_response_entry_m r"
    "\<And>r. kept (g r) = kept r + {#decoder_callbacks_m f#}"
    "\<And>r u. u \<in> snd ` set (other_rc_groups_m (g r)) \<Longrightarrow>
        u \<in> snd ` set (other_rc_groups_m r) \<or> u < length (wrappers_m (shared_s S))"
    by metis
  from inv_join_list [OF I this] show ?thesis by simp
qed

lemma inv_wait:
  assumes I: "sys_inv S" and t: "\<not> thread_waits t S" and env: "begin_ok env" and f: "fresh f"
    and r: "getThreadStatus env (asking h t f) (shared_s S) = Some (Inr (WAITING, f', s'))"
  shows "sys_inv (S\<lparr>shared_s := s', waits_s := \<lparr>w_filter = f', w_rest = [], w_attends = False\<rparr> # waits_s S,
      open_s := add_mset (decoder_callbacks_m f) (open_s S)\<rparr>)"
proof -
  note D = sys_invD [OF I]
  let ?x = "\<lparr>w_filter = f', w_rest = [], w_attends = False\<rparr> :: 'a waiting_thread"
  from wait_status [OF D(1) not_attending [OF t] env f r] obtain w where
    w: "s' = shared_s S" "f' = (asking h t f)\<lparr>response_wrapper_rc_ptr_m := Some w\<rparr>"
      "group_of (cache_key h) (shared_s S) = Some w" "led_groups t (shared_s S) = []" by blast
  have f': "this_thread_id_m f' = t" "decoder_callbacks_m f' = decoder_callbacks_m f" "response_wrapper_rc_ptr_m f' = Some w"
    using asking_fields [OF f, where h = h and t = t] by (simp_all add: w(2))
  have "wait_ok (shared_s S) ?x"
    using w(4) rc_invD(1) [OF D(1) w(3)] by (simp add: wait_ok_def f')
  with inv_wait_starts [OF I, of ?x] t show ?thesis by (simp add: f' w(1) parked_def)
qed

section \<open>Responses\<close>

lemma inv_respond:
  assumes I: "sys_inv S" and fl: "flights_s S = xs @ f # ys" and c: "c \<noteq> UpComplete"
    and r: "upstream_call api env c (f, shared_s S) = Some (Inr (f', s'))"
  shows "sys_inv (S\<lparr>shared_s := s', flights_s := xs @ f' # ys\<rparr>)"
proof -
  note D = sys_invD [OF I]
  have "announced_if f (shared_s S)" using D(4) [of f] fl by (simp add: flight_ok_def)
  note u = upstream_frame [OF r c D(2) this]
  then have "sys_inv (S\<lparr>shared_s := s'\<rparr>)"
    using inv_keeps [OF I keeps_same same_groups_inv [OF _ D(1)]] by blast
  from inv_replace [OF this, of xs f ys f'] u fl show ?thesis by simp
qed

lemma rc_inv_unrelease:
  assumes "rc_inv_on B (release t s)"
  shows "rc_inv_on (insert t B) s"
proof -
  have "leader_threads_for_rc_m s t' \<noteq> Some []" if "t' \<notin> insert t B" for t'
    using rc_invD(4) [OF assms, of t'] release_facts(5) [of t' t s] that by simp
  then show ?thesis using assms unfolding rc_inv_on_def release_facts by blast
qed

text \<open>The leader of a group leaves it; \<open>ws\<close> are the waits that start with this step.\<close>

lemma inv_leave:
  assumes I: "sys_inv S" and fl: "flights_s S = xs @ f # ys" and t: "\<not> thread_waits (this_thread_id_m f) S"
    and w: "response_wrapper_rc_ptr_m f = Some w"
    and inv: "rc_inv_on (attending (ws @ waits_s S)) s'"
    and g: "\<And>k. group_of k s' = (if k = request_headers_str_key_m f then None else group_of k (shared_s S))"
    and l: "\<And>t'. t' \<noteq> this_thread_id_m f \<Longrightarrow> led_groups t' s' = led_groups t' (shared_s S)"
    and len: "length (wrappers_m s') = length (wrappers_m (shared_s S))" "expired_m s' = expired_m (shared_s S)"
      "cache_m s' = cache_m (shared_s S)"
    and same: "\<And>u. leader_thread_id_m (wrappers_m s' ! u) = leader_thread_id_m (wrappers_m (shared_s S) ! u)"
      "\<And>u. shared_response_entry_m (wrappers_m s' ! u) = shared_response_entry_m (wrappers_m (shared_s S) ! u)"
      "\<And>u cb v. u < length (wrappers_m (shared_s S)) \<Longrightarrow> (cb, v) \<in> set (other_rc_groups_m (wrappers_m s' ! u)) \<Longrightarrow>
         v < length (wrappers_m (shared_s S))"
    and ws: "\<And>x. x \<in> set ws \<Longrightarrow> wait_ok s' x" "distinct (map (\<lambda>x. this_thread_id_m (w_filter x)) (ws @ waits_s S))"
    and sum: "open_s S = held (shared_s S) f + sum_list (map (held (shared_s S)) (xs @ ys))
      + sum_list (map parked (waits_s S)) \<Longrightarrow>
      open' = sum_list (map (held s') (xs @ ys)) + sum_list (map parked (ws @ waits_s S))"
  shows "sys_inv (S\<lparr>shared_s := s', flights_s := xs @ ys, waits_s := ws @ waits_s S, open_s := open'\<rparr>)"
proof -
  note D = sys_invD [OF I]
  let ?s = "shared_s S" and ?key = "request_headers_str_key_m f"
  have other: "request_headers_str_key_m x \<noteq> ?key \<and> x \<in> set (flights_s S)" if "x \<in> set (xs @ ys)" for x
    using that D(5) unfolding fl by (force simp: image_iff)
  have f: "flight_ok ?s f" using D(4) fl by simp
  have "flight_ok s' x" if "x \<in> set (xs @ ys)" for x
    using other [OF that] D(4) [of x] by (simp add: flight_ok_def announced_if_def g same)
  moreover have "wait_ok s' x" if x: "x \<in> set (waits_s S)" for x
  proof -
    have "this_thread_id_m (w_filter x) \<noteq> this_thread_id_m f" using x t by (auto simp: thread_waits_def)
    then show ?thesis using D(7) [OF x] by (simp add: wait_ok_def l len)
  qed
  moreover have "lists_ok s'"
    unfolding lists_ok_def len
  proof (intro conjI allI impI)
    show "expired_m ?s = []" using D(3) by (simp add: lists_ok_def)
    fix u assume u: "u < length (wrappers_m ?s)"
    show "\<forall>(cb, v) \<in> set (other_rc_groups_m (wrappers_m s' ! u)). v < length (wrappers_m ?s)" using same(3) [OF u] by blast
  qed
  moreover have "\<forall>k w. group_of k s' = Some w \<longrightarrow> k \<in> request_headers_str_key_m ` set (xs @ ys)"
    using D(6) by (auto simp: g fl)
  moreover have "distinct (map request_headers_str_key_m (xs @ ys))" using D(5) by (simp add: fl)
  moreover have "open' = sum_list (map (held s') (xs @ ys)) + sum_list (map parked (ws @ waits_s S))"
    using sum D(9) by (simp add: fl ac_simps)
  ultimately show ?thesis
    using inv D(2) ws unfolding sys_inv_def by (auto simp: len)
qed

lemma held_wrappers: "wrappers_m s' = wrappers_m s \<Longrightarrow> held s' = held s"
  by (simp add: held_def fun_eq_iff split: option.split)

lemma leave_frame_all:
  "wrappers_m (leave_group t key s) = wrappers_m s" "wrappers_m (release t (leave_group t key s)) = wrappers_m s"
  "expired_m (leave_group t key s) = expired_m s" "expired_m (release t (leave_group t key s)) = expired_m s"
  "cache_m (leave_group t key s) = cache_m s" "cache_m (release t (leave_group t key s)) = cache_m s"
  by (simp_all add: release_def leave_group_def set_led_groups_def rc_assign_def)

lemma lists_okD:
  "lists_ok s \<Longrightarrow> u < length (wrappers_m s) \<Longrightarrow> (cb, v) \<in> set (other_rc_groups_m (wrappers_m s ! u)) \<Longrightarrow> v < length (wrappers_m s)"
  by (fastforce simp: lists_ok_def)

lemma hand_over_wrappers:
  assumes "v < length (wrappers_m s)" and "w < length (wrappers_m s)" and "v \<noteq> w"
  shows "leader_thread_id_m (wrappers_m (hand_over v w t key s) ! u) = leader_thread_id_m (wrappers_m s ! u)"
    "shared_response_entry_m (wrappers_m (hand_over v w t key s) ! u) = shared_response_entry_m (wrappers_m s ! u)"
    "u \<noteq> v \<Longrightarrow> u \<noteq> w \<Longrightarrow> wrappers_m (hand_over v w t key s) ! u = wrappers_m s ! u"
    "other_rc_groups_m (wrappers_m (hand_over v w t key s) ! w) = []"
    "kept (wrappers_m (hand_over v w t key s) ! v) = kept (wrappers_m s ! v) + mset (map fst (other_rc_groups_m (wrappers_m s ! w)))"
    "other_rc_groups_m (wrappers_m (hand_over v w t key s) ! v) = other_rc_groups_m (wrappers_m s ! v) @ other_rc_groups_m (wrappers_m s ! w)"
    "cache_m (hand_over v w t key s) = cache_m s"
  using assms by (auto simp: hand_over_def upd_wrapper_def leave_frame_all nth_list_update)

lemma inv_finish:
  assumes I: "sys_inv S" and fl: "flights_s S = xs @ f # ys" and t: "\<not> thread_waits (this_thread_id_m f) S" and env: "begin_ok env"
    and w: "response_wrapper_rc_ptr_m f = Some w"
    and more: "other_rc_groups_m (wrappers_m (shared_s S) ! w) = []
      \<or> AList.delete (request_headers_str_key_m f) (led_groups (this_thread_id_m f) (shared_s S)) \<noteq> []"
    and r: "encodeComplete api env f (shared_s S) = Some (Inr (f', s'))"
  shows "sys_inv (S\<lparr>shared_s := s', flights_s := xs @ ys,
      open_s := open_s S - mset (waiting_decoder_callbacks_m (wrappers_m (shared_s S) ! w))\<rparr>)" (is "sys_inv ?S'")
proof -
  note D = sys_invD [OF I]
  let ?s = "shared_s S" and ?key = "request_headers_str_key_m f" and ?t = "this_thread_id_m f"
  let ?open = "open_s S - mset (waiting_decoder_callbacks_m (wrappers_m ?s ! w))"
  have f: "group_of ?key ?s = Some w" "leader_thread_id_m (wrappers_m ?s ! w) = ?t" "\<not> entry_cached_m f"
    using D(4) [of f] w by (auto simp: fl flight_ok_def)
  have wl: "w < length (wrappers_m ?s)" using rc_invD(1) [OF D(1) f(1)] by simp
  have ht: "held ?s f = kept (wrappers_m ?s ! w)" by (simp add: held_def w)
  note fin = finish_result [OF D(1) env w f(1,3) more r]
  have step: "sys_inv ?S'" if "sys_inv (S\<lparr>shared_s := s1, flights_s := xs @ ys, open_s := ?open\<rparr>)" "same_groups s1 s'"
    "cache_m s1 = cache_m ?s" for s1
  proof -
    have eq: "?S' = S\<lparr>shared_s := s1, flights_s := xs @ ys, open_s := ?open\<rparr>\<lparr>shared_s := s'\<rparr>" by (cases S) simp
    show ?thesis
      unfolding eq
      by (rule inv_keeps [OF that(1)])
        (use keeps_same [OF that(2)] same_groups_inv [OF that(2)] sys_invD(1,2) [OF that(1)] that(3) fin in simp_all)
  qed
  show ?thesis
  proof (cases "other_rc_groups_m (wrappers_m ?s ! w) = []")
    case True
    let ?s1 = "release ?t (leave_group ?t ?key ?s)"
    have "sys_inv (S\<lparr>shared_s := ?s1, flights_s := xs @ ys, waits_s := [] @ waits_s S, open_s := ?open\<rparr>)"
    proof (rule inv_leave [OF I fl t w])
      show "rc_inv_on (attending ([] @ waits_s S)) ?s1" using rc_inv_leave [OF D(1) f(1,2)] by simp
    qed (use D(8) lists_okD [OF D(3)] True in \<open>auto simp: leave_frame_all leave_maps held_wrappers [OF leave_frame_all(2)] ht\<close>)
    with step [of ?s1] fin True show ?thesis by (simp add: leave_frame_all)
  next
    case False
    with fin obtain k v where kv: "(k, v) \<in> set (led_groups ?t ?s)" "k \<noteq> ?key" "v \<noteq> w"
      and s': "same_groups (hand_over v w ?t ?key ?s) s'" by blast
    let ?s1 = "hand_over v w ?t ?key ?s"
    have v: "group_of k ?s = Some v" "v < length (wrappers_m ?s)" using rc_invD(2) [OF D(1) kv(1)] by simp_all
    note hw = hand_over_wrappers [OF v(2) wl kv(3), where t = ?t and key = ?key]
    have other: "?key \<notin> request_headers_str_key_m ` set (xs @ ys)" using D(5) by (simp add: fl image_Un)
    have "sum_list (map (held ?s1) (xs @ ys)) = sum_list (map (held ?s) (xs @ ys)) + mset (map fst (other_rc_groups_m (wrappers_m ?s ! w)))"
    proof (rule sum_held_upd [OF D(1) _ _ v(1)])
      show "k \<in> request_headers_str_key_m ` set (xs @ ys)" using D(6) [OF v(1)] kv(2) by (auto simp: fl)
      fix k' u assume "k' \<in> request_headers_str_key_m ` set (xs @ ys)" "group_of k' ?s = Some u" "u \<noteq> v"
      moreover from this have "u \<noteq> w" using other rc_invD(5) [OF D(1) f(1), of k'] by auto
      ultimately show "kept (wrappers_m ?s1 ! u) = kept (wrappers_m ?s ! u)" using hw(3) by simp
    qed (use D(4,5) hw(5) in \<open>simp_all add: fl\<close>)
    then have sum: "?open = sum_list (map (held ?s1) (xs @ ys)) + sum_list (map parked ([] @ waits_s S))"
      if "open_s S = held ?s f + sum_list (map (held ?s) (xs @ ys)) + sum_list (map parked (waits_s S))"
      using that by (simp add: ht)
    have rng: "v' < length (wrappers_m ?s)"
      if "u < length (wrappers_m ?s)" "(cb, v') \<in> set (other_rc_groups_m (wrappers_m ?s1 ! u))" for u cb v'
      using that lists_okD [OF D(3)] v(2) wl hw(3,4,6) by (cases "u = v"; cases "u = w") auto
    have "sys_inv (S\<lparr>shared_s := ?s1, flights_s := xs @ ys, waits_s := [] @ waits_s S, open_s := ?open\<rparr>)"
    proof (rule inv_leave [OF I fl t w])
      show "rc_inv_on (attending ([] @ waits_s S)) ?s1" using hand_over_inv [OF D(1) f(1,2) kv(1,2)] by simp
    qed (use D(8) rng sum hw in \<open>simp_all add: hand_over_maps\<close>)
    with step [of ?s1] s' hw(7) show ?thesis by simp
  qed
qed

lemma sys_upd_again:
  "S\<lparr>shared_s := a, flights_s := b, waits_s := c, open_s := d\<rparr>\<lparr>shared_s := e\<rparr>
    = S\<lparr>shared_s := e, flights_s := b, waits_s := c, open_s := d\<rparr>"
  by (cases S) simp

lemma inv_finish_attend:
  assumes I: "sys_inv S" and fl: "flights_s S = xs @ f # ys" and t: "\<not> thread_waits (this_thread_id_m f) S"
    and w: "response_wrapper_rc_ptr_m f = Some w"
    and others: "other_rc_groups_m (wrappers_m (shared_s S) ! w) = (cb, v) # rest"
    and del: "AList.delete (request_headers_str_key_m f) (led_groups (this_thread_id_m f) (shared_s S)) = []"
    and p: "produce g f (shared_s S) = Some (Inr (f1, s1))"
    and d: "serveResponseToCurrentRCGroup api env f1 (detachCurrentRCGroup f1 s1) = Some (Inr (f2, s2))"
  shows "sys_inv (S\<lparr>shared_s := set_led_groups (this_thread_id_m f2)
         (AList.delete (request_headers_str_key_m f2) (led_groups (this_thread_id_m f2) s2)) s2,
      flights_s := xs @ ys,
      waits_s := \<lparr>w_filter = f2\<lparr>decoder_callbacks_m := cb, response_wrapper_rc_ptr_m := weak_lock v s2\<rparr>,
         w_rest = rest, w_attends = True\<rparr> # waits_s S,
      open_s := open_s S - mset (waiting_decoder_callbacks_m (wrappers_m (shared_s S) ! w))\<rparr>)"
    (is "sys_inv (S\<lparr>shared_s := ?s', flights_s := _, waits_s := ?x # _, open_s := ?open\<rparr>)")
proof -
  note D = sys_invD [OF I]
  let ?s = "shared_s S" and ?key = "request_headers_str_key_m f" and ?t = "this_thread_id_m f"
  have f: "group_of ?key ?s = Some w" "leader_thread_id_m (wrappers_m ?s ! w) = ?t" "\<not> entry_cached_m f"
    using D(4) [of f] w by (auto simp: fl flight_ok_def)
  have wl: "w < length (wrappers_m ?s)" using rc_invD(1) [OF D(1) f(1)] by simp
  note b = before_attend [OF p d]
  have f2: "this_thread_id_m f2 = ?t" "request_headers_str_key_m f2 = ?key" using b by (simp_all add: same_request_def)
  let ?s1 = "leave_group ?t ?key ?s"
  have same: "same_groups ?s1 ?s'" "cache_m ?s' = cache_m ?s"
    using b unfolding f2 same_groups_maps(2) [OF conjunct1 [OF conjunct2 [OF b]]]
    by (simp_all add: same_groups_def leave_group_def set_led_groups_def rc_assign_def led_groups_def)
  have ex: "expired_m s2 = []" using b D(3) by (simp add: same_groups_def lists_ok_def rc_assign_def)
  have x: "this_thread_id_m (w_filter ?x) = ?t" "w_attends ?x" "parked ?x = mset (map fst ((cb, v) # rest))"
    by (simp_all add: f2 parked_def)
  have led: "led_groups ?t ?s1 = []" using del by (simp add: leave_group_def)
  have "sys_inv (S\<lparr>shared_s := ?s1, flights_s := xs @ ys, waits_s := [?x] @ waits_s S, open_s := ?open\<rparr>)"
  proof (rule inv_leave [OF I fl t w])
    show "rc_inv_on (attending ([?x] @ waits_s S)) ?s1"
      using rc_inv_unrelease [OF rc_inv_leave [OF D(1) f(1,2)]] by (simp add: f2)
    show "wait_ok ?s1 y" if "y \<in> set [?x]" for y
      using that lists_okD [OF D(3) wl] led
      by (simp add: wait_ok_def x leave_frame_all weak_lock_def ex f2) (auto simp: others)
    show "distinct (map (\<lambda>x. this_thread_id_m (w_filter x)) ([?x] @ waits_s S))"
    proof -
      have "?t \<notin> (\<lambda>x. this_thread_id_m (w_filter x)) ` set (waits_s S)" using t by (force simp: thread_waits_def)
      then show ?thesis using D(8) by (simp add: f2)
    qed
    show "?open = sum_list (map (held ?s1) (xs @ ys)) + sum_list (map parked ([?x] @ waits_s S))"
      if "open_s S = held ?s f + sum_list (map (held ?s) (xs @ ys)) + sum_list (map parked (waits_s S))"
      unfolding that held_wrappers [OF leave_frame_all(1)]
      by (simp add: x(3) held_def w others)
  qed (use lists_okD [OF D(3)] in \<open>simp_all add: leave_frame_all\<close>, auto simp: leave_group_def)
  note J = this
  have "sys_inv (S\<lparr>shared_s := ?s1, flights_s := xs @ ys, waits_s := [?x] @ waits_s S, open_s := ?open\<rparr>\<lparr>shared_s := ?s'\<rparr>)"
    by (rule inv_keeps [OF J])
      (use keeps_same [OF same(1)] same_groups_inv [OF same(1)] sys_invD(1,2) [OF J] same(2) in \<open>simp_all add: leave_frame_all\<close>)
  then show ?thesis unfolding sys_upd_again by simp
qed

lemma finish_serves:
  assumes I: "sys_inv S" and fl: "flights_s S = xs @ f # ys" and env: "begin_ok env"
    and w: "response_wrapper_rc_ptr_m f = Some w"
    and more: "other_rc_groups_m (wrappers_m (shared_s S) ! w) = []
      \<or> AList.delete (request_headers_str_key_m f) (led_groups (this_thread_id_m f) (shared_s S)) \<noteq> []"
    and r: "encodeComplete api env f (shared_s S) = Some (Inr (f', s'))"
  shows "serves (waiting_decoder_callbacks_m (wrappers_m (shared_s S) ! w)) (shared_s S) s'"
proof -
  have "group_of (request_headers_str_key_m f) (shared_s S) = Some w" "\<not> entry_cached_m f"
    using sys_invD(4) [OF I, of f] w by (auto simp: fl flight_ok_def)
  from finish_result [OF sys_invD(1) [OF I] env w this more r] show ?thesis by blast
qed

lemma inv_step:
  assumes "rc_step api S S'" and I: "sys_inv S"
  shows "sys_inv S'"
  using assms(1)
proof cases
  case (miss t env cb config f s0 h f' s')
  note n = inv_new_filter [OF I miss(4)]
  have "\<not> thread_waits t (S\<lparr>shared_s := s0\<rparr>)" using miss by (simp add: thread_waits_def)
  from inv_miss [OF n(1) this miss(3) n(2), of api h f' s'] show ?thesis using miss by simp
next
  case (hit t env cb config f s0 h f' s')
  note n = inv_new_filter [OF I hit(4)]
  have "\<not> thread_waits t (S\<lparr>shared_s := s0\<rparr>)" using hit by (simp add: thread_waits_def)
  note i = inv_hit [OF n(1) this hit(3) n(2), of h api f' s']
  have "sys_inv (S\<lparr>shared_s := s'\<rparr>)" "serves [cb] (shared_s S) s'"
    using i hit n(3) serves_eq [OF n(4) refl, of "[cb]" s'] by simp_all
  moreover from this(2) have "answered (shared_s S) s' = [cb]" by (rule serves_answered)
  ultimately show ?thesis using hit(1) by simp
next
  case (join t env cb config f s0 h f' s')
  note n = inv_new_filter [OF I join(4)]
  have "\<not> thread_waits t (S\<lparr>shared_s := s0\<rparr>)" using join by (simp add: thread_waits_def)
  from inv_join [OF n(1) this join(3) n(2), of h api StopIteration f' s'] show ?thesis using join n(3) by simp
next
  case (wait t env cb config f s0 h f' s')
  note n = inv_new_filter [OF I wait(4)]
  have "\<not> thread_waits t (S\<lparr>shared_s := s0\<rparr>)" using wait by (simp add: thread_waits_def)
  from inv_wait [OF n(1) this wait(3) n(2), of h f' s'] show ?thesis using wait n(3) by simp
next
  case (respond xs f ys c env f' s')
  from inv_respond [OF I respond(2) respond(4,5)] show ?thesis using respond(1) by simp
next
  case (finish xs f ys env w f' s')
  from inv_finish [OF I finish(2-7)] show ?thesis
    using finish(1) serves_answered [OF finish_serves [OF I finish(2,4-7)]] by simp
next
  case (finish_attend xs f ys w cb v rest f1 s1 env f2 s2)
  from inv_finish_attend [OF I finish_attend(2-8)] show ?thesis
    using finish_attend(1) serves_answered [OF before_attend_serves [OF finish_attend(7,8,4)]] by simp
next
  case (wake xs x ys w a env f' s')
  have "answered (shared_s S) s' = [decoder_callbacks_m (w_filter x)]"
    using serve_entry_frame [OF wake(5)] serves_answered by blast
  with serve_entry_frame [OF wake(5)] inv_wait_ends [OF I wake(2), of s' f'] show ?thesis using wake(1) by simp
next
  case (timeout xs x ys w)
  from inv_wait_ends [OF I timeout(2), of "shared_s S" "w_filter x"] show ?thesis using timeout(1) by simp
qed

lemma reachable_inv:
  assumes "rc_steps api rc_start S"
  shows "sys_inv S"
  using assms by (induction rule: rtranclp_induct) (auto intro: sys_inv_start inv_step)

end
