(* ===== verification/Waiting_Threads.thy ===== *)
theory Waiting_Threads
  imports Coalescing_Invariant
begin

text \<open>
  What the invariant of the coalescing system means for threads and requests: no thread waits for
  one that waits itself, no stopped request is lost, every group has one response in flight, and a
  request is never turned into a fault, whatever happened before it.
\<close>

section \<open>Consequences of the invariant\<close>

lemma leading_not_waiting:
  assumes I: "sys_inv S" and g: "(k, w) \<in> set (led_groups t (shared_s S))"
  shows "\<not> thread_waits t S"
proof
  assume "thread_waits t S"
  then obtain x where "x \<in> set (waits_s S)" "this_thread_id_m (w_filter x) = t" by (auto simp: thread_waits_def)
  with sys_invD(7) [OF I this(1)] have "led_groups t (shared_s S) = []" by (simp add: wait_ok_def)
  with g show False by simp
qed

lemma flight_of_group:
  assumes I: "sys_inv S" and k: "group_of k (shared_s S) = Some w"
  shows "\<exists>f \<in> set (flights_s S). request_headers_str_key_m f = k \<and> response_wrapper_rc_ptr_m f = Some w
    \<and> leader_thread_id_m (wrappers_m (shared_s S) ! w) = this_thread_id_m f \<and> \<not> thread_waits (this_thread_id_m f) S
    \<and> announced_if f (shared_s S)"
proof -
  from sys_invD(6) [OF I k] obtain f where f: "f \<in> set (flights_s S)" "request_headers_str_key_m f = k" by auto
  with sys_invD(4) [OF I f(1)] k have w: "response_wrapper_rc_ptr_m f = Some w"
    "leader_thread_id_m (wrappers_m (shared_s S) ! w) = this_thread_id_m f" "announced_if f (shared_s S)"
    by (auto simp: flight_ok_def)
  have "(k, w) \<in> set (led_groups (this_thread_id_m f) (shared_s S))"
    using rc_invD(1) [OF sys_invD(1) [OF I] k] w(2) by simp
  from leading_not_waiting [OF I this] f w show ?thesis by blast
qed

lemma flight_unique:
  assumes I: "sys_inv S" and "f \<in> set (flights_s S)" "g \<in> set (flights_s S)" "request_headers_str_key_m f = request_headers_str_key_m g"
  shows "f = g"
  using sys_invD(5) [OF I] assms(2-4) by (metis distinct_map inj_onD)

section \<open>A system with a waiting thread\<close>

text \<open>A request misses the cache on thread 5; another one with the same key waits on thread 6.\<close>

lemma demo_steps:
  "\<exists>S x. rc_steps (api :: 'h envoy_api) rc_start S \<and> waits_s S = [x] \<and> decoder_callbacks_m (w_filter x) = 1
    \<and> this_thread_id_m (w_filter x) = 6 \<and> response_wrapper_rc_ptr_m (w_filter x) = Some 0 \<and> w_rest x = []
    \<and> group_of (cache_key demo_request) (shared_s S) = Some 0 \<and> shared_response_entry_m (wrappers_m (shared_s S) ! 0) = None
    \<and> open_s S = {#1#} \<and> length (flights_s S) = 1
    \<and> (\<exists>f. flights_s S = [f] \<and> storing api [] 1 0 f (shared_s S) \<and> leads f 0 (shared_s S) \<and> is_first_headers_m f
         \<and> wrappers_m (shared_s S) = [new_wrapper 5])"
proof -
  let ?c = "\<lparr>ring_buffer_capacity_cfg = 1, cache_capacity_cfg = 2\<rparr>"
  obtain f s0 where n: "HttpCacheRCFilter 0 ?c (initial_shared :: 'h shared) = (f, s0)" by (metis surj_pair)
  note nf = new_filter [OF calm_initial n]
  have g0: "group_of (cache_key demo_request) s0 = None" "map_of (lru_entries (cache_m s0)) (cache_key demo_request) = None"
    using nf by (simp_all add: initial_shared_def group_of_def lru_entries_def new_HTTPLRURAMCache_def)
  have w0: "wrappers_m s0 = []" "entries_m s0 = []" using nf(3,8) by (simp_all add: initial_shared_def)
  from decode_miss [OF _ begin_ok_demo _ g0, of f api 5] nf w0 obtain f1 s1 where
    1: "decodeHeaders api demo_env 5 demo_request f s0 = Some (Inr (Continue, f1, s1))" "calm s1" "leads f1 0 s1"
      "wrappers_m s1 = [new_wrapper 5]" "request_headers_str_key_m f1 = cache_key demo_request" "this_thread_id_m f1 = 5"
      "storing api [] 1 0 f1 s1" "is_first_headers_m f1"
    by auto
  let ?S1 = "rc_start\<lparr>shared_s := s1, flights_s := [f1]\<rparr>"
  have "rc_step api rc_start (rc_start\<lparr>shared_s := s1, flights_s := f1 # flights_s rc_start\<rparr>)"
    by (rule rc_step.miss [OF _ begin_ok_demo _ 1(1), of _ 0 ?c]) (simp_all add: rc_start_def thread_waits_def n)
  then have st1: "rc_step api rc_start ?S1" by (simp add: rc_start_def)
  obtain g s2 where m: "HttpCacheRCFilter 1 ?c s1 = (g, s2)" by (metis surj_pair)
  note ng = new_filter [OF 1(2) m]
  have g2: "group_of (cache_key demo_request) s2 = Some 0" "leader_thread_id_m (wrappers_m s2 ! 0) = 5"
    using ng(5,8) 1(3-6) by (simp_all add: leads_def)
  have inv2: "rc_inv s2" "fresh g" "decoder_callbacks_m g = 1" using ng(1) by (simp_all add: calm_def)
  have l2: "led_groups 6 s2 = []"
    unfolding led_groups_iff [OF inv2(1)]
    using rc_invD(1) [OF inv2(1)] g2(2) ng(8) 1(4) by fastforce
  have cl: "classify 6 (cache_key demo_request) s2 = WAITING" using g2 l2 by (simp add: classify_def)
  from getThreadStatus_ok [OF inv2(1) begin_ok_demo not_in_empty, of "asking demo_request 6 g"] cl obtain w where
    "getThreadStatus demo_env (asking demo_request 6 g) s2
      = Some (Inr (WAITING, (asking demo_request 6 g)\<lparr>response_wrapper_rc_ptr_m := Some w\<rparr>, s2))"
    "group_of (cache_key demo_request) s2 = Some w"
    unfolding asking_fields [OF inv2(2)] by auto
  with g2(1) have 2: "getThreadStatus demo_env (asking demo_request 6 g) s2
      = Some (Inr (WAITING, (asking demo_request 6 g)\<lparr>response_wrapper_rc_ptr_m := Some 0\<rparr>, s2))" by simp
  let ?x = "\<lparr>w_filter = (asking demo_request 6 g)\<lparr>response_wrapper_rc_ptr_m := Some 0\<rparr>, w_rest = [], w_attends = False\<rparr>"
  have "rc_step api ?S1 (?S1\<lparr>shared_s := s2, waits_s := ?x # waits_s ?S1, open_s := add_mset 1 (open_s ?S1)\<rparr>)"
    by (rule rc_step.wait [OF _ begin_ok_demo _ 2, of _ 1 ?c]) (use m in \<open>simp_all add: rc_start_def thread_waits_def\<close>)
  with st1 have "rc_steps api rc_start (?S1\<lparr>shared_s := s2, waits_s := ?x # waits_s ?S1, open_s := add_mset 1 (open_s ?S1)\<rparr>)"
    by (rule rtranclp.rtrancl_into_rtrancl [OF r_into_rtranclp])
  moreover have "decoder_callbacks_m (w_filter ?x) = 1" using asking_fields(3) [OF inv2(2)] inv2(3) by simp
  moreover have "shared_response_entry_m (wrappers_m s2 ! 0) = None" using ng(8) 1(4) by simp
  moreover have "storing api [] 1 0 f1 s2" "leads f1 0 s2" "wrappers_m s2 = [new_wrapper 5]"
    using 1(3,4,7) ng(3,5,8) inv2(1) by (simp_all add: storing_def leads_def)
  ultimately show ?thesis using g2(1) asking_fields(2) [OF inv2(2)] 1(8)
    by (intro exI [of _ "?S1\<lparr>shared_s := s2, waits_s := ?x # waits_s ?S1, open_s := add_mset 1 (open_s ?S1)\<rparr>"] exI [of _ ?x])
      (simp add: rc_start_def)
qed

section \<open>Properties\<close>

text \<open>
  C4: no deadlock: in every reachable state of the filters, whatever the number of threads and
  requests, a thread that waits on the condition variable waits for a group whose entry has been
  announced; or for one whose response is in flight, with its headers still to come, on a thread
  that does not wait; or for one whose response has ended without ever being announced -- its status
  code was no number -- so that no thread is needed any more and the wait ends with its timeout. So
  threads never wait for each other.
\<close>

theorem no_deadlock:
  assumes "rc_steps api rc_start S" and "x \<in> set (waits_s S)" and "response_wrapper_rc_ptr_m (w_filter x) = Some w"
  shows "shared_response_entry_m (wrappers_m (shared_s S) ! w) \<noteq> None
    \<or> (\<exists>f \<in> set (flights_s S). response_wrapper_rc_ptr_m f = Some w \<and> is_first_headers_m f
         \<and> group_of (request_headers_str_key_m f) (shared_s S) = Some w \<and> \<not> thread_waits (this_thread_id_m f) S)
    \<or> ((\<forall>k. group_of k (shared_s S) \<noteq> Some w) \<and> (\<forall>f \<in> set (flights_s S). response_wrapper_rc_ptr_m f \<noteq> Some w))"
proof (cases "\<exists>k. group_of k (shared_s S) = Some w")
  case True
  then obtain k where k: "group_of k (shared_s S) = Some w" ..
  from flight_of_group [OF reachable_inv [OF assms(1)] k] k show ?thesis by (auto simp: announced_if_def)
next
  case False
  moreover have "response_wrapper_rc_ptr_m f \<noteq> Some w" if "f \<in> set (flights_s S)" for f
    using sys_invD(4) [OF reachable_inv [OF assms(1)] that] False by (auto simp: flight_ok_def)
  ultimately show ?thesis by blast
qed

theorem no_deadlock_witness:
  "\<exists>S x. rc_steps (list_api :: (bytes \<times> bytes) list envoy_api) rc_start S \<and> waits_s S = [x]
    \<and> shared_response_entry_m (wrappers_m (shared_s S) ! 0) = None
    \<and> (\<exists>f \<in> set (flights_s S). response_wrapper_rc_ptr_m f = Some 0 \<and> is_first_headers_m f \<and> \<not> thread_waits (this_thread_id_m f) S)"
proof -
  from demo_steps [of list_api] obtain S x where S: "rc_steps list_api rc_start S" "waits_s S = [x]"
    "response_wrapper_rc_ptr_m (w_filter x) = Some 0" "shared_response_entry_m (wrappers_m (shared_s S) ! 0) = None"
    "group_of (cache_key demo_request) (shared_s S) = Some 0" by blast
  have "\<exists>f \<in> set (flights_s S). response_wrapper_rc_ptr_m f = Some 0 \<and> is_first_headers_m f \<and> \<not> thread_waits (this_thread_id_m f) S"
    using no_deadlock [OF S(1) _ S(3)] S(2,4,5) by auto
  with S show ?thesis by (intro exI [of _ S] exI [of _ x]) simp
qed

text \<open>
  C10: no request is lost or kept twice: in every reachable state the requests that were stopped and
  have neither been served -- a completed \<^verbatim>\<open>serveCachedResponse\<close> for their decoder callbacks is in the log
  of what was delivered -- nor given up after a timeout are, each exactly once, in the waiting list
  or the other-groups list of a group whose response is in flight, or with a waiting thread. When
  nothing is in flight and no thread waits, none is left. So a request leaves its list only when it
  is served: the leader's \<^verbatim>\<open>encodeComplete\<close> serves exactly the list of its group.
\<close>

theorem stopped_requests_kept:
  assumes "rc_steps api rc_start S"
  shows "open_s S = sum_list (map (held (shared_s S)) (flights_s S)) + sum_list (map parked (waits_s S))"
  by (rule sys_invD(9) [OF reachable_inv [OF assms]])

theorem stopped_requests_kept_witness:
  "\<exists>S x. rc_steps (list_api :: (bytes \<times> bytes) list envoy_api) rc_start S \<and> waits_s S = [x] \<and> open_s S = {#1#}
    \<and> sum_list (map (held (shared_s S)) (flights_s S)) = {#} \<and> parked x = {#1#}"
proof -
  from demo_steps [of list_api] obtain S x where S: "rc_steps list_api rc_start S" "waits_s S = [x]"
    "decoder_callbacks_m (w_filter x) = 1" "w_rest x = []" "open_s S = {#1#}" by blast
  have p: "parked x = {#1#}" by (simp add: parked_def S)
  from stopped_requests_kept [OF S(1)] have "sum_list (map (held (shared_s S)) (flights_s S)) = {#}" by (simp add: S p)
  with S p show ?thesis by blast
qed

text \<open>
  C12: in every reachable state each group of coalesced requests has exactly one response in flight:
  the one of the request that founded it, on the thread that both maps record as its leader, and no
  other group shares its wrapper.
\<close>

theorem one_flight_per_group:
  assumes "rc_steps api rc_start S" and "group_of k (shared_s S) = Some w"
  shows "\<exists>!f. f \<in> set (flights_s S) \<and> request_headers_str_key_m f = k \<and> response_wrapper_rc_ptr_m f = Some w
    \<and> this_thread_id_m f = leader_thread_id_m (wrappers_m (shared_s S) ! w)
    \<and> (k, w) \<in> set (led_groups (this_thread_id_m f) (shared_s S))
    \<and> {k'. group_of k' (shared_s S) = Some w} = {k}"
proof -
  note I = reachable_inv [OF assms(1)]
  note R = sys_invD(1) [OF I]
  from flight_of_group [OF I assms(2)] obtain f where f: "f \<in> set (flights_s S)" "request_headers_str_key_m f = k"
    "response_wrapper_rc_ptr_m f = Some w" "leader_thread_id_m (wrappers_m (shared_s S) ! w) = this_thread_id_m f" by blast
  have l: "(k, w) \<in> set (led_groups (this_thread_id_m f) (shared_s S))" using rc_invD(1) [OF R assms(2)] f(4) by simp
  have u: "{k'. group_of k' (shared_s S) = Some w} = {k}" using rc_invD(5) [OF R assms(2)] assms(2) by blast
  show ?thesis
  proof (rule ex1I [of _ f])
    show "f \<in> set (flights_s S) \<and> request_headers_str_key_m f = k \<and> response_wrapper_rc_ptr_m f = Some w
      \<and> this_thread_id_m f = leader_thread_id_m (wrappers_m (shared_s S) ! w)
      \<and> (k, w) \<in> set (led_groups (this_thread_id_m f) (shared_s S))
      \<and> {k'. group_of k' (shared_s S) = Some w} = {k}"
      using f(4) by (intro conjI f(1-3) l u) simp
  qed (use flight_unique [OF I _ f(1)] f(2) in \<open>elim conjE, simp\<close>)
qed

theorem one_flight_per_group_witness:
  "\<exists>S. rc_steps (list_api :: (bytes \<times> bytes) list envoy_api) rc_start S \<and> group_of (cache_key demo_request) (shared_s S) = Some 0
    \<and> (\<exists>!f. f \<in> set (flights_s S) \<and> request_headers_str_key_m f = cache_key demo_request \<and> response_wrapper_rc_ptr_m f = Some 0
    \<and> this_thread_id_m f = leader_thread_id_m (wrappers_m (shared_s S) ! 0)
    \<and> (cache_key demo_request, 0) \<in> set (led_groups (this_thread_id_m f) (shared_s S))
    \<and> {k'. group_of k' (shared_s S) = Some 0} = {cache_key demo_request})"
proof -
  from demo_steps [of list_api] obtain S where S: "rc_steps list_api rc_start S"
    "group_of (cache_key demo_request) (shared_s S) = Some 0" by blast
  from one_flight_per_group [OF S] S show ?thesis by (intro exI [of _ S] conjI)
qed

text \<open>
  C13: a request that arrives in any reachable state, on a thread that does not wait, gets its status
  without a fault: \<^verbatim>\<open>begin()\<close> is never called on the empty map that
  \<^verbatim>\<open>attendToOtherRCGroups\<close> leaves in \<^verbatim>\<open>leader_threads_for_rc_\<close> while its thread waits, and no expired
  or missing wrapper is dereferenced. It is told to wait only if it is on a thread that leads no
  group.
\<close>

theorem arriving_request_no_fault:
  assumes "rc_steps api rc_start S" and "\<not> thread_waits (this_thread_id_m f) S" and "begin_ok env"
  shows "\<exists>st f' s'. getThreadStatus env f (shared_s S) = Some (Inr (st, f', s'))
    \<and> rc_inv_on (attending (waits_s S)) s'
    \<and> (st = WAITING \<longrightarrow> led_groups (this_thread_id_m f) s' = [])"
proof -
  note I = reachable_inv [OF assms(1)]
  from getThreadStatus_ok [OF sys_invD(1) [OF I] assms(3) not_attending [OF assms(2)]] obtain s' w where
    "getThreadStatus env f (shared_s S) = Some (Inr (classify (this_thread_id_m f) (request_headers_str_key_m f) (shared_s S),
       f\<lparr>response_wrapper_rc_ptr_m := Some w\<rparr>, s'))" "rc_inv_on (attending (waits_s S)) s'"
    "classify (this_thread_id_m f) (request_headers_str_key_m f) (shared_s S) = WAITING \<longrightarrow> s' = shared_s S" by blast
  moreover have "led_groups t s = []" if "classify t k s = WAITING" for t k and s :: "'a shared"
    using that by (simp add: classify_def split: option.splits if_splits)
  ultimately show ?thesis by (intro exI conjI) (assumption, assumption, auto)
qed

theorem arriving_request_no_fault_witness:
  "\<exists>S. rc_steps (list_api :: (bytes \<times> bytes) list envoy_api) rc_start S \<and> open_s S = {#1#}
    \<and> (\<exists>st f' s'. getThreadStatus demo_env (keyed_filter ''k'' 8 2) (shared_s S) = Some (Inr (st, f', s')))"
proof -
  from demo_steps [of list_api] obtain S x where S: "rc_steps list_api rc_start S" "waits_s S = [x]"
    "this_thread_id_m (w_filter x) = 6" "open_s S = {#1#}" by blast
  have "\<not> thread_waits (this_thread_id_m (keyed_filter ''k'' 8 2 :: (bytes \<times> bytes) list http_filter)) S"
    by (simp add: thread_waits_def S)
  from arriving_request_no_fault [OF S(1) this begin_ok_demo] S show ?thesis by blast
qed

end
