(* ===== verification/Coalescing_Spec.thy ===== *)
theory Coalescing_Spec
  imports Waiting_Threads
begin

text \<open>
  What coalescing promises, without filters, wrappers, lists and maps: a state is which thread leads
  which key, which requests are open, and which threads are blocked. The system of filters refines
  it: every step of \<open>rc_step\<close> is a step of the specification.
\<close>

section \<open>The specification\<close>

record coal =
  groups_a :: "bytes \<Rightarrow> thread_id option"
  open_a :: "callback_id multiset"
  blocked_a :: "thread_id set"

inductive coal_step :: "coal \<Rightarrow> coal \<Rightarrow> bool" where
  lead: "t \<notin> blocked_a A \<Longrightarrow> groups_a A k = None \<Longrightarrow> coal_step A (A\<lparr>groups_a := (groups_a A)(k \<mapsto> t)\<rparr>)"
| keep: "t \<notin> blocked_a A \<Longrightarrow> t \<in> ran (groups_a A) \<Longrightarrow> coal_step A (A\<lparr>open_a := add_mset cb (open_a A)\<rparr>)"
| block: "t \<notin> blocked_a A \<Longrightarrow> t \<notin> ran (groups_a A) \<Longrightarrow> k \<in> dom (groups_a A) \<Longrightarrow>
    coal_step A (A\<lparr>open_a := add_mset cb (open_a A), blocked_a := insert t (blocked_a A)\<rparr>)"
| finish: "groups_a A k = Some t \<Longrightarrow> t \<notin> blocked_a A \<Longrightarrow> M \<subseteq># open_a A \<Longrightarrow>
    coal_step A (A\<lparr>groups_a := (groups_a A)(k := None), open_a := open_a A - M\<rparr>)"
| attend: "groups_a A k = Some t \<Longrightarrow> t \<notin> blocked_a A \<Longrightarrow> M \<subseteq># open_a A \<Longrightarrow> t \<notin> ran ((groups_a A)(k := None)) \<Longrightarrow>
    coal_step A (A\<lparr>groups_a := (groups_a A)(k := None), open_a := open_a A - M, blocked_a := insert t (blocked_a A)\<rparr>)"
| proceed: "t \<in> blocked_a A \<Longrightarrow> cb \<in># open_a A \<Longrightarrow> coal_step A (A\<lparr>open_a := open_a A - {#cb#}\<rparr>)"
| unblock: "t \<in> blocked_a A \<Longrightarrow> cb \<in># open_a A \<Longrightarrow>
    coal_step A (A\<lparr>open_a := open_a A - {#cb#}, blocked_a := blocked_a A - {t}\<rparr>)"
| stutter: "coal_step A A"

abbreviation coal_steps :: "coal \<Rightarrow> coal \<Rightarrow> bool" where
  "coal_steps \<equiv> coal_step\<^sup>*\<^sup>*"

definition coal_start :: coal where
  "coal_start = \<lparr>groups_a = (\<lambda>_. None), open_a = {#}, blocked_a = {}\<rparr>"

lemma coal_blocked_leads_nothing:
  "coal_steps coal_start A \<Longrightarrow> blocked_a A \<inter> ran (groups_a A) = {}"
proof (induction rule: rtranclp_induct)
  case (step A A')
  from step.hyps(2) step.IH show ?case by cases (auto simp: ran_def split: if_splits)
qed (simp add: coal_start_def)

section \<open>The abstraction\<close>

definition group_leader :: "'h shared \<Rightarrow> bytes \<Rightarrow> thread_id option" where
  "group_leader s k = map_option (\<lambda>w. leader_thread_id_m (wrappers_m s ! w)) (group_of k s)"

definition abs_sys :: "'h sys \<Rightarrow> coal" where
  "abs_sys S = \<lparr>groups_a = group_leader (shared_s S), open_a = open_s S,
     blocked_a = (\<lambda>x. this_thread_id_m (w_filter x)) ` set (waits_s S)\<rparr>"

lemma abs_sys_simps [simp]:
  "groups_a (abs_sys S) = group_leader (shared_s S)" "open_a (abs_sys S) = open_s S"
  "t \<in> blocked_a (abs_sys S) \<longleftrightarrow> thread_waits t S"
  by (auto simp: abs_sys_def thread_waits_def)

lemma keeps_leader:
  assumes "keeps s s'" and "rc_inv_on B s"
  shows "group_leader s' = group_leader s"
proof
  fix k
  show "group_leader s' k = group_leader s k"
    using assms(1) rc_invD(1) [OF assms(2), of k]
    by (cases "group_of k s") (auto simp: group_leader_def keeps_def)
qed

lemma leads_iff_ran:
  assumes "rc_inv_on B s"
  shows "t \<in> ran (group_leader s) \<longleftrightarrow> led_groups t s \<noteq> []"
  unfolding led_groups_iff [OF assms] by (auto simp: ran_def group_leader_def)

lemma new_filter_abs:
  assumes I: "sys_inv S" and new: "HttpCacheRCFilter cb config (shared_s S) = (f, s0)"
  shows "abs_sys (S\<lparr>shared_s := s0\<rparr>) = abs_sys S"
proof -
  have "keeps (shared_s S) s0" using keeps_same new_filter_frame [OF sys_invD(2) [OF I] new] by blast
  from keeps_leader [OF this sys_invD(1) [OF I]] show ?thesis by (simp add: abs_sys_def)
qed

lemma abs_same:
  assumes "group_leader s' = group_leader (shared_s S)"
  shows "abs_sys (S\<lparr>shared_s := s'\<rparr>) = abs_sys S"
  using assms by (simp add: abs_sys_def)

section \<open>Simulation\<close>

lemma sim_miss:
  assumes I: "sys_inv S" and t: "\<not> thread_waits t S" and env: "begin_ok env" and f: "fresh f"
    and r: "decodeHeaders api env t h f (shared_s S) = Some (Inr (Continue, f', s'))"
  shows "coal_step (abs_sys S) (abs_sys (S\<lparr>shared_s := s', flights_s := fl\<rparr>))"
proof -
  note D = sys_invD [OF I]
  note m = miss_result [OF D(1) not_attending [OF t] env f D(2) r]
  have none: "group_leader (shared_s S) (cache_key h) = None" using m by (simp add: group_leader_def)
  have "group_leader s' k = ((group_leader (shared_s S))(cache_key h \<mapsto> t)) k" for k
  proof -
    have g: "group_of k s' = (if k = cache_key h then Some (length (wrappers_m (shared_s S))) else group_of k (shared_s S))"
      "wrappers_m s' = wrappers_m (shared_s S) @ [new_wrapper t]" using m by blast+
    show ?thesis using rc_invD(1) [OF D(1), of k]
      by (cases "group_of k (shared_s S)") (auto simp: group_leader_def g nth_append)
  qed
  then have "abs_sys (S\<lparr>shared_s := s', flights_s := fl\<rparr>)
      = (abs_sys S)\<lparr>groups_a := (groups_a (abs_sys S))(cache_key h \<mapsto> t)\<rparr>"
    by (simp add: abs_sys_def fun_eq_iff)
  with coal_step.lead [of t "abs_sys S" "cache_key h"] t none show ?thesis by simp
qed

lemma sim_join:
  assumes I: "sys_inv S" and t: "\<not> thread_waits t S" and env: "begin_ok env" and f: "fresh f"
    and c: "classify t (cache_key h) (shared_s S) = LEADER \<or> classify t (cache_key h) (shared_s S) = OTHER_GROUP_LEADER"
    and r: "decodeHeaders api env t h f (shared_s S) = Some (Inr (st, f', s'))"
  shows "coal_step (abs_sys S) (abs_sys (S\<lparr>shared_s := s', open_s := add_mset cb (open_s S)\<rparr>))"
proof -
  note D = sys_invD [OF I]
  note j = join_status [OF D(1) not_attending [OF t] env f r]
  have "t \<in> ran (group_leader (shared_s S)) \<and> (\<exists>v g. s' = upd_wrapper v g (shared_s S) \<and> (\<forall>r. leader_thread_id_m (g r) = leader_thread_id_m r))"
    using c
  proof
    assume "classify t (cache_key h) (shared_s S) = LEADER"
    from j(1) [OF this] show ?thesis by (force simp: ran_def group_leader_def)
  next
    assume "classify t (cache_key h) (shared_s S) = OTHER_GROUP_LEADER"
    from j(2) [OF this] obtain w k v where v: "(k, v) \<in> set (led_groups t (shared_s S))"
      "s' = upd_wrapper v (\<lambda>r. r\<lparr>other_rc_groups_m := other_rc_groups_m r @ [(decoder_callbacks_m f, w)]\<rparr>) (shared_s S)"
      by blast
    have "t \<in> ran (group_leader (shared_s S))" using v(1) leads_iff_ran [OF D(1), of t] by auto
    moreover have "\<forall>r. leader_thread_id_m (r\<lparr>other_rc_groups_m := other_rc_groups_m r @ [(decoder_callbacks_m f, w)]\<rparr>)
        = leader_thread_id_m r" by simp
    ultimately show ?thesis using v(2) by blast
  qed
  then obtain v g where g: "t \<in> ran (group_leader (shared_s S))" "s' = upd_wrapper v g (shared_s S)"
    "\<And>r. leader_thread_id_m (g r) = leader_thread_id_m r" by blast
  have "group_leader s' k = group_leader (shared_s S) k" for k
    using rc_invD(1) [OF D(1), of k] upd_same_leader [OF g(3)]
    by (cases "group_of k (shared_s S)") (auto simp: group_leader_def g(2))
  then have "abs_sys (S\<lparr>shared_s := s', open_s := add_mset cb (open_s S)\<rparr>)
    = (abs_sys S)\<lparr>open_a := add_mset cb (open_a (abs_sys S))\<rparr>" by (simp add: abs_sys_def fun_eq_iff)
  with coal_step.keep [of t "abs_sys S" cb] t g(1) show ?thesis by simp
qed

lemma sim_wait:
  assumes I: "sys_inv S" and t: "\<not> thread_waits t S" and env: "begin_ok env" and f: "fresh f"
    and r: "getThreadStatus env (asking h t f) (shared_s S) = Some (Inr (WAITING, f', s'))"
  shows "coal_step (abs_sys S) (abs_sys (S\<lparr>shared_s := s', waits_s := \<lparr>w_filter = f', w_rest = [], w_attends = False\<rparr> # waits_s S,
      open_s := add_mset cb (open_s S)\<rparr>))"
proof -
  note D = sys_invD [OF I]
  from wait_status [OF D(1) not_attending [OF t] env f r] obtain w where
    w: "s' = shared_s S" "f' = (asking h t f)\<lparr>response_wrapper_rc_ptr_m := Some w\<rparr>"
      "group_of (cache_key h) (shared_s S) = Some w" "led_groups t (shared_s S) = []" by blast
  have "this_thread_id_m f' = t" using asking_fields(2) [OF f] by (simp add: w(2))
  then have "abs_sys (S\<lparr>shared_s := s', waits_s := \<lparr>w_filter = f', w_rest = [], w_attends = False\<rparr> # waits_s S,
      open_s := add_mset cb (open_s S)\<rparr>)
    = (abs_sys S)\<lparr>open_a := add_mset cb (open_a (abs_sys S)), blocked_a := insert t (blocked_a (abs_sys S))\<rparr>"
    by (simp add: abs_sys_def w(1))
  moreover have "cache_key h \<in> dom (groups_a (abs_sys S))" using w(3) by (auto simp: group_leader_def)
  moreover have "t \<notin> ran (groups_a (abs_sys S))" using leads_iff_ran [OF D(1), of t] w(4) by simp
  ultimately show ?thesis using coal_step.block [of t "abs_sys S" "cache_key h" cb] t by simp
qed

lemma leader_detached:
  assumes "\<And>k. group_of k s1 = (if k = key then None else group_of k s)"
    and "\<And>u. leader_thread_id_m (wrappers_m s1 ! u) = leader_thread_id_m (wrappers_m s ! u)"
  shows "group_leader s1 = (group_leader s)(key := None)"
  using assms by (simp add: group_leader_def fun_eq_iff)

lemma waiting_open:
  assumes I: "sys_inv S" and fl: "flights_s S = xs @ f # ys" and w: "response_wrapper_rc_ptr_m f = Some w"
  shows "mset (waiting_decoder_callbacks_m (wrappers_m (shared_s S) ! w)) \<subseteq># open_s S"
proof -
  have "open_s S = mset (waiting_decoder_callbacks_m (wrappers_m (shared_s S) ! w))
      + (mset (map fst (other_rc_groups_m (wrappers_m (shared_s S) ! w)))
         + sum_list (map (held (shared_s S)) (xs @ ys)) + sum_list (map parked (waits_s S)))"
    unfolding sys_invD(9) [OF I] fl by (simp add: held_def w ac_simps)
  then show ?thesis by simp
qed

lemma sim_finish:
  assumes I: "sys_inv S" and fl: "flights_s S = xs @ f # ys" and t: "\<not> thread_waits (this_thread_id_m f) S" and env: "begin_ok env"
    and w: "response_wrapper_rc_ptr_m f = Some w"
    and more: "other_rc_groups_m (wrappers_m (shared_s S) ! w) = []
      \<or> AList.delete (request_headers_str_key_m f) (led_groups (this_thread_id_m f) (shared_s S)) \<noteq> []"
    and r: "encodeComplete api env f (shared_s S) = Some (Inr (f', s'))"
  shows "coal_step (abs_sys S) (abs_sys (S\<lparr>shared_s := s', flights_s := xs @ ys,
      open_s := open_s S - mset (waiting_decoder_callbacks_m (wrappers_m (shared_s S) ! w))\<rparr>))"
proof -
  note D = sys_invD [OF I]
  let ?s = "shared_s S" and ?key = "request_headers_str_key_m f" and ?t = "this_thread_id_m f"
  have f: "group_of ?key ?s = Some w" "leader_thread_id_m (wrappers_m ?s ! w) = ?t" "\<not> entry_cached_m f"
    using D(4) [of f] w by (auto simp: fl flight_ok_def)
  have wl: "w < length (wrappers_m ?s)" using rc_invD(1) [OF D(1) f(1)] by simp
  from finish_result [OF D(1) env w f(1,3) more r] have "group_leader s' = (group_leader ?s)(?key := None)"
  proof (elim conjE disjE exE)
    assume s': "same_groups (release ?t (leave_group ?t ?key ?s)) s'"
    from keeps_leader [OF keeps_same [OF s'] rc_inv_leave [OF D(1) f(1,2)]]
    show ?thesis by (simp add: leader_detached leave_maps leave_frame_all)
  next
    fix k v assume kv: "(k, v) \<in> set (led_groups ?t ?s)" "k \<noteq> ?key" "v \<noteq> w"
      and s': "same_groups (hand_over v w ?t ?key ?s) s'"
    have v: "v < length (wrappers_m ?s)" using rc_invD(2) [OF D(1) kv(1)] by simp
    from keeps_leader [OF keeps_same [OF s'] hand_over_inv [OF D(1) f(1,2) kv(1,2)]]
    show ?thesis using hand_over_wrappers(1) [OF v wl kv(3)] by (simp add: leader_detached hand_over_maps)
  qed
  then have "abs_sys (S\<lparr>shared_s := s', flights_s := xs @ ys,
      open_s := open_s S - mset (waiting_decoder_callbacks_m (wrappers_m ?s ! w))\<rparr>)
    = (abs_sys S)\<lparr>groups_a := (groups_a (abs_sys S))(?key := None),
        open_a := open_a (abs_sys S) - mset (waiting_decoder_callbacks_m (wrappers_m ?s ! w))\<rparr>"
    by (simp add: abs_sys_def)
  moreover have "groups_a (abs_sys S) ?key = Some ?t" using f by (simp add: group_leader_def)
  ultimately show ?thesis
    using coal_step.finish [of "abs_sys S" ?key ?t "mset (waiting_decoder_callbacks_m (wrappers_m ?s ! w))"]
      t waiting_open [OF I fl w] by simp
qed

lemma sim_finish_attend:
  assumes I: "sys_inv S" and fl: "flights_s S = xs @ f # ys" and t: "\<not> thread_waits (this_thread_id_m f) S"
    and w: "response_wrapper_rc_ptr_m f = Some w"
    and del: "AList.delete (request_headers_str_key_m f) (led_groups (this_thread_id_m f) (shared_s S)) = []"
    and p: "produce g f (shared_s S) = Some (Inr (f1, s1))"
    and d: "serveResponseToCurrentRCGroup api env f1 (detachCurrentRCGroup f1 s1) = Some (Inr (f2, s2))"
    and x: "this_thread_id_m (w_filter x) = this_thread_id_m f2"
  shows "coal_step (abs_sys S) (abs_sys (S\<lparr>shared_s := set_led_groups (this_thread_id_m f2)
         (AList.delete (request_headers_str_key_m f2) (led_groups (this_thread_id_m f2) s2)) s2,
      flights_s := xs @ ys, waits_s := x # waits_s S,
      open_s := open_s S - mset (waiting_decoder_callbacks_m (wrappers_m (shared_s S) ! w))\<rparr>))"
    (is "coal_step _ (abs_sys (S\<lparr>shared_s := ?s', flights_s := _, waits_s := _, open_s := ?open\<rparr>))")
proof -
  note D = sys_invD [OF I]
  let ?s = "shared_s S" and ?key = "request_headers_str_key_m f" and ?t = "this_thread_id_m f"
  have f: "group_of ?key ?s = Some w" "leader_thread_id_m (wrappers_m ?s ! w) = ?t"
    using D(4) [of f] w by (auto simp: fl flight_ok_def)
  note b = before_attend [OF p d]
  have f2: "this_thread_id_m f2 = ?t" "request_headers_str_key_m f2 = ?key" using b by (simp_all add: same_request_def)
  have b2: "same_groups (rc_assign ?key None ?s) s2" using b by simp
  have s': "same_groups (leave_group ?t ?key ?s) ?s'"
    using b2 unfolding f2 same_groups_maps(2) [OF b2]
    by (simp add: same_groups_def leave_group_def set_led_groups_def rc_assign_def led_groups_def)
  have inv: "rc_inv_on (insert ?t (attending (waits_s S))) (leave_group ?t ?key ?s)"
    by (rule rc_inv_unrelease [OF rc_inv_leave [OF D(1) f]])
  have gl: "group_leader (leave_group ?t ?key ?s) = (group_leader ?s)(?key := None)"
    by (rule leader_detached) (simp_all add: leave_frame_all, simp add: leave_group_def)
  have "?t \<notin> ran ((group_leader ?s)(?key := None))"
    using leads_iff_ran [OF inv, of ?t] del by (simp add: gl) (simp add: leave_group_def)
  moreover have "groups_a (abs_sys S) ?key = Some ?t" using f by (simp add: group_leader_def)
  moreover have "abs_sys (S\<lparr>shared_s := ?s', flights_s := xs @ ys, waits_s := x # waits_s S, open_s := ?open\<rparr>)
    = (abs_sys S)\<lparr>groups_a := (groups_a (abs_sys S))(?key := None),
        open_a := open_a (abs_sys S) - mset (waiting_decoder_callbacks_m (wrappers_m ?s ! w)),
        blocked_a := insert ?t (blocked_a (abs_sys S))\<rparr>"
    using keeps_leader [OF keeps_same [OF s'] inv] by (simp add: abs_sys_def gl x f2)
  ultimately show ?thesis
    using coal_step.attend [of "abs_sys S" ?key ?t "mset (waiting_decoder_callbacks_m (wrappers_m ?s ! w))"]
      t waiting_open [OF I fl w] by simp
qed

lemma keeps_end_wait: "same_groups s s' \<Longrightarrow> keeps s (end_wait x f s')"
  unfolding end_wait_def release_eq by (simp add: keeps_same keeps_trans [OF keeps_same keeps_release])

lemma sim_wait_ends:
  assumes I: "sys_inv S" and w: "waits_s S = xs @ x # ys"
    and s: "same_groups (shared_s S) s'" and f: "same_request (w_filter x) f'"
  shows "coal_step (abs_sys S) (abs_sys (S\<lparr>shared_s := end_wait x f' s', waits_s := xs @ next_wait x f' s' @ ys,
    open_s := open_s S - {#decoder_callbacks_m (w_filter x)#}\<rparr>))"
proof -
  note D = sys_invD [OF I]
  let ?t = "this_thread_id_m (w_filter x)" and ?cb = "decoder_callbacks_m (w_filter x)"
  note gl = keeps_leader [OF keeps_end_wait [OF s] D(1), of x f']
  have t: "thread_waits ?t S" "this_thread_id_m f' = ?t" using f by (auto simp: thread_waits_def w same_request_def)
  have cb: "?cb \<in># open_s S" unfolding D(9) w by (simp add: parked_def)
  have others: "?t \<notin> (\<lambda>x. this_thread_id_m (w_filter x)) ` (set xs \<union> set ys)"
    using D(8) unfolding w by auto
  show ?thesis
  proof (cases x rule: rest_cases)
    case 1
    have "abs_sys (S\<lparr>shared_s := end_wait x f' s', waits_s := xs @ next_wait x f' s' @ ys, open_s := open_s S - {#?cb#}\<rparr>)
      = (abs_sys S)\<lparr>open_a := open_a (abs_sys S) - {#?cb#}, blocked_a := blocked_a (abs_sys S) - {?t}\<rparr>"
      using others by (auto simp: abs_sys_def gl next_wait_simps(1) [OF 1] w)
    then show ?thesis using coal_step.unblock [of ?t "abs_sys S" ?cb] t cb by simp
  next
    case (2 cb v rest)
    have "abs_sys (S\<lparr>shared_s := end_wait x f' s', waits_s := xs @ next_wait x f' s' @ ys, open_s := open_s S - {#?cb#}\<rparr>)
      = (abs_sys S)\<lparr>open_a := open_a (abs_sys S) - {#?cb#}\<rparr>"
      by (simp add: abs_sys_def gl next_wait_simps(2) [OF 2] w t(2))
    then show ?thesis using coal_step.proceed [of ?t "abs_sys S" ?cb] t cb by simp
  qed
qed

lemma sim_step:
  assumes "rc_step api S S'" and I: "sys_inv S"
  shows "coal_step (abs_sys S) (abs_sys S')"
  using assms(1)
proof cases
  case (miss t env cb config f s0 h f' s')
  note n = inv_new_filter [OF I miss(4)]
  have "\<not> thread_waits t (S\<lparr>shared_s := s0\<rparr>)" using miss by (simp add: thread_waits_def)
  from sim_miss [OF n(1) this miss(3) n(2), of api h f' s' "f' # flights_s S"] show ?thesis
    using miss new_filter_abs [OF I miss(4)] by simp
next
  case (hit t env cb config f s0 h f' s')
  note n = inv_new_filter [OF I hit(4)]
  have "\<not> thread_waits t (S\<lparr>shared_s := s0\<rparr>)" using hit by (simp add: thread_waits_def)
  note h = hit_result [OF sys_invD(1) [OF n(1)] not_attending [OF this] hit(3) n(2) sys_invD(2) [OF n(1)], of h api f' s']
  have "keeps s0 s'" unfolding keeps_def using h hit by (auto simp: less_Suc_eq)
  from keeps_leader [OF this, of "attending (waits_s S)"] sys_invD(1) [OF n(1)]
  have "abs_sys S' = (abs_sys (S\<lparr>shared_s := s0\<rparr>))\<lparr>open_a := open_s S'\<rparr>" by (simp add: hit(1) abs_sys_def)
  moreover have "serves [cb] s0 s'" using h hit n(3) by simp
  then have "answered (shared_s S) s' = [cb]" using serves_answered [of "[cb]" s0 s'] n(4) by (simp add: answered_def)
  then have "open_s S' = open_s S" by (simp add: hit(1))
  ultimately have "abs_sys S' = abs_sys S" using new_filter_abs [OF I hit(4)] by (cases "abs_sys S") (simp add: abs_sys_def)
  then show ?thesis using coal_step.stutter by simp
next
  case (join t env cb config f s0 h f' s')
  note n = inv_new_filter [OF I join(4)]
  have "\<not> thread_waits t (S\<lparr>shared_s := s0\<rparr>)" using join by (simp add: thread_waits_def)
  from sim_join [OF n(1) this join(3) n(2), of h api StopIteration f' s' cb] show ?thesis
    using join new_filter_abs [OF I join(4)] by simp
next
  case (wait t env cb config f s0 h f' s')
  note n = inv_new_filter [OF I wait(4)]
  have "\<not> thread_waits t (S\<lparr>shared_s := s0\<rparr>)" using wait by (simp add: thread_waits_def)
  from sim_wait [OF n(1) this wait(3) n(2), of h f' s' cb] show ?thesis
    using wait new_filter_abs [OF I wait(4)] by simp
next
  case (respond xs f ys c env f' s')
  have "announced_if f (shared_s S)" using sys_invD(4) [OF I, of f] respond(2) by (simp add: flight_ok_def)
  note u = upstream_frame [OF respond(5,4) sys_invD(2) [OF I] this]
  have "abs_sys S' = abs_sys S"
    using keeps_leader [OF keeps_same sys_invD(1) [OF I], of s'] u by (simp add: respond(1) abs_sys_def)
  then show ?thesis using coal_step.stutter by simp
next
  case (finish xs f ys env w f' s')
  from sim_finish [OF I finish(2-7)] show ?thesis
    using finish(1) serves_answered [OF finish_serves [OF I finish(2,4-7)]] by simp
next
  case (finish_attend xs f ys w cb v rest f1 s1 env f2 s2)
  from sim_finish_attend [OF I finish_attend(2-4,6-8)] show ?thesis
    using finish_attend(1) serves_answered [OF before_attend_serves [OF finish_attend(7,8,4)]] by simp
next
  case (wake xs x ys w a env f' s')
  have "answered (shared_s S) s' = [decoder_callbacks_m (w_filter x)]"
    using serve_entry_frame [OF wake(5)] serves_answered by blast
  with serve_entry_frame [OF wake(5)] sim_wait_ends [OF I wake(2), of s' f'] show ?thesis using wake(1) by simp
next
  case (timeout xs x ys w)
  from sim_wait_ends [OF I timeout(2), of "shared_s S" "w_filter x"] show ?thesis using timeout(1) by simp
qed

section \<open>Property\<close>

text \<open>
  C5: the filters implement the specification of coalescing: whatever requests arrive on whatever
  threads, and however callbacks, waits and timeouts follow each other, what happens to the groups,
  the open requests and the blocked threads is a run of the specification: a key gets a leader only
  when it has none, and a thread that leads a group keeps requests of other keys but is never
  blocked, and a thread is blocked only for a key that some other thread leads.
\<close>

theorem filters_implement_coalescing:
  assumes "rc_steps api rc_start S"
  shows "coal_steps coal_start (abs_sys S)"
  using assms
proof (induction rule: rtranclp_induct)
  case base
  have "abs_sys (rc_start :: 'a sys) = coal_start"
    by (simp add: abs_sys_def rc_start_def coal_start_def) (simp add: group_leader_def fun_eq_iff initial_shared_def group_of_def)
  then show ?case by simp
next
  case (step S S')
  from step.IH sim_step [OF step.hyps(2) reachable_inv [OF step.hyps(1)]] show ?case by simp
qed

theorem filters_implement_coalescing_witness:
  "\<exists>S. rc_steps (list_api :: (bytes \<times> bytes) list envoy_api) rc_start S \<and> coal_steps coal_start (abs_sys S)
    \<and> open_a (abs_sys S) = {#1#} \<and> 6 \<in> blocked_a (abs_sys S) \<and> 6 \<notin> ran (groups_a (abs_sys S))"
proof -
  from demo_steps [of list_api] obtain S x where S: "rc_steps list_api rc_start S" "waits_s S = [x]"
    "this_thread_id_m (w_filter x) = 6" "open_s S = {#1#}" by blast
  note C = filters_implement_coalescing [OF S(1)]
  have b: "6 \<in> blocked_a (abs_sys S)" using S by (simp add: thread_waits_def)
  with coal_blocked_leads_nothing [OF C] have "6 \<notin> ran (groups_a (abs_sys S))" by blast
  with S C b show ?thesis by (intro exI [of _ S]) simp
qed

end
