(* ===== verification/Heap_Typing.thy ===== *)
theory Heap_Typing
  imports Waiting_Threads
begin

text \<open>
  Pointers to cache entries in the system of filters. Entries are shared by the cache, the wrappers of
  groups and the producers of filters in flight; every step of \<open>rc_step\<close> keeps all these pointers
  valid, so that none of the callbacks dereferences a null or dangling pointer to an entry.
\<close>

section \<open>The producer keeps its entry\<close>

lemma writeBlockCb_ptr: "writeBlockCb d p = Inr (d', p') \<Longrightarrow> cache_entry_ptr_m p' = cache_entry_ptr_m p"
  by (auto simp: writeBlockCb_def Let_def split: if_splits)

lemma rb_write_ptr: "rb_write sz writeBlockCb q p = Inr (b, q', p') \<Longrightarrow> cache_entry_ptr_m p' = cache_entry_ptr_m p"
  by (auto simp: rb_write_def Let_def bindR_Inr_iff split: if_splits dest: writeBlockCb_ptr)

lemma writeBlockToBuffer_ptr: "writeBlockToBuffer p e = Inr (p', e') \<Longrightarrow> cache_entry_ptr_m p' = cache_entry_ptr_m p"
  by (auto simp: writeBlockToBuffer_def Let_def bindR_Inr_iff split: option.splits if_splits dest!: rb_write_ptr)

lemma writeToBlock_ptr: "writeToBlock d p = Inr (b, p') \<Longrightarrow> cache_entry_ptr_m p' = cache_entry_ptr_m p"
  by (auto simp: writeToBlock_def Let_def split: if_splits)

lemma writeString_loop_ptr:
  assumes "writeString_loop d first p e = Some (Inr (p', e'))"
  shows "cache_entry_ptr_m p' = cache_entry_ptr_m p"
proof -
  have "\<forall>p1 e1. (Inr (p', e') :: fault + producer \<times> cache_entry) = Inr (p1, e1) \<longrightarrow> cache_entry_ptr_m p1 = cache_entry_ptr_m p"
  proof (rule writeString_loop.raw_induct
      [where P = "\<lambda>d first p e y. \<forall>p1 e1. y = Inr (p1, e1) \<longrightarrow> cache_entry_ptr_m p1 = cache_entry_ptr_m p", OF _ assms],
      intro allI impI)
    fix f d first p e y p' e'
    assume IH: "\<And>d first p e y. f d first p e = Some y \<Longrightarrow>
        \<forall>p' e'. y = Inr (p', e') \<longrightarrow> cache_entry_ptr_m p' = cache_entry_ptr_m p"
      and body: "(if first \<or> data_offset_m p \<noteq> 0 then
          (case writeToBlock d p of
             Inl f \<Rightarrow> Some (Inl f)
           | Inr (full, p1) \<Rightarrow>
               if full then
                 (case writeBlockToBuffer p1 e of Inl f \<Rightarrow> Some (Inl f) | Inr (p2, e2) \<Rightarrow> f d False p2 e2)
               else Some (Inr (p1, e)))
        else Some (Inr (p, e))) = Some y"
      and y: "y = Inr (p', e')"
    show "cache_entry_ptr_m p' = cache_entry_ptr_m p"
    proof (cases "first \<or> data_offset_m p \<noteq> 0")
      case True
      with body y obtain full p1 where w: "writeToBlock d p = Inr (full, p1)" by (auto split: sum.splits)
      show ?thesis
      proof (cases full)
        case True
        with w \<open>first \<or> _\<close> body y obtain p2 e2 where b: "writeBlockToBuffer p1 e = Inr (p2, e2)" "f d False p2 e2 = Some y"
          by (auto split: sum.splits)
        from IH [OF b(2)] y writeBlockToBuffer_ptr [OF b(1)] writeToBlock_ptr [OF w] show ?thesis by simp
      next
        case False
        with w \<open>first \<or> _\<close> body y writeToBlock_ptr [OF w] show ?thesis by simp
      qed
    qed (use body y in simp)
  qed
  then show ?thesis by simp
qed

lemma writeStringToBuffer_ptr:
  "writeStringToBuffer d p e = Some (Inr (p', e')) \<Longrightarrow> cache_entry_ptr_m p' = cache_entry_ptr_m p"
  by (auto simp: writeStringToBuffer_def bindRun_Inr_iff dest!: writeString_loop_ptr writeBlockToBuffer_ptr)

lemma writeDelimiterBlock_ptr: "writeDelimiterBlock b p e = Inr (p', e') \<Longrightarrow> cache_entry_ptr_m p' = cache_entry_ptr_m p"
  by (auto simp: writeDelimiterBlock_def split: if_splits dest!: writeBlockToBuffer_ptr)

lemma iterate_write_ptr: "iterate_write kvs p e = Some (Inr (p', e')) \<Longrightarrow> cache_entry_ptr_m p' = cache_entry_ptr_m p"
proof (induction kvs arbitrary: p e)
  case (Cons kv kvs)
  then show ?case by (cases kv) (force simp: bindRun_Inr_iff dest!: writeStringToBuffer_ptr)
qed simp

lemma produced_ptr:
  "writeHeaders api h fin p e = Some (Inr (p', e')) \<Longrightarrow> cache_entry_ptr_m p' = cache_entry_ptr_m p"
  "writeData d fin p e = Some (Inr (p', e')) \<Longrightarrow> cache_entry_ptr_m p' = cache_entry_ptr_m p"
  "writeTrailers api h p e = Some (Inr (p', e')) \<Longrightarrow> cache_entry_ptr_m p' = cache_entry_ptr_m p"
  "headersWriteComplete p e = (p', e') \<Longrightarrow> cache_entry_ptr_m p' = cache_entry_ptr_m p"
  "dataWriteComplete p e = (p', e') \<Longrightarrow> cache_entry_ptr_m p' = cache_entry_ptr_m p"
  by (auto simp: writeHeaders_def writeData_def writeTrailers_def headersWriteComplete_def dataWriteComplete_def bindRun_Inr_iff
      dest!: iterate_write_ptr writeStringToBuffer_ptr writeDelimiterBlock_ptr)

section \<open>Valid pointers\<close>

definition heap_typed :: "'h shared \<Rightarrow> bool" where
  "heap_typed s \<longleftrightarrow> (\<forall>k a. map_of (lru_entries (cache_m s)) k = Some a \<longrightarrow> a < length (entries_m s))
     \<and> (\<forall>r \<in> set (wrappers_m s). \<forall>a. shared_response_entry_m r = Some a \<longrightarrow> a < length (entries_m s))"

definition writes_entry :: "'h shared \<Rightarrow> 'h http_filter \<Rightarrow> bool" where
  "writes_entry s f \<longleftrightarrow> (\<exists>a < length (entries_m s). cache_entry_ptr_m (cache_entry_producer_m f) = Some a)"

definition keeps_heap :: "'h shared \<Rightarrow> 'h shared \<Rightarrow> bool" where
  "keeps_heap s s' \<longleftrightarrow> length (entries_m s) \<le> length (entries_m s') \<and> (heap_typed s \<longrightarrow> heap_typed s')"

lemma keeps_heap_refl [simp]: "keeps_heap s s"
  by (simp add: keeps_heap_def)

lemma keeps_heap_trans: "keeps_heap s s1 \<Longrightarrow> keeps_heap s1 s2 \<Longrightarrow> keeps_heap s s2"
  by (simp add: keeps_heap_def)

lemma writes_entry_mono: "keeps_heap s s' \<Longrightarrow> writes_entry s f \<Longrightarrow> writes_entry s' f"
  by (auto simp: keeps_heap_def writes_entry_def)

text \<open>
  Changes after which every pointer to an entry was there before, except that the entry \<open>a\<close> may be
  cached under \<open>k\<close> and announced to the group with the wrapper \<open>w\<close>.
\<close>

definition publishes :: "bytes \<Rightarrow> wrapper_id \<Rightarrow> entry_id \<Rightarrow> 'h shared \<Rightarrow> 'h shared \<Rightarrow> bool" where
  "publishes k w a s s' \<longleftrightarrow> length (entries_m s) \<le> length (entries_m s')
     \<and> (\<forall>k' b. map_of (lru_entries (cache_m s')) k' = Some b \<longrightarrow> map_of (lru_entries (cache_m s)) k' = Some b \<or> k' = k \<and> b = a)
     \<and> (\<forall>k' v. group_of k' s' = Some v \<longrightarrow> group_of k' s = Some v)
     \<and> length (wrappers_m s') = length (wrappers_m s)
     \<and> (\<forall>v < length (wrappers_m s). \<forall>b. shared_response_entry_m (wrappers_m s' ! v) = Some b \<longrightarrow>
          shared_response_entry_m (wrappers_m s ! v) = Some b \<or> v = w \<and> b = a)"

definition keeps_ptrs :: "'h shared \<Rightarrow> 'h shared \<Rightarrow> bool" where
  "keeps_ptrs s s' \<longleftrightarrow> (\<forall>k w a. publishes k w a s s')"

lemma publishesD:
  assumes "publishes k w a s s'"
  shows "length (entries_m s) \<le> length (entries_m s')"
    "map_of (lru_entries (cache_m s')) k' = Some b \<Longrightarrow> map_of (lru_entries (cache_m s)) k' = Some b \<or> k' = k \<and> b = a"
    "group_of k' s' = Some v \<Longrightarrow> group_of k' s = Some v"
    "length (wrappers_m s') = length (wrappers_m s)"
    "v < length (wrappers_m s) \<Longrightarrow> shared_response_entry_m (wrappers_m s' ! v) = Some b \<Longrightarrow>
       shared_response_entry_m (wrappers_m s ! v) = Some b \<or> v = w \<and> b = a"
  using assms by (simp_all add: publishes_def)

lemma publishes_trans:
  assumes p: "publishes k w a s s1" and q: "publishes k w a s1 s2"
  shows "publishes k w a s s2"
  unfolding publishes_def
proof (intro conjI allI impI)
  show "length (entries_m s) \<le> length (entries_m s2)" using publishesD(1) [OF p] publishesD(1) [OF q] by simp
  show "length (wrappers_m s2) = length (wrappers_m s)" using publishesD(4) [OF p] publishesD(4) [OF q] by simp
next
  fix k' b assume "map_of (lru_entries (cache_m s2)) k' = Some b"
  from publishesD(2) [OF q this] publishesD(2) [OF p, of k' b]
  show "map_of (lru_entries (cache_m s)) k' = Some b \<or> k' = k \<and> b = a" by blast
next
  fix k' v assume "group_of k' s2 = Some v"
  from publishesD(3) [OF p publishesD(3) [OF q this]] show "group_of k' s = Some v" .
next
  fix v b assume v: "v < length (wrappers_m s)" and "shared_response_entry_m (wrappers_m s2 ! v) = Some b"
  from publishesD(5) [OF q _ this(2)] publishesD(4) [OF p] publishesD(5) [OF p v, of b] v
  show "shared_response_entry_m (wrappers_m s ! v) = Some b \<or> v = w \<and> b = a" by auto
qed

lemma keeps_ptrs_refl [simp]: "keeps_ptrs s s"
  by (simp add: keeps_ptrs_def publishes_def)

lemma keeps_ptrs_trans: "keeps_ptrs s s1 \<Longrightarrow> keeps_ptrs s1 s2 \<Longrightarrow> keeps_ptrs s s2"
  unfolding keeps_ptrs_def using publishes_trans by blast

lemma keeps_ptrsD: "keeps_ptrs s s' \<Longrightarrow> publishes k w a s s'"
  by (simp add: keeps_ptrs_def)

lemma keeps_ptrsI:
  assumes "length (entries_m s) \<le> length (entries_m s')"
    and "\<And>k b. map_of (lru_entries (cache_m s')) k = Some b \<Longrightarrow> map_of (lru_entries (cache_m s)) k = Some b"
    and "\<And>k v. group_of k s' = Some v \<Longrightarrow> group_of k s = Some v"
    and "map shared_response_entry_m (wrappers_m s') = map shared_response_entry_m (wrappers_m s)"
  shows "keeps_ptrs s s'"
proof -
  have l: "length (wrappers_m s') = length (wrappers_m s)" using assms(4) by (rule map_eq_imp_length_eq)
  moreover have "shared_response_entry_m (wrappers_m s' ! v) = shared_response_entry_m (wrappers_m s ! v)"
    if "v < length (wrappers_m s)" for v using assms(4) that l by (metis nth_map)
  ultimately show ?thesis using assms(1-3) unfolding keeps_ptrs_def publishes_def by simp
qed

lemma keeps_ptrs_groups:
  assumes "same_groups s s'" and "cache_m s' = cache_m s" and "wrappers_m s' = wrappers_m s"
    and "length (entries_m s) \<le> length (entries_m s')"
  shows "keeps_ptrs s s'"
  using assms same_groups_maps(1) [OF assms(1)] by (intro keeps_ptrsI) simp_all

lemma publishes_heap:
  assumes p: "publishes k w a s s'" and a: "a < length (entries_m s)"
  shows "keeps_heap s s'"
proof -
  have "heap_typed s'" if ty: "heap_typed s"
    unfolding heap_typed_def
  proof (intro conjI allI impI ballI)
    fix k' b assume "map_of (lru_entries (cache_m s')) k' = Some b"
    then have "map_of (lru_entries (cache_m s)) k' = Some b \<or> b = a" using p by (auto simp: publishes_def)
    then have "b < length (entries_m s)" using a ty by (auto simp: heap_typed_def)
    then show "b < length (entries_m s')" using p by (auto simp: publishes_def)
  next
    fix r b assume "r \<in> set (wrappers_m s')" "shared_response_entry_m r = Some b"
    then obtain v where "v < length (wrappers_m s')" "shared_response_entry_m (wrappers_m s' ! v) = Some b"
      by (auto simp: in_set_conv_nth)
    with p have v: "v < length (wrappers_m s)" "shared_response_entry_m (wrappers_m s ! v) = Some b \<or> b = a"
      by (auto simp: publishes_def)
    then have "b < length (entries_m s)" using a ty by (auto simp: heap_typed_def)
    then show "b < length (entries_m s')" using p by (auto simp: publishes_def)
  qed
  then show ?thesis using p by (simp add: keeps_heap_def publishes_def)
qed

lemma keeps_ptrs_old:
  assumes "keeps_ptrs s s'"
  shows "length (entries_m s) \<le> length (entries_m s')"
    "map_of (lru_entries (cache_m s')) k = Some b \<Longrightarrow> map_of (lru_entries (cache_m s)) k = Some b"
    "group_of k s' = Some v \<Longrightarrow> group_of k s = Some v" "length (wrappers_m s') = length (wrappers_m s)"
    "v < length (wrappers_m s) \<Longrightarrow> shared_response_entry_m (wrappers_m s' ! v) = Some b \<Longrightarrow>
       shared_response_entry_m (wrappers_m s ! v) = Some b"
proof -
  note p = publishesD [OF keeps_ptrsD [OF assms, of k v "Suc b"]]
  show "length (entries_m s) \<le> length (entries_m s')" by (rule p)
  show "map_of (lru_entries (cache_m s)) k = Some b" if "map_of (lru_entries (cache_m s')) k = Some b" using p(2) [OF that] by simp
  show "group_of k s = Some v" if "group_of k s' = Some v" using that by (rule p)
  show "length (wrappers_m s') = length (wrappers_m s)" by (rule p)
  show "shared_response_entry_m (wrappers_m s ! v) = Some b"
    if "v < length (wrappers_m s)" "shared_response_entry_m (wrappers_m s' ! v) = Some b" using p(5) [OF that] by simp
qed

lemma keeps_ptrs_heap:
  assumes p: "keeps_ptrs s s'"
  shows "keeps_heap s s'"
proof -
  note l = keeps_ptrs_old [OF p]
  have "heap_typed s'" if ty: "heap_typed s"
    unfolding heap_typed_def
  proof (intro conjI allI impI ballI)
    fix k b assume "map_of (lru_entries (cache_m s')) k = Some b"
    from l(2) [OF this] have "b < length (entries_m s)" using ty by (auto simp: heap_typed_def)
    then show "b < length (entries_m s')" using l(1) by simp
  next
    fix r b assume "r \<in> set (wrappers_m s')" and b: "shared_response_entry_m r = Some b"
    then obtain v where v: "v < length (wrappers_m s)" "r = wrappers_m s' ! v" using l(4) by (auto simp: in_set_conv_nth)
    from l(5) [OF v(1)] b v have "b < length (entries_m s)" using ty by (auto simp: heap_typed_def)
    then show "b < length (entries_m s')" using l(1) by simp
  qed
  then show ?thesis using l(1) by (simp add: keeps_heap_def)
qed

lemma keeps_ptrs_upd:
  assumes "\<And>r. shared_response_entry_m (g r) = shared_response_entry_m r"
  shows "keeps_ptrs s (upd_wrapper w g s)"
proof (rule keeps_ptrsI)
  have "map shared_response_entry_m ((wrappers_m s)[w := g (wrappers_m s ! w)]) = map shared_response_entry_m (wrappers_m s)"
  proof (rule nth_equalityI)
    fix i assume "i < length (map shared_response_entry_m ((wrappers_m s)[w := g (wrappers_m s ! w)]))"
    then show "map shared_response_entry_m ((wrappers_m s)[w := g (wrappers_m s ! w)]) ! i = map shared_response_entry_m (wrappers_m s) ! i"
      by (cases "w = i") (simp_all add: assms)
  qed simp
  then show "map shared_response_entry_m (wrappers_m (upd_wrapper w g s)) = map shared_response_entry_m (wrappers_m s)"
    by (simp add: upd_wrapper_def)
qed simp_all

lemma keeps_ptrs_frames:
  "keeps_ptrs s (rc_assign k None s)" "keeps_ptrs s (set_led_groups t gs s)" "keeps_ptrs s (release t s)"
  "keeps_ptrs s (end_wait x f s)"
proof -
  show "keeps_ptrs s (rc_assign k None s)"
    by (rule keeps_ptrsI; ((simp split: if_splits; fail) | (simp add: rc_assign_def; fail)))
  show "keeps_ptrs s (set_led_groups t gs s)" by (rule keeps_ptrsI) (simp_all add: set_led_groups_def group_of_def)
  show r: "keeps_ptrs s (release t s)" for t
    by (rule keeps_ptrsI; ((simp add: release_facts; fail) | (simp add: release_def; fail)))
  show "keeps_ptrs s (end_wait x f s)" by (simp add: end_wait_def release_eq r)
qed

section \<open>The callbacks\<close>

abbreviation entry_ptr :: "'h http_filter \<Rightarrow> entry_id option" where
  "entry_ptr f \<equiv> cache_entry_ptr_m (cache_entry_producer_m f)"

lemma produce_heap:
  assumes "produce g f s = Some (Inr (f', s'))"
    and "\<And>p e p' e'. g p e = Some (Inr (p', e')) \<Longrightarrow> cache_entry_ptr_m p' = cache_entry_ptr_m p"
  shows "keeps_ptrs s s' \<and> entry_ptr f' = entry_ptr f"
proof -
  have "length (entries_m s') = length (entries_m s)"
    using assms(1) by (auto simp: produce_def bindRun_Inr_iff split: option.splits if_splits)
  moreover have "entry_ptr f' = entry_ptr f"
    using assms by (auto simp: produce_def bindRun_Inr_iff split: option.splits if_splits)
  ultimately show ?thesis using keeps_ptrs_groups [of s s'] produce_frame [OF assms(1)] by simp
qed

lemma produce_any_heap:
  assumes "produce g f s = Some (Inr (f', s'))"
  shows "keeps_ptrs s s'"
proof -
  have "length (entries_m s') = length (entries_m s)"
    using assms(1) by (auto simp: produce_def bindRun_Inr_iff split: option.splits if_splits)
  then show ?thesis using keeps_ptrs_groups [of s s'] produce_frame [OF assms(1)] by simp
qed

lemma serve_entry_heap:
  assumes "serve_entry api env (Some a) cb f s = Some (Inr (f', s'))"
  shows "keeps_ptrs s s' \<and> entry_ptr f' = entry_ptr f"
proof -
  have "length (entries_m s') = length (entries_m s) \<and> entry_ptr f' = entry_ptr f"
    using assms by (auto simp: serve_entry_def bindRun_Inr_iff split: if_splits)
  then show ?thesis using keeps_ptrs_groups [of s s'] serve_entry_frame [OF assms] by simp
qed

lemma serve_callbacks_heap:
  assumes "serve_callbacks api env cbs f s = Some (Inr (f', s'))"
  shows "keeps_ptrs s s' \<and> entry_ptr f' = entry_ptr f"
  using assms
proof (induction cbs arbitrary: f s)
  case (Cons cb cbs)
  then obtain f1 s1 where 1: "serve_entry api env (getCacheEntryPtr (cache_entry_producer_m f)) cb f s = Some (Inr (f1, s1))"
    "serve_callbacks api env cbs f1 s1 = Some (Inr (f', s'))"
    by (auto simp: bindRun_Inr_iff)
  from 1(1) obtain a where "getCacheEntryPtr (cache_entry_producer_m f) = Some a"
    using serve_entry_None by (metis option.exhaust)
  with 1(1) have "keeps_ptrs s s1 \<and> entry_ptr f1 = entry_ptr f" using serve_entry_heap by metis
  with Cons.IH [OF 1(2)] show ?case using keeps_ptrs_trans by metis
qed simp

lemma serve_group_heap:
  assumes "serveResponseToCurrentRCGroup api env f (detachCurrentRCGroup f s) = Some (Inr (f', s'))"
  shows "keeps_ptrs s s'"
proof -
  from assms obtain cbs where "serve_callbacks api env cbs f (detachCurrentRCGroup f s) = Some (Inr (f', s'))"
    by (auto simp: serveResponseToCurrentRCGroup_def bindRun_Inr_iff)
  from serve_callbacks_heap [OF this] show ?thesis
    using keeps_ptrs_trans [OF keeps_ptrs_frames(1)] by (auto simp: detachCurrentRCGroup_def)
qed

text \<open>Announcing an entry, and caching one.\<close>

lemma notify_publishes:
  assumes n: "notifyWaitingCoalescedRequests (Some a) f s = Inr s'" and w: "response_wrapper_rc_ptr_m f = Some w"
  shows "publishes k w a s s'"
proof -
  from n w have "s' = upd_wrapper w (\<lambda>r. r\<lparr>shared_response_entry_m := Some a\<rparr>) s"
    by (auto simp: notifyWaitingCoalescedRequests_def bindR_Inr_iff wrapper_of_def split: if_splits)
  moreover have "shared_response_entry_m ((wrappers_m s)[w := (wrappers_m s ! w)\<lparr>shared_response_entry_m := Some a\<rparr>] ! v) = Some b
      \<Longrightarrow> shared_response_entry_m (wrappers_m s ! v) = Some b \<or> v = w \<and> b = a" if "v < length (wrappers_m s)" for v b
    using that by (cases "v = w") simp_all
  ultimately show ?thesis by (simp add: publishes_def) (simp add: upd_wrapper_def)
qed

lemma insert_publishes:
  assumes wf: "lru_wf (cache_m s)" and i: "cache_insert key a (cache_m s) = Inr c"
  shows "publishes key w a s (s\<lparr>cache_m := c\<rparr>)"
proof -
  from insert_refines [OF wf, of key a] i
  have "lru_entries c = spec_insert (unat (capacity_m (cache_m s))) key a (lru_entries (cache_m s))" by simp
  then have "map_of (lru_entries c) \<subseteq>\<^sub>m (map_of (lru_entries (cache_m s)))(key \<mapsto> a)" using spec_insert_map by metis
  then have "((map_of (lru_entries (cache_m s)))(key \<mapsto> a)) k = Some b" if "map_of (lru_entries c) k = Some b" for k b
    using that by (metis domI map_le_def)
  then have "map_of (lru_entries (cache_m s)) k = Some b \<or> k = key \<and> b = a" if "map_of (lru_entries c) k = Some b" for k b
    using that by (cases "k = key") fastforce+
  then show ?thesis by (simp add: publishes_def group_of_def)
qed

lemma check_ptr: "checkSuccessfulStatusCode api h f = (v, f') \<Longrightarrow> cache_entry_producer_m f' = cache_entry_producer_m f"
  by (auto simp: checkSuccessfulStatusCode_def Let_def split: option.splits if_splits)

lemma encodeHeaders_publishes:
  assumes r: "encodeHeaders api h fin f s = Some (Inr (st, f', s'))" and wf: "lru_wf (cache_m s)"
    and a: "entry_ptr f = Some a" and w: "response_wrapper_rc_ptr_m f = Some w"
  shows "publishes (request_headers_str_key_m f) w a s s' \<and> entry_ptr f' = entry_ptr f"
proof (cases "entry_cached_m f \<or> \<not> is_first_headers_m f")
  case True
  have "keeps_ptrs s s' \<and> entry_ptr f' = entry_ptr f" if "produce (writeHeaders api h fin) f s = Some (Inr (f', s'))"
    by (rule produce_heap [OF that]) (rule produced_ptr(1))
  with True show ?thesis using r keeps_ptrsD [of s s'] by (auto simp: encodeHeaders_def bindRun_Inr_iff split: if_splits)
next
  case False
  obtain v f1 where c: "checkSuccessfulStatusCode api h f = (v, f1)" by (metis surj_pair)
  note cf = check_ptr [OF c] check_frame [OF c]
  show ?thesis
  proof (cases v)
    case False
    then show ?thesis using r cf \<open>\<not> (entry_cached_m f \<or> \<not> is_first_headers_m f)\<close> keeps_ptrsD [OF keeps_ptrs_refl]
      by (auto simp: encodeHeaders_def c)
  next
    case True
    from r False c True a obtain s1 s2 where
      s1: "(if successful_status_code_m f1 then Some (bindR (cache_insert (request_headers_str_key_m f1) a (cache_m s))
             (\<lambda>cache. Inr (s\<lparr>cache_m := cache\<rparr>))) else Some (Inr s)) = Some (Inr s1)"
      and s2: "notifyWaitingCoalescedRequests (Some a) f1 s1 = Inr s2"
      and p: "produce (writeHeaders api h fin) (f1\<lparr>is_first_headers_m := False\<rparr>) s2 = Some (Inr (f', s'))"
      by (auto simp: encodeHeaders_def bindRun_Inr_iff getCacheEntryPtr_def cf(1) split: option.splits)
    have f1: "request_headers_str_key_m f1 = request_headers_str_key_m f" "response_wrapper_rc_ptr_m f1 = Some w"
      using cf(2) w by (simp_all add: same_request_def)
    have "publishes (request_headers_str_key_m f) w a s s1"
      using s1 insert_publishes [OF wf] keeps_ptrsD [OF keeps_ptrs_refl] by (auto simp: bindR_Inr_iff f1 split: if_splits)
    moreover have "publishes (request_headers_str_key_m f) w a s1 s2" by (rule notify_publishes [OF s2 f1(2)])
    moreover have q: "keeps_ptrs s2 s' \<and> entry_ptr f' = entry_ptr (f1\<lparr>is_first_headers_m := False\<rparr>)"
      by (rule produce_heap [OF p]) (rule produced_ptr(1))
    ultimately have "publishes (request_headers_str_key_m f) w a s s'"
      using publishes_trans [OF publishes_trans keeps_ptrsD] by blast
    with q cf(1) show ?thesis by simp
  qed
qed

lemma later_parts_heap:
  assumes r: "upstream_call api env c (f, s) = Some (Inr (f', s'))" and c: "c = UpData d fin \<or> c = UpTrailers t"
  shows "keeps_ptrs s s' \<and> entry_ptr f' = entry_ptr f"
proof (cases "entry_cached_m f")
  case True
  with r c show ?thesis by (auto simp: encodeData_def encodeTrailers_def)
next
  case False
  have k: "keeps_ptrs s s' \<and> entry_ptr f' = entry_ptr f"
    if "(if b then bindRun (produce g f s) (\<lambda>(f1, s1). Some (Inr (u f1, s1))) else Some (Inr (f, s))) = Some (Inr (f1, s1))"
      and "produce g' f1 s1 = Some (Inr (f', s'))" and "\<And>f. entry_ptr (u f) = entry_ptr f"
      and "\<And>p e p' e'. g p e = Some (Inr (p', e')) \<Longrightarrow> cache_entry_ptr_m p' = cache_entry_ptr_m p"
      and "\<And>p e p' e'. g' p e = Some (Inr (p', e')) \<Longrightarrow> cache_entry_ptr_m p' = cache_entry_ptr_m p"
    for b g u g' f1 s1
  proof -
    have "keeps_ptrs s s1 \<and> entry_ptr f1 = entry_ptr f"
      using that(1,3) produce_heap [of g f s, OF _ that(4)] by (auto simp: bindRun_Inr_iff split: if_splits)
    moreover have "keeps_ptrs s1 s' \<and> entry_ptr f' = entry_ptr f1" by (rule produce_heap [OF that(2)]) (rule that(5))
    ultimately show ?thesis using keeps_ptrs_trans [of s s1 s'] by simp
  qed
  from c show ?thesis
  proof
    assume "c = UpData d fin"
    with r False obtain f1 s1 where
      "(if is_first_data_m f then bindRun (produce (\<lambda>p e. Some (Inr (headersWriteComplete p e))) f s) (\<lambda>(f1, s1).
                    Some (Inr (f1\<lparr>is_first_data_m := False\<rparr>, s1))) else Some (Inr (f, s))) = Some (Inr (f1, s1))"
      "produce (writeData d fin) f1 s1 = Some (Inr (f', s'))"
      by (auto simp: encodeData_def bindRun_Inr_iff)
    then show ?thesis by (rule k) (simp, (rule produced_ptr(4), simp), (rule produced_ptr(2)))
  next
    assume "c = UpTrailers t"
    with r False obtain f1 s1 where
      "(if is_first_trailers_m f then bindRun (produce (\<lambda>p e. Some (Inr (dataWriteComplete p e))) f s) (\<lambda>(f1, s1).
                    Some (Inr (f1\<lparr>is_first_trailers_m := False\<rparr>, s1))) else Some (Inr (f, s))) = Some (Inr (f1, s1))"
      "produce (writeTrailers api t) f1 s1 = Some (Inr (f', s'))"
      by (auto simp: encodeTrailers_def bindRun_Inr_iff)
    then show ?thesis by (rule k) (simp, (rule produced_ptr(5), simp), (rule produced_ptr(3)))
  qed
qed

lemma upstream_publishes:
  assumes r: "upstream_call api env c (f, s) = Some (Inr (f', s'))" and c: "c \<noteq> UpComplete"
    and wf: "lru_wf (cache_m s)" and a: "entry_ptr f = Some a" and w: "response_wrapper_rc_ptr_m f = Some w"
  shows "publishes (request_headers_str_key_m f) w a s s' \<and> entry_ptr f' = entry_ptr f"
proof (cases c)
  case (UpHeaders h fin)
  with r obtain st where "encodeHeaders api h fin f s = Some (Inr (st, f', s'))" by (auto simp: bindRun_Inr_iff)
  from encodeHeaders_publishes [OF this wf a w] show ?thesis .
next
  case (UpData d fin)
  from later_parts_heap [OF r disjI1 [OF this]] keeps_ptrsD [of s s'] show ?thesis by simp
next
  case (UpTrailers t)
  from later_parts_heap [OF r disjI2 [OF this]] keeps_ptrsD [of s s'] show ?thesis by simp
qed (use c in simp)

lemma new_filter_heap:
  assumes "lru_wf (cache_m s)" and "HttpCacheRCFilter cb config s = (f, s')"
  shows "keeps_ptrs s s'"
proof (rule keeps_ptrsI)
  show "map_of (lru_entries (cache_m s)) k = Some b" if "map_of (lru_entries (cache_m s')) k = Some b" for k b
    using that assms(2) lru_wf_init(2) [OF assms(1)] by (auto simp: HttpCacheRCFilter_def Let_def split: prod.splits if_splits)
  show "group_of k s = Some v" if "group_of k s' = Some v" for k v
    using that new_filter_frame [OF assms] same_groups_maps(1) [of s s' k] by simp
qed (use assms(2) in \<open>auto simp: HttpCacheRCFilter_def Let_def split: prod.splits\<close>)

lemma at_heap:
  assumes wf: "lru_wf (cache_m s)" and a: "at k (cache_m s) = Inr (x, c)"
  shows "keeps_ptrs s (s\<lparr>cache_m := c\<rparr>)" "x = map_of (lru_entries (cache_m s)) k"
proof -
  from at_refines [OF wf, of k] a have c: "x = fst (spec_at k (lru_entries (cache_m s)))"
    "lru_entries c = snd (spec_at k (lru_entries (cache_m s)))" by auto
  show "keeps_ptrs s (s\<lparr>cache_m := c\<rparr>)" by (rule keeps_ptrsI) (simp_all add: c spec_at_map group_of_def)
  show "x = map_of (lru_entries (cache_m s)) k" by (simp add: c spec_at_map)
qed

text \<open>The end of a response on a thread that does not wait.\<close>

lemma attend_heap:
  assumes r: "attendToOtherRCGroups api env f s = Some (Inr (f', s'))" and w: "response_wrapper_rc_ptr_m f = Some w"
    and br: "other_rc_groups_m (wrappers_m s ! w) = []
      \<or> AList.delete (request_headers_str_key_m f) (led_groups (this_thread_id_m f) s) \<noteq> []"
  shows "keeps_ptrs s s'"
proof -
  let ?s1 = "set_led_groups (this_thread_id_m f) (AList.delete (request_headers_str_key_m f) (led_groups (this_thread_id_m f) s)) s"
  have wr: "wrappers_m ?s1 = wrappers_m s" by (simp add: set_led_groups_def)
  have k1: "keeps_ptrs s ?s1" by (rule keeps_ptrs_frames)
  from r w br have "s' = release (this_thread_id_m f) ?s1 \<or> (\<exists>v g g'. s' = upd_wrapper v g (upd_wrapper w g' ?s1)
      \<and> (\<forall>r. shared_response_entry_m (g r) = shared_response_entry_m r) \<and> (\<forall>r. shared_response_entry_m (g' r) = shared_response_entry_m r))"
    by (cases "other_rc_groups_m (wrappers_m s ! w) = []")
      (fastforce simp: attendToOtherRCGroups_def Let_def bindRun_Inr_iff wrapper_of_def wr release_eq split: if_splits prod.splits)+
  then show ?thesis
  proof
    assume "s' = release (this_thread_id_m f) ?s1"
    then show ?thesis using keeps_ptrs_trans [OF k1 keeps_ptrs_frames(3)] by simp
  next
    assume "\<exists>v g g'. s' = upd_wrapper v g (upd_wrapper w g' ?s1)
      \<and> (\<forall>r. shared_response_entry_m (g r) = shared_response_entry_m r) \<and> (\<forall>r. shared_response_entry_m (g' r) = shared_response_entry_m r)"
    then obtain v g g' where s': "s' = upd_wrapper v g (upd_wrapper w g' ?s1)"
      "\<And>r. shared_response_entry_m (g r) = shared_response_entry_m r" "\<And>r. shared_response_entry_m (g' r) = shared_response_entry_m r" by blast
    show ?thesis unfolding s'(1)
      by (rule keeps_ptrs_trans [OF keeps_ptrs_trans [OF k1 keeps_ptrs_upd] keeps_ptrs_upd]) (rule s')+
  qed
qed

section \<open>The system\<close>

definition heap_inv :: "'h sys \<Rightarrow> bool" where
  "heap_inv S \<longleftrightarrow> heap_typed (shared_s S) \<and> (\<forall>f \<in> set (flights_s S). writes_entry (shared_s S) f)"

lemma heap_inv_keeps:
  assumes "heap_inv S" and "keeps_heap (shared_s S) (shared_s S')" and "set (flights_s S') \<subseteq> set (flights_s S)"
  shows "heap_inv S'"
  using assms writes_entry_mono [OF assms(2)] by (auto simp: heap_inv_def keeps_heap_def)

text \<open>The group that the leader of a key founds, and what follows on a miss and on a hit.\<close>

definition founds :: "thread_id \<Rightarrow> bytes \<Rightarrow> 'h shared \<Rightarrow> 'h shared \<Rightarrow> bool" where
  "founds t k s s' \<longleftrightarrow> (\<forall>k'. group_of k' s' = (if k' = k then Some (length (wrappers_m s)) else group_of k' s))
     \<and> wrappers_m s' = wrappers_m s @ [new_wrapper t] \<and> cache_m s' = cache_m s \<and> entries_m s' = entries_m s"

lemma lead_founds:
  assumes inv: "rc_inv_on B s" "t \<notin> B" and env: "begin_ok env" and f: "fresh f"
    and c: "classify t (cache_key h) s = INITIAL_LEADER"
  shows "\<exists>s2. getThreadStatus env (asking h t f) s = Some (Inr (INITIAL_LEADER,
        (asking h t f)\<lparr>response_wrapper_rc_ptr_m := Some (length (wrappers_m s))\<rparr>, s2)) \<and> founds t (cache_key h) s s2"
proof -
  note l = lead_status [OF inv env f c]
  from l obtain s2 where g: "getThreadStatus env (asking h t f) s = Some (Inr (INITIAL_LEADER,
        (asking h t f)\<lparr>response_wrapper_rc_ptr_m := Some (length (wrappers_m s))\<rparr>, s2))"
    "wrappers_m s2 = wrappers_m s @ [new_wrapper t]" "cache_m s2 = cache_m s" "entries_m s2 = entries_m s" by blast
  moreover have "group_of k s2 = (if k = cache_key h then Some (length (wrappers_m s)) else group_of k s)" for k
    using l [of k t] g(1) by auto
  ultimately show ?thesis by (simp add: founds_def)
qed

lemma founds_heap: "founds t k s s' \<Longrightarrow> keeps_heap s s'"
  by (auto simp: founds_def keeps_heap_def heap_typed_def)

lemma miss_ptrs:
  assumes inv: "rc_inv_on B s" "t \<notin> B" and env: "begin_ok env" and f: "fresh f" and wf: "lru_wf (cache_m s)"
    and r: "decodeHeaders api env t h f s = Some (Inr (Continue, f', s'))"
  shows "\<exists>s2. founds t (cache_key h) s s2 \<and> keeps_ptrs s2 s' \<and> entry_ptr f' = Some (length (entries_m s))
    \<and> length (entries_m s') = Suc (length (entries_m s))"
proof -
  from lead_founds [OF inv env f continue_classify [OF inv env f r]] obtain s2 where
    g: "getThreadStatus env (asking h t f) s = Some (Inr (INITIAL_LEADER,
        (asking h t f)\<lparr>response_wrapper_rc_ptr_m := Some (length (wrappers_m s))\<rparr>, s2))"
    and fo: "founds t (cache_key h) s s2" by blast
  have s2: "cache_m s2 = cache_m s" "entries_m s2 = entries_m s" using fo by (simp_all add: founds_def)
  from at_refines [OF wf, of "cache_key h"] s2 obtain x c where c: "at (cache_key h) (cache_m s2) = Inr (x, c)" by auto
  note af = asking_fields [OF f]
  show ?thesis
  proof (cases x)
    case None
    from r g c None af have "\<exists>e. s' = s2\<lparr>cache_m := c, entries_m := entries_m s2 @ [e]\<rparr>"
      and p: "entry_ptr f' = Some (length (entries_m s2))"
      by (auto simp: decodeHeaders_def Let_def initCacheEntry_def)
    then obtain e where s'e: "s' = s2\<lparr>cache_m := c\<rparr>\<lparr>entries_m := entries_m s2 @ [e]\<rparr>" by auto
    have "keeps_ptrs (s2\<lparr>cache_m := c\<rparr>) s'" unfolding s'e by (rule keeps_ptrsI) (simp_all add: group_of_def)
    then have "keeps_ptrs s2 s'" using keeps_ptrs_trans [OF at_heap(1) [OF _ c]] wf s2 by simp
    then show ?thesis using fo p s2 s'e by auto
  next
    case (Some a)
    then show ?thesis using r g c af by (auto simp: decodeHeaders_def Let_def bindRun_Inr_iff split: prod.splits)
  qed
qed

lemma heap_miss:
  assumes I: "sys_inv S" and H: "heap_inv S" and t: "\<not> thread_waits t S" and env: "begin_ok env" and f: "fresh f"
    and r: "decodeHeaders api env t h f (shared_s S) = Some (Inr (Continue, f', s'))"
  shows "heap_inv (S\<lparr>shared_s := s', flights_s := f' # flights_s S\<rparr>)"
proof -
  from miss_ptrs [OF sys_invD(1) [OF I] not_attending [OF t] env f sys_invD(2) [OF I] r] obtain s2 where
    m: "founds t (cache_key h) (shared_s S) s2" "keeps_ptrs s2 s'" "entry_ptr f' = Some (length (entries_m (shared_s S)))"
      "length (entries_m s') = Suc (length (entries_m (shared_s S)))" by blast
  note k = keeps_heap_trans [OF founds_heap [OF m(1)] keeps_ptrs_heap [OF m(2)]]
  have "writes_entry s' f'" using m by (simp add: writes_entry_def)
  then show ?thesis using H k writes_entry_mono [OF k] by (auto simp: heap_inv_def keeps_heap_def)
qed

lemma join_ptrs:
  assumes I: "sys_inv S" and t: "\<not> thread_waits t S" and env: "begin_ok env" and f: "fresh f"
    and c: "classify t (cache_key h) (shared_s S) = LEADER \<or> classify t (cache_key h) (shared_s S) = OTHER_GROUP_LEADER"
    and r: "decodeHeaders api env t h f (shared_s S) = Some (Inr (st, f', s'))"
  shows "keeps_ptrs (shared_s S) s'"
proof -
  note j = join_status [OF sys_invD(1) [OF I] not_attending [OF t] env f r]
  from c show ?thesis
  proof
    assume "classify t (cache_key h) (shared_s S) = LEADER"
    from j(1) [OF this] show ?thesis by (auto intro!: keeps_ptrs_upd)
  next
    assume "classify t (cache_key h) (shared_s S) = OTHER_GROUP_LEADER"
    from j(2) [OF this] show ?thesis by (auto intro!: keeps_ptrs_upd)
  qed
qed

lemma hit_ptrs:
  assumes inv: "rc_inv_on B s" "t \<notin> B" and env: "begin_ok env" and f: "fresh f" and wf: "lru_wf (cache_m s)"
    and cl: "classify t (cache_key h) s = INITIAL_LEADER"
    and r: "decodeHeaders api env t h f s = Some (Inr (StopIteration, f', s'))"
  shows "\<exists>s2 a. founds t (cache_key h) s s2 \<and> map_of (lru_entries (cache_m s)) (cache_key h) = Some a
    \<and> publishes (cache_key h) (length (wrappers_m s)) a s2 s'"
proof -
  let ?w = "length (wrappers_m s)"
  let ?f2 = "(asking h t f)\<lparr>response_wrapper_rc_ptr_m := Some ?w\<rparr>"
  from lead_founds [OF inv env f cl] obtain s2 where
    g: "getThreadStatus env (asking h t f) s = Some (Inr (INITIAL_LEADER, ?f2, s2))"
    and fo: "founds t (cache_key h) s s2" by blast
  have s2: "wrappers_m s2 = wrappers_m s @ [new_wrapper t]" "cache_m s2 = cache_m s" using fo by (simp_all add: founds_def)
  have wf2: "lru_wf (cache_m s2)" using s2 wf by simp
  obtain a c s4 f5 s5 f6 s6 cbs where c: "at (cache_key h) (cache_m s2) = Inr (Some a, c)" "lru_wf c"
    and 4: "notifyWaitingCoalescedRequests (Some a) ?f2 (s2\<lparr>cache_m := c\<rparr>) = Inr s4"
    and 5: "serve_entry api env (Some a) (decoder_callbacks_m f) ?f2 s4 = Some (Inr (f5, s5))"
    and 6: "serveResponseToCurrentRCGroup api env f5 (detachCurrentRCGroup f5 s5) = Some (Inr (f6, s6))"
    and c6: "serve_callbacks api env cbs f5 (detachCurrentRCGroup f5 s5) = Some (Inr (f6, s6))"
    and 7: "attendToOtherRCGroups api env f6 s6 = Some (Inr (f', s'))"
    by (rule hit_parts [OF f wf2 g r])
  note fr = notify_frame [OF 4] serve_entry_frame [OF 5] serve_callbacks_frame [OF c6]
  have "same_groups (s2\<lparr>cache_m := c\<rparr>) s5" using same_groups_trans [of "s2\<lparr>cache_m := c\<rparr>" s4 s5] fr by simp
  then have "other_rc_groups_m (wrappers_m s5 ! ?w) = []" by (simp add: same_groups_def s2)
  moreover have "wrappers_m s6 = wrappers_m s5" using fr by (simp add: detachCurrentRCGroup_def rc_assign_def)
  moreover have "response_wrapper_rc_ptr_m f6 = Some ?w" using fr by (simp add: same_request_def)
  ultimately have k7: "keeps_ptrs s6 s'" using attend_heap [OF 7] by simp
  have "publishes (cache_key h) ?w a (s2\<lparr>cache_m := c\<rparr>) s4" by (rule notify_publishes [OF 4]) simp
  from publishes_trans [OF publishes_trans [OF keeps_ptrsD [OF at_heap(1) [OF wf2 c(1)]] this] keeps_ptrsD
      [OF keeps_ptrs_trans [OF keeps_ptrs_trans [OF conjunct1 [OF serve_entry_heap [OF 5]] serve_group_heap [OF 6]] k7]]]
  have "publishes (cache_key h) ?w a s2 s'" .
  moreover have "map_of (lru_entries (cache_m s)) (cache_key h) = Some a" using at_heap(2) [OF wf2 c(1)] s2(2) by simp
  ultimately show ?thesis using fo by blast
qed

lemma heap_hit:
  assumes I: "sys_inv S" and H: "heap_inv S" and t: "\<not> thread_waits t S" and env: "begin_ok env" and f: "fresh f"
    and cl: "classify t (cache_key h) (shared_s S) = INITIAL_LEADER"
    and r: "decodeHeaders api env t h f (shared_s S) = Some (Inr (StopIteration, f', s'))"
  shows "keeps_heap (shared_s S) s'"
proof -
  from hit_ptrs [OF sys_invD(1) [OF I] not_attending [OF t] env f sys_invD(2) [OF I] cl r] obtain s2 a where
    h: "founds t (cache_key h) (shared_s S) s2" "map_of (lru_entries (cache_m (shared_s S))) (cache_key h) = Some a"
      "publishes (cache_key h) (length (wrappers_m (shared_s S))) a s2 s'" by blast
  have "a < length (entries_m s2)" using h(1,2) H by (auto simp: heap_inv_def heap_typed_def founds_def)
  from keeps_heap_trans [OF founds_heap [OF h(1)] publishes_heap [OF h(3) this]] show ?thesis .
qed

lemma finish_ptrs:
  assumes I: "sys_inv S" and fl: "flights_s S = xs @ f # ys" and w: "response_wrapper_rc_ptr_m f = Some w"
    and more: "other_rc_groups_m (wrappers_m (shared_s S) ! w) = []
      \<or> AList.delete (request_headers_str_key_m f) (led_groups (this_thread_id_m f) (shared_s S)) \<noteq> []"
    and r: "encodeComplete api env f (shared_s S) = Some (Inr (f', s'))"
  shows "keeps_ptrs (shared_s S) s'"
proof -
  note D = sys_invD [OF I]
  have f: "group_of (request_headers_str_key_m f) (shared_s S) = Some w" "\<not> entry_cached_m f"
    using D(4) [of f] w by (auto simp: fl flight_ok_def)
  have wl: "w < length (wrappers_m (shared_s S))" using rc_invD(1) [OF D(1) f(1)] by simp
  from r f(2) obtain f1 s1 f2 s2 where
    p: "produce (\<lambda>p e. Some (writeComplete p e)) f (shared_s S) = Some (Inr (f1, s1))"
    and d: "serveResponseToCurrentRCGroup api env f1 (detachCurrentRCGroup f1 s1) = Some (Inr (f2, s2))"
    and a: "attendToOtherRCGroups api env f2 s2 = Some (Inr (f', s'))"
    by (auto simp: encodeComplete_def bindRun_Inr_iff)
  note b = before_attend [OF p d]
  have "keeps_ptrs (shared_s S) s1"
    by (rule produce_any_heap [OF p])
  moreover note serve_group_heap [OF d]
  moreover have "keeps_ptrs s2 s'"
  proof (rule attend_heap [OF a])
    show "response_wrapper_rc_ptr_m f2 = Some w" using b w by (simp add: same_request_def)
    have "same_groups (rc_assign (request_headers_str_key_m f) None (shared_s S)) s2" using b by simp
    from this same_groups_maps(2) [OF this, of "this_thread_id_m f"]
    show "other_rc_groups_m (wrappers_m s2 ! w) = []
      \<or> AList.delete (request_headers_str_key_m f2) (led_groups (this_thread_id_m f2) s2) \<noteq> []"
      using b more wl by (simp add: same_request_def same_groups_def rc_assign_def led_groups_def)
  qed
  ultimately show ?thesis using keeps_ptrs_trans [of "shared_s S" s1 s2] keeps_ptrs_trans [of "shared_s S" s2 s'] by simp
qed

lemma heap_step:
  assumes "rc_step api S S'" and I: "sys_inv S" and H: "heap_inv S"
  shows "heap_inv S'"
  using assms(1)
proof cases
  case (miss t env cb config f s0 h f' s')
  note n = inv_new_filter [OF I miss(4)] and k = new_filter_heap [OF sys_invD(2) [OF I] miss(4)]
  have t: "\<not> thread_waits t (S\<lparr>shared_s := s0\<rparr>)" using miss by (simp add: thread_waits_def)
  have "heap_inv (S\<lparr>shared_s := s0\<rparr>)" by (rule heap_inv_keeps [OF H]) (simp_all add: keeps_ptrs_heap [OF k])
  from heap_miss [OF n(1) this t miss(3) n(2), of api h f' s'] show ?thesis using miss by simp
next
  case (hit t env cb config f s0 h f' s')
  note n = inv_new_filter [OF I hit(4)] and k = new_filter_heap [OF sys_invD(2) [OF I] hit(4)]
  have t: "\<not> thread_waits t (S\<lparr>shared_s := s0\<rparr>)" using hit by (simp add: thread_waits_def)
  have "heap_inv (S\<lparr>shared_s := s0\<rparr>)" by (rule heap_inv_keeps [OF H]) (simp_all add: keeps_ptrs_heap [OF k])
  from heap_hit [OF n(1) this t hit(3) n(2), of h api f' s'] hit have "keeps_heap s0 s'" by simp
  then show ?thesis by (intro heap_inv_keeps [OF H]) (simp_all add: hit(1) keeps_heap_trans [OF keeps_ptrs_heap [OF k]])
next
  case (join t env cb config f s0 h f' s')
  note n = inv_new_filter [OF I join(4)] and k = new_filter_heap [OF sys_invD(2) [OF I] join(4)]
  have t: "\<not> thread_waits t (S\<lparr>shared_s := s0\<rparr>)" using join by (simp add: thread_waits_def)
  from join_ptrs [OF n(1) t join(3) n(2), of h api StopIteration f' s'] join have "keeps_ptrs s0 s'" by simp
  then show ?thesis by (intro heap_inv_keeps [OF H]) (simp_all add: join(1) keeps_ptrs_heap [OF keeps_ptrs_trans [OF k]])
next
  case (wait t env cb config f s0 h f' s')
  note n = inv_new_filter [OF I wait(4)] and k = new_filter_heap [OF sys_invD(2) [OF I] wait(4)]
  have t: "\<not> thread_waits t (S\<lparr>shared_s := s0\<rparr>)" using wait by (simp add: thread_waits_def)
  from wait_status [OF sys_invD(1) [OF n(1)] not_attending [OF t] wait(3) n(2), of h f' s'] wait
  have "keeps_heap s0 s'" by simp
  then show ?thesis by (intro heap_inv_keeps [OF H]) (simp_all add: wait(1) keeps_heap_trans [OF keeps_ptrs_heap [OF k]])
next
  case (respond xs f ys c env f' s')
  then have w: "writes_entry (shared_s S) f" using H by (simp add: heap_inv_def)
  then obtain a where a: "a < length (entries_m (shared_s S))" "entry_ptr f = Some a" by (auto simp: writes_entry_def)
  from sys_invD(4) [OF I, of f] respond(2) obtain w where "response_wrapper_rc_ptr_m f = Some w" by (auto simp: flight_ok_def)
  note u = upstream_publishes [OF respond(5,4) sys_invD(2) [OF I] a(2) this]
  note k = publishes_heap [OF conjunct1 [OF u] a(1)]
  have "writes_entry s' f'" using a u k by (auto simp: writes_entry_def keeps_heap_def)
  moreover have "heap_inv (S\<lparr>shared_s := s'\<rparr>)" by (rule heap_inv_keeps [OF H]) (simp_all add: k)
  ultimately show ?thesis using respond(2) by (auto simp: respond(1) heap_inv_def)
next
  case (finish xs f ys env w f' s')
  from keeps_ptrs_heap [OF finish_ptrs [OF I finish(2,5,6,7)]] show ?thesis
    by (intro heap_inv_keeps [OF H]) (auto simp: finish(1,2))
next
  case (finish_attend xs f ys w cb v rest f1 s1 env f2 s2)
  note k = keeps_ptrs_heap [OF keeps_ptrs_trans [OF keeps_ptrs_trans [OF produce_any_heap [OF finish_attend(7)]
    serve_group_heap [OF finish_attend(8)]] keeps_ptrs_frames(2)]]
  show ?thesis by (rule heap_inv_keeps [OF H]) (use k in \<open>auto simp: finish_attend(1,2)\<close>)
next
  case (wake xs x ys w a env f' s')
  note k = keeps_ptrs_heap [OF keeps_ptrs_trans [OF conjunct1 [OF serve_entry_heap [OF wake(5)]] keeps_ptrs_frames(4)]]
  show ?thesis by (rule heap_inv_keeps [OF H]) (use k in \<open>simp_all add: wake(1)\<close>)
next
  case (timeout xs x ys w)
  show ?thesis by (rule heap_inv_keeps [OF H]) (simp_all add: timeout(1) keeps_ptrs_heap [OF keeps_ptrs_frames(4)])
qed

lemma heap_reachable:
  assumes "rc_steps api rc_start S"
  shows "heap_inv S"
  using assms
proof (induction rule: rtranclp_induct)
  case base
  show ?case by (simp add: heap_inv_def heap_typed_def rc_start_def)
    (simp add: initial_shared_def lru_entries_def new_HTTPLRURAMCache_def)
next
  case (step S S')
  from heap_step [OF step.hyps(2) reachable_inv [OF step.hyps(1)] step.IH] show ?case .
qed

section \<open>Properties\<close>

text \<open>
  C14: in every reachable state all shared pointers to cache entries are valid, so none of the
  callbacks meets a null or dangling one: each key that is cached, each group that has been
  announced, and each response in flight refers to an entry that exists, and so what a lookup of the
  cache returns can be read, and a call on the producer finds its entry.
\<close>

theorem entry_pointers_valid:
  assumes "rc_steps api rc_start S"
  shows "(\<forall>k a c. at k (cache_m (shared_s S)) = Inr (Some a, c) \<longrightarrow> a < length (entries_m (shared_s S)))
    \<and> (\<forall>r \<in> set (wrappers_m (shared_s S)). \<forall>a. shared_response_entry_m r = Some a \<longrightarrow> a < length (entries_m (shared_s S)))
    \<and> (\<forall>f \<in> set (flights_s S). \<exists>a < length (entries_m (shared_s S)). getCacheEntryPtr (cache_entry_producer_m f) = Some a)"
proof -
  note I = reachable_inv [OF assms] and H = heap_reachable [OF assms]
  have "a < length (entries_m (shared_s S))" if "at k (cache_m (shared_s S)) = Inr (Some a, c)" for k a c
    using at_heap(2) [OF sys_invD(2) [OF I] that] H by (auto simp: heap_inv_def heap_typed_def)
  then show ?thesis using H by (auto simp: heap_inv_def heap_typed_def writes_entry_def getCacheEntryPtr_def)
qed

theorem entry_pointers_valid_witness:
  "\<exists>S. rc_steps (list_api :: (bytes \<times> bytes) list envoy_api) rc_start S \<and> length (flights_s S) = 1
    \<and> (\<forall>f \<in> set (flights_s S). \<exists>a < length (entries_m (shared_s S)). getCacheEntryPtr (cache_entry_producer_m f) = Some a)"
proof -
  from demo_steps [of list_api] obtain S where S: "rc_steps list_api rc_start S" "length (flights_s S) = 1" by blast
  from entry_pointers_valid [OF S(1)] S show ?thesis by blast
qed

end
