(* ===== verification/Key_Isolation.thy ===== *)
theory Key_Isolation
  imports Heap_Typing
begin

text \<open>
  Responses do not leak from one key to another: an entry of the cache is written for the key of one
  request, and whatever leads to it, the cache, an announced group, a response in flight or a waiting
  request, does so under that key only.
\<close>

section \<open>Entries and groups have one key\<close>

text \<open>
  The key that an entry was allocated for and the key that a group was founded for are history: \<open>ek\<close>
  and \<open>wk\<close> give them for every address handed out so far.
\<close>

definition keyed :: "(entry_id \<Rightarrow> bytes) \<Rightarrow> (wrapper_id \<Rightarrow> bytes) \<Rightarrow> 'h shared \<Rightarrow> bool" where
  "keyed ek wk s \<longleftrightarrow> (\<forall>k a. map_of (lru_entries (cache_m s)) k = Some a \<longrightarrow> ek a = k)
     \<and> (\<forall>k w. group_of k s = Some w \<longrightarrow> wk w = k)
     \<and> (\<forall>w < length (wrappers_m s). \<forall>a. shared_response_entry_m (wrappers_m s ! w) = Some a \<longrightarrow> ek a = wk w)"

lemma keyedD:
  assumes "keyed ek wk s"
  shows "map_of (lru_entries (cache_m s)) k = Some a \<Longrightarrow> ek a = k" "group_of k s = Some w \<Longrightarrow> wk w = k"
    "w < length (wrappers_m s) \<Longrightarrow> shared_response_entry_m (wrappers_m s ! w) = Some a \<Longrightarrow> ek a = wk w"
  using assms by (auto simp: keyed_def)

lemma keyed_publishes:
  assumes K: "keyed ek wk s" and p: "publishes k w a s s'" and "ek a = k" and "wk w = k"
  shows "keyed ek wk s'"
  unfolding keyed_def
proof (intro conjI allI impI)
  show "ek b = k'" if "map_of (lru_entries (cache_m s')) k' = Some b" for k' b
    using publishesD(2) [OF p that] keyedD(1) [OF K, of k' b] assms(3) by auto
  show "wk v = k'" if "group_of k' s' = Some v" for k' v
    using publishesD(3) [OF p that] by (rule keyedD(2) [OF K])
  show "ek b = wk v" if v: "v < length (wrappers_m s')" and b: "shared_response_entry_m (wrappers_m s' ! v) = Some b" for v b
  proof -
    have "v < length (wrappers_m s)" using v publishesD(4) [OF p] by simp
    from publishesD(5) [OF p this b] keyedD(3) [OF K this, of b] assms(3,4) show ?thesis by auto
  qed
qed

lemma keyed_ptrs:
  assumes K: "keyed ek wk s" and p: "keeps_ptrs s s'"
  shows "keyed ek wk s'"
  using keeps_ptrs_old [OF p] keyedD [OF K] by (auto simp: keyed_def)

lemma keyed_founds:
  assumes K: "keyed ek wk s" and f: "founds t k s s'"
    and g: "\<And>k w. group_of k s = Some w \<Longrightarrow> w < length (wrappers_m s)"
  shows "keyed ek (wk(length (wrappers_m s) := k)) s'"
  unfolding keyed_def
proof (intro conjI allI impI)
  let ?wk = "wk(length (wrappers_m s) := k)"
  show "ek b = k'" if "map_of (lru_entries (cache_m s')) k' = Some b" for k' b
    using that f keyedD(1) [OF K] by (simp add: founds_def)
  show "?wk v = k'" if "group_of k' s' = Some v" for k' v
    using that f keyedD(2) [OF K, of k' v] g [of k' v] by (auto simp: founds_def split: if_splits)
  show "ek b = ?wk v" if "v < length (wrappers_m s')" "shared_response_entry_m (wrappers_m s' ! v) = Some b" for v b
    using that f keyedD(3) [OF K, of v b] by (cases "v = length (wrappers_m s)") (auto simp: founds_def nth_append)
qed

lemma keyed_new_entry:
  assumes K: "keyed ek wk s" and ty: "heap_typed s"
  shows "keyed (ek(length (entries_m s) := k)) wk s"
proof -
  have "map_of (lru_entries (cache_m s)) k' = Some a \<Longrightarrow> a < length (entries_m s)" for k' a
    using ty by (auto simp: heap_typed_def)
  moreover have "w < length (wrappers_m s) \<Longrightarrow> shared_response_entry_m (wrappers_m s ! w) = Some a \<Longrightarrow> a < length (entries_m s)" for w a
    using ty by (auto simp: heap_typed_def)
  ultimately show ?thesis using keyedD [OF K] by (fastforce simp: keyed_def)
qed

section \<open>The system\<close>

definition isolated :: "(entry_id \<Rightarrow> bytes) \<Rightarrow> (wrapper_id \<Rightarrow> bytes) \<Rightarrow> 'h sys \<Rightarrow> bool" where
  "isolated ek wk S \<longleftrightarrow> keyed ek wk (shared_s S)
     \<and> (\<forall>f \<in> set (flights_s S). \<forall>a. entry_ptr f = Some a \<longrightarrow> ek a = request_headers_str_key_m f)
     \<and> (\<forall>x \<in> set (waits_s S). \<not> w_attends x \<longrightarrow> w_rest x = []
          \<and> (\<forall>w. response_wrapper_rc_ptr_m (w_filter x) = Some w \<longrightarrow> wk w = request_headers_str_key_m (w_filter x)))"

lemma isolatedD:
  assumes "isolated ek wk S"
  shows "keyed ek wk (shared_s S)"
    "f \<in> set (flights_s S) \<Longrightarrow> entry_ptr f = Some a \<Longrightarrow> ek a = request_headers_str_key_m f"
    "x \<in> set (waits_s S) \<Longrightarrow> \<not> w_attends x \<Longrightarrow> w_rest x = []"
    "x \<in> set (waits_s S) \<Longrightarrow> \<not> w_attends x \<Longrightarrow> response_wrapper_rc_ptr_m (w_filter x) = Some w \<Longrightarrow>
       wk w = request_headers_str_key_m (w_filter x)"
  using assms by (auto simp: isolated_def)

lemma isolated_keeps:
  assumes X: "isolated ek wk S" and p: "keeps_ptrs (shared_s S) (shared_s S')"
    and "set (flights_s S') \<subseteq> set (flights_s S)" and "{x \<in> set (waits_s S'). \<not> w_attends x} \<subseteq> set (waits_s S)"
  shows "isolated ek wk S'"
  using isolatedD [OF X] keyed_ptrs [OF isolatedD(1) [OF X] p] assms(3,4) unfolding isolated_def by blast

text \<open>A filter in flight or waiting refers to a group that exists, so a new group does not touch it.\<close>

lemma waiting_wrapper:
  assumes "sys_inv S" and "x \<in> set (waits_s S)" and "response_wrapper_rc_ptr_m (w_filter x) = Some w"
  shows "w < length (wrappers_m (shared_s S))"
  using sys_invD(7) [OF assms(1,2)] assms(3) by (auto simp: wait_ok_def)

lemma group_wrapper: "sys_inv S \<Longrightarrow> group_of k (shared_s S) = Some w \<Longrightarrow> w < length (wrappers_m (shared_s S))"
  using rc_invD(1) [OF sys_invD(1)] by blast

lemma isolated_new_filter:
  assumes I: "sys_inv S" and H: "heap_inv S" and X: "isolated ek wk S" and n: "HttpCacheRCFilter cb config (shared_s S) = (f, s0)"
  shows "sys_inv (S\<lparr>shared_s := s0\<rparr>)" "heap_inv (S\<lparr>shared_s := s0\<rparr>)" "isolated ek wk (S\<lparr>shared_s := s0\<rparr>)" "fresh f"
proof -
  note k = new_filter_heap [OF sys_invD(2) [OF I] n]
  show "sys_inv (S\<lparr>shared_s := s0\<rparr>)" "fresh f" using inv_new_filter [OF I n] by blast+
  show "heap_inv (S\<lparr>shared_s := s0\<rparr>)" by (rule heap_inv_keeps [OF H]) (simp_all add: keeps_ptrs_heap [OF k])
  show "isolated ek wk (S\<lparr>shared_s := s0\<rparr>)" by (rule isolated_keeps [OF X]) (auto simp: k)
qed

lemma isolated_miss:
  assumes I: "sys_inv S" and H: "heap_inv S" and X: "isolated ek wk S" and t: "\<not> thread_waits t S" and env: "begin_ok env"
    and f: "fresh f" and r: "decodeHeaders api env t h f (shared_s S) = Some (Inr (Continue, f', s'))"
  shows "\<exists>ek' wk'. isolated ek' wk' (S\<lparr>shared_s := s', flights_s := f' # flights_s S\<rparr>)"
proof -
  let ?s = "shared_s S"
  let ?ek = "ek(length (entries_m ?s) := cache_key h)" and ?wk = "wk(length (wrappers_m ?s) := cache_key h)"
  note D = sys_invD(1,2) [OF I] and nt = not_attending [OF t]
  from miss_ptrs [OF D(1) nt env f D(2) r] obtain s2 where
    m: "founds t (cache_key h) ?s s2" "keeps_ptrs s2 s'" "entry_ptr f' = Some (length (entries_m ?s))" by blast
  have key: "request_headers_str_key_m f' = cache_key h" using miss_result [OF D(1) nt env f D(2) r] by blast
  have "heap_typed ?s" using H by (simp add: heap_inv_def)
  from keyed_ptrs [OF keyed_founds [OF keyed_new_entry [OF isolatedD(1) [OF X] this] m(1) group_wrapper [OF I]] m(2)]
  have "keyed ?ek ?wk s'" .
  moreover have "?ek a = request_headers_str_key_m g" if "g \<in> set (flights_s S)" "entry_ptr g = Some a" for g a
    using isolatedD(2) [OF X that] H that by (auto simp: heap_inv_def writes_entry_def)
  moreover have "?wk w = request_headers_str_key_m (w_filter x)"
    if "x \<in> set (waits_s S)" "\<not> w_attends x" "response_wrapper_rc_ptr_m (w_filter x) = Some w" for x w
    using isolatedD(4) [OF X that] waiting_wrapper [OF I that(1,3)] by simp
  ultimately have "isolated ?ek ?wk (S\<lparr>shared_s := s', flights_s := f' # flights_s S\<rparr>)"
    using isolatedD(3) [OF X] m(3) key unfolding isolated_def by simp
  then show ?thesis by blast
qed

lemma isolated_hit:
  assumes I: "sys_inv S" and X: "isolated ek wk S" and t: "\<not> thread_waits t S" and env: "begin_ok env" and f: "fresh f"
    and cl: "classify t (cache_key h) (shared_s S) = INITIAL_LEADER"
    and r: "decodeHeaders api env t h f (shared_s S) = Some (Inr (StopIteration, f', s'))"
  shows "\<exists>ek' wk'. isolated ek' wk' (S\<lparr>shared_s := s'\<rparr>)"
proof -
  let ?s = "shared_s S"
  let ?wk = "wk(length (wrappers_m ?s) := cache_key h)"
  from hit_ptrs [OF sys_invD(1) [OF I] not_attending [OF t] env f sys_invD(2) [OF I] cl r] obtain s2 a where
    m: "founds t (cache_key h) ?s s2" "map_of (lru_entries (cache_m ?s)) (cache_key h) = Some a"
      "publishes (cache_key h) (length (wrappers_m ?s)) a s2 s'" by blast
  from keyed_publishes [OF keyed_founds [OF isolatedD(1) [OF X] m(1) group_wrapper [OF I]] m(3)]
    keyedD(1) [OF isolatedD(1) [OF X] m(2)]
  have "keyed ek ?wk s'" by simp
  moreover have "?wk w = request_headers_str_key_m (w_filter x)"
    if "x \<in> set (waits_s S)" "\<not> w_attends x" "response_wrapper_rc_ptr_m (w_filter x) = Some w" for x w
    using isolatedD(4) [OF X that] waiting_wrapper [OF I that(1,3)] by simp
  ultimately have "isolated ek ?wk (S\<lparr>shared_s := s'\<rparr>)"
    using isolatedD(2,3) [OF X] unfolding isolated_def by simp
  then show ?thesis by blast
qed

lemma isolated_respond:
  assumes I: "sys_inv S" and H: "heap_inv S" and X: "isolated ek wk S" and fl: "flights_s S = xs @ f # ys" and c: "c \<noteq> UpComplete"
    and r: "upstream_call api env c (f, shared_s S) = Some (Inr (f', s'))"
  shows "isolated ek wk (S\<lparr>shared_s := s', flights_s := xs @ f' # ys\<rparr>)"
proof -
  have fin: "f \<in> set (flights_s S)" using fl by simp
  from H fin obtain a where a: "entry_ptr f = Some a" by (auto simp: heap_inv_def writes_entry_def)
  from sys_invD(4) [OF I fin] obtain w where w: "response_wrapper_rc_ptr_m f = Some w"
    "group_of (request_headers_str_key_m f) (shared_s S) = Some w" "announced_if f (shared_s S)"
    by (auto simp: flight_ok_def)
  note u = upstream_publishes [OF r c sys_invD(2) [OF I] a w(1)]
  have key: "request_headers_str_key_m f' = request_headers_str_key_m f"
    using upstream_frame [OF r c sys_invD(2) [OF I] w(3)] by (simp add: same_request_def)
  have "keyed ek wk s'"
    using keyed_publishes [OF isolatedD(1) [OF X] conjunct1 [OF u] isolatedD(2) [OF X fin a] keyedD(2) [OF isolatedD(1) [OF X] w(2)]] .
  then show ?thesis using isolatedD(2-4) [OF X] fl u key unfolding isolated_def by auto
qed

lemma isolated_step:
  assumes "rc_step api S S'" and I: "sys_inv S" and H: "heap_inv S" and X: "isolated ek wk S"
  shows "\<exists>ek' wk'. isolated ek' wk' S'"
  using assms(1)
proof cases
  case (miss t env cb config f s0 h f' s')
  note n = isolated_new_filter [OF I H X miss(4)]
  have t: "\<not> thread_waits t (S\<lparr>shared_s := s0\<rparr>)" using miss by (simp add: thread_waits_def)
  from isolated_miss [OF n(1-3) t miss(3) n(4), of api h f' s'] show ?thesis using miss by simp
next
  case (hit t env cb config f s0 h f' s')
  note n = isolated_new_filter [OF I H X hit(4)]
  have t: "\<not> thread_waits t (S\<lparr>shared_s := s0\<rparr>)" using hit by (simp add: thread_waits_def)
  from isolated_hit [OF n(1,3) t hit(3) n(4), of h api f' s'] show ?thesis using hit by (simp add: isolated_def)
next
  case (join t env cb config f s0 h f' s')
  note n = isolated_new_filter [OF I H X join(4)]
  have t: "\<not> thread_waits t (S\<lparr>shared_s := s0\<rparr>)" using join by (simp add: thread_waits_def)
  from join_ptrs [OF n(1) t join(3) n(4), of h api StopIteration f' s'] join have "keeps_ptrs s0 s'" by simp
  then have "isolated ek wk S'" by (intro isolated_keeps [OF n(3)]) (auto simp: join(1))
  then show ?thesis by blast
next
  case (wait t env cb config f s0 h f' s')
  note n = isolated_new_filter [OF I H X wait(4)]
  have t: "\<not> thread_waits t (S\<lparr>shared_s := s0\<rparr>)" using wait by (simp add: thread_waits_def)
  from wait_status [OF sys_invD(1) [OF n(1)] not_attending [OF t] wait(3) n(4), of h f' s'] wait obtain w where
    w: "s' = s0" "f' = (asking h t f)\<lparr>response_wrapper_rc_ptr_m := Some w\<rparr>" "group_of (cache_key h) s0 = Some w" by auto
  have "wk w = cache_key h" using keyedD(2) [OF isolatedD(1) [OF n(3)]] w(3) by simp
  then have "isolated ek wk S'" using isolatedD [OF n(3)] asking_fields(1) [OF n(4)] unfolding isolated_def by (simp add: wait(1) w)
  then show ?thesis by blast
next
  case (respond xs f ys c env f' s')
  from isolated_respond [OF I H X respond(2,4,5)] show ?thesis unfolding respond(1) by blast
next
  case (finish xs f ys env w f' s')
  have "isolated ek wk S'"
    by (rule isolated_keeps [OF X]) (use finish_ptrs [OF I finish(2,5,6,7)] in \<open>auto simp: finish(1,2)\<close>)
  then show ?thesis by blast
next
  case (finish_attend xs f ys w cb v rest f1 s1 env f2 s2)
  note k = keeps_ptrs_trans [OF keeps_ptrs_trans [OF produce_any_heap [OF finish_attend(7)]
    serve_group_heap [OF finish_attend(8)]] keeps_ptrs_frames(2)]
  have "isolated ek wk S'" by (rule isolated_keeps [OF X]) (use k in \<open>auto simp: finish_attend(1,2)\<close>)
  then show ?thesis by blast
next
  case (wake xs x ys w a env f' s')
  note k = keeps_ptrs_trans [OF conjunct1 [OF serve_entry_heap [OF wake(5)]] keeps_ptrs_frames(4)]
  have "isolated ek wk S'"
  proof (rule isolated_keeps [OF X])
    show "{y \<in> set (waits_s S'). \<not> w_attends y} \<subseteq> set (waits_s S)"
      by (rule rest_cases [of x]) (use isolatedD(3) [OF X, of x] wake(2) in \<open>auto simp: wake(1) next_wait_simps\<close>)
  qed (simp_all add: wake(1) k)
  then show ?thesis by blast
next
  case (timeout xs x ys w)
  have "isolated ek wk S'"
  proof (rule isolated_keeps [OF X])
    show "{y \<in> set (waits_s S'). \<not> w_attends y} \<subseteq> set (waits_s S)"
      by (rule rest_cases [of x]) (use isolatedD(3) [OF X, of x] timeout(2) in \<open>auto simp: timeout(1) next_wait_simps\<close>)
  qed (simp_all add: timeout(1) keeps_ptrs_frames(4))
  then show ?thesis by blast
qed

lemma reachable_isolated:
  assumes "rc_steps api rc_start S"
  shows "\<exists>ek wk. isolated ek wk S"
  using assms
proof (induction rule: rtranclp_induct)
  case base
  show ?case by (simp add: isolated_def keyed_def rc_start_def)
    (simp add: initial_shared_def lru_entries_def new_HTTPLRURAMCache_def group_of_def)
next
  case (step S S')
  then obtain ek wk where "isolated ek wk S" by blast
  from isolated_step [OF step.hyps(2) reachable_inv [OF step.hyps(1)] heap_reachable [OF step.hyps(1)] this] show ?case .
qed

section \<open>Properties\<close>

text \<open>
  What can lead to an entry for requests with the key \<open>k\<close>: the cache, the group of the key once it has
  been announced, the response that is written into the entry, or a request that waits.
\<close>

definition entry_under :: "'h sys \<Rightarrow> bytes \<Rightarrow> entry_id \<Rightarrow> bool" where
  "entry_under S k a \<longleftrightarrow> (\<exists>c. at k (cache_m (shared_s S)) = Inr (Some a, c))
     \<or> (\<exists>w. group_of k (shared_s S) = Some w \<and> shared_response_entry_m (wrappers_m (shared_s S) ! w) = Some a)
     \<or> (\<exists>f \<in> set (flights_s S). request_headers_str_key_m f = k \<and> getCacheEntryPtr (cache_entry_producer_m f) = Some a)
     \<or> (\<exists>x \<in> set (waits_s S). \<not> w_attends x \<and> request_headers_str_key_m (w_filter x) = k
          \<and> (\<exists>w. response_wrapper_rc_ptr_m (w_filter x) = Some w \<and> shared_response_entry_m (wrappers_m (shared_s S) ! w) = Some a))"

lemma isolated_entry:
  assumes I: "sys_inv S" and X: "isolated ek wk S" and e: "entry_under S k a"
  shows "ek a = k"
proof -
  note K = keyedD [OF isolatedD(1) [OF X]]
  have "ek a = k" if "at k (cache_m (shared_s S)) = Inr (Some a, c)" for c
    using at_heap(2) [OF sys_invD(2) [OF I] that] by (intro K(1)) simp
  moreover have "ek a = k" if "group_of k (shared_s S) = Some w" "shared_response_entry_m (wrappers_m (shared_s S) ! w) = Some a" for w
    using K(3) [OF group_wrapper [OF I that(1)] that(2)] K(2) [OF that(1)] by simp
  moreover have "ek a = k" if "x \<in> set (waits_s S)" "\<not> w_attends x" "request_headers_str_key_m (w_filter x) = k"
      "response_wrapper_rc_ptr_m (w_filter x) = Some w" "shared_response_entry_m (wrappers_m (shared_s S) ! w) = Some a" for x w
    using K(3) [OF waiting_wrapper [OF I that(1,4)] that(5)] isolatedD(4) [OF X that(1,2,4)] that(3) by simp
  ultimately show ?thesis
    using e isolatedD(2) [OF X, of _ a] unfolding entry_under_def getCacheEntryPtr_def by blast
qed

text \<open>
  C6: responses are isolated by their keys, and each entry has one writer. In every reachable state
  an entry that requests with one key can be led to -- by the cache, by their group, by the response
  in flight or by the group that a request waits for, even when the group has been detached -- is not
  within the reach of any other key, and no two responses in flight are written into the same entry,
  as the queues with a single producer require.
\<close>

theorem entries_isolated:
  assumes "rc_steps api rc_start S" and "entry_under S k a" and "entry_under S k' a"
  shows "k' = k \<and> (\<forall>f \<in> set (flights_s S). \<forall>g \<in> set (flights_s S).
    getCacheEntryPtr (cache_entry_producer_m f) = Some a \<longrightarrow> getCacheEntryPtr (cache_entry_producer_m g) = Some a \<longrightarrow> f = g)"
proof -
  note I = reachable_inv [OF assms(1)]
  from reachable_isolated [OF assms(1)] obtain ek wk where X: "isolated ek wk S" by blast
  have "k' = k" using isolated_entry [OF I X assms(2)] isolated_entry [OF I X assms(3)] by simp
  moreover have "f = g" if "f \<in> set (flights_s S)" "g \<in> set (flights_s S)"
      "getCacheEntryPtr (cache_entry_producer_m f) = Some a" "getCacheEntryPtr (cache_entry_producer_m g) = Some a" for f g
    by (rule flight_unique [OF I that(1,2)])
      (use isolatedD(2) [OF X that(1)] isolatedD(2) [OF X that(2)] that(3,4) in \<open>simp add: getCacheEntryPtr_def\<close>)
  ultimately show ?thesis by blast
qed

theorem entries_isolated_witness:
  "\<exists>S a. rc_steps (list_api :: (bytes \<times> bytes) list envoy_api) rc_start S \<and> entry_under S (cache_key demo_request) a
    \<and> (\<forall>f \<in> set (flights_s S). \<forall>g \<in> set (flights_s S). getCacheEntryPtr (cache_entry_producer_m f) = Some a \<longrightarrow>
         getCacheEntryPtr (cache_entry_producer_m g) = Some a \<longrightarrow> f = g)"
proof -
  from demo_steps [of list_api] obtain S where S: "rc_steps list_api rc_start S"
    "group_of (cache_key demo_request) (shared_s S) = Some 0" by blast
  from flight_of_group [OF reachable_inv [OF S(1)] S(2)] obtain f where
    f: "f \<in> set (flights_s S)" "request_headers_str_key_m f = cache_key demo_request" by blast
  with heap_reachable [OF S(1)] obtain a where "getCacheEntryPtr (cache_entry_producer_m f) = Some a"
    by (auto simp: heap_inv_def writes_entry_def getCacheEntryPtr_def)
  with f have e: "entry_under S (cache_key demo_request) a" unfolding entry_under_def by blast
  from entries_isolated [OF S(1) e e] S(1) e show ?thesis by blast
qed

end
