(* ===== verification/Stream_Reset.thy ===== *)
theory Stream_Reset
  imports Waiting_Threads
begin

text \<open>
  Streams that are reset: Envoy destroys the filter of a stream whenever the client or the upstream
  goes away, and \<^verbatim>\<open>onDestroy\<close> does nothing. For the filter of a response in flight this means that it
  disappears while its group stays in both maps. A run in which it has been destroyed is a run in
  which it makes no further call, so the invariant of the system with the filter says what the system
  without it can never do.
\<close>

section \<open>Runs with stream resets\<close>

abbreviation with_flights :: "'h http_filter list \<Rightarrow> 'h sys \<Rightarrow> 'h sys" where
  "with_flights fs S \<equiv> S\<lparr>flights_s := fs\<rparr>"

text \<open>\<^verbatim>\<open>onDestroy\<close> and the default destructor: nothing happens to the state the filters share.\<close>

definition onDestroy :: "'h http_filter \<Rightarrow> 'h shared \<Rightarrow> 'h shared" where
  "onDestroy f s = s"

text \<open>The second component records the filters that were destroyed with their response in flight.\<close>

inductive stream_step :: "'h envoy_api \<Rightarrow> 'h sys \<times> 'h http_filter list \<Rightarrow> 'h sys \<times> 'h http_filter list \<Rightarrow> bool"
  for api where
  run: "rc_step api S S' \<Longrightarrow> stream_step api (S, D) (S', D)"
| destroy: "flights_s S = xs @ f # ys \<Longrightarrow>
    stream_step api (S, D) (S\<lparr>flights_s := xs @ ys, shared_s := onDestroy f (shared_s S)\<rparr>, f # D)"

abbreviation stream_steps where
  "stream_steps api \<equiv> (stream_step api)\<^sup>*\<^sup>*"

section \<open>A filter that makes no call\<close>

lemma thread_waits_flights [simp]: "thread_waits t (with_flights fs S) = thread_waits t S"
  by (simp add: thread_waits_def)

lemma flights_last:
  "S\<lparr>flights_s := a, shared_s := b\<rparr> = S\<lparr>shared_s := b, flights_s := a\<rparr>"
  "S\<lparr>flights_s := a, waits_s := c\<rparr> = S\<lparr>waits_s := c, flights_s := a\<rparr>"
  "S\<lparr>flights_s := a, open_s := d\<rparr> = S\<lparr>open_s := d, flights_s := a\<rparr>"
  by (cases S; simp)+

text \<open>The place of a flight in a list that holds more of them.\<close>

lemma place_of_flight:
  assumes "mset fs = mset (us @ g # vs) + D"
  shows "\<exists>us' vs'. fs = us' @ g # vs' \<and> mset (us' @ vs') = mset (us @ vs) + D"
proof -
  have "g \<in># mset fs" using assms by simp
  then obtain us' vs' where "fs = us' @ g # vs'" by (auto dest: split_list)
  with assms show ?thesis by (intro exI [of _ us'] exI [of _ vs']) simp
qed

lemma step_with_idle_flights:
  assumes "rc_step api S S'" and fl: "mset fs = mset (flights_s S) + D"
  shows "\<exists>fs'. mset fs' = mset (flights_s S') + D \<and> rc_step api (with_flights fs S) (with_flights fs' S')"
  using assms(1)
proof cases
  case (miss t env cb config g s0 h g' s')
  have "rc_step api (with_flights fs S)
    ((with_flights fs S)\<lparr>shared_s := s', flights_s := g' # flights_s (with_flights fs S)\<rparr>)"
    by (rule rc_step.miss [of t _ env cb config g s0 _ h]) (use miss in simp_all)
  then show ?thesis using miss(1) fl by - (rule exI [of _ "g' # fs"], simp add: flights_last)
next
  case (hit t env cb config g s0 h g' s')
  have "rc_step api (with_flights fs S) ((with_flights fs S)\<lparr>shared_s := s',
      open_s := add_mset cb (open_s (with_flights fs S)) - mset (answered (shared_s (with_flights fs S)) s')\<rparr>)"
    by (rule rc_step.hit [of t _ env cb config g s0 h]) (use hit in simp_all)
  then show ?thesis using hit(1) fl by - (rule exI [of _ fs], simp add: flights_last)
next
  case (join t env cb config g s0 h g' s')
  have "rc_step api (with_flights fs S)
      ((with_flights fs S)\<lparr>shared_s := s', open_s := add_mset cb (open_s (with_flights fs S))\<rparr>)"
    by (rule rc_step.join [of t _ env cb config g s0 h]) (use join in simp_all)
  then show ?thesis using join(1) fl by - (rule exI [of _ fs], simp add: flights_last)
next
  case (wait t env cb config g s0 h g' s')
  have "rc_step api (with_flights fs S)
      ((with_flights fs S)\<lparr>shared_s := s',
        waits_s := \<lparr>w_filter = g', w_rest = [], w_attends = False\<rparr> # waits_s (with_flights fs S),
        open_s := add_mset cb (open_s (with_flights fs S))\<rparr>)"
    by (rule rc_step.wait [of t _ env cb config g s0 h]) (use wait in simp_all)
  then show ?thesis using wait(1) fl by - (rule exI [of _ fs], simp add: flights_last)
next
  case (respond us g vs c env g' s')
  from respond(2) fl place_of_flight [of fs us g vs D] obtain us' vs' where
    u: "fs = us' @ g # vs'" "mset (us' @ vs') = mset (us @ vs) + D" by auto
  have "rc_step api (with_flights fs S) ((with_flights fs S)\<lparr>shared_s := s', flights_s := us' @ g' # vs'\<rparr>)"
    by (rule rc_step.respond [of _ us' g vs' c]) (use respond u(1) in simp_all)
  then show ?thesis using respond(1) u(2) by - (rule exI [of _ "us' @ g' # vs'"], simp add: flights_last)
next
  case (finish us g vs env w g' s')
  from finish(2) fl place_of_flight [of fs us g vs D] obtain us' vs' where
    u: "fs = us' @ g # vs'" "mset (us' @ vs') = mset (us @ vs) + D" by auto
  have "rc_step api (with_flights fs S) ((with_flights fs S)\<lparr>shared_s := s', flights_s := us' @ vs',
      open_s := open_s (with_flights fs S) - mset (answered (shared_s (with_flights fs S)) s')\<rparr>)"
    by (rule rc_step.finish [of _ us' g vs' env]) (use finish u(1) in simp_all)
  then show ?thesis using finish(1) u(2) by - (rule exI [of _ "us' @ vs'"], simp add: flights_last)
next
  case (finish_attend us g vs w cb v rest f1 s1 env f2 s2)
  from finish_attend(2) fl place_of_flight [of fs us g vs D] obtain us' vs' where
    u: "fs = us' @ g # vs'" "mset (us' @ vs') = mset (us @ vs) + D" by auto
  have "rc_step api (with_flights fs S) ((with_flights fs S)\<lparr>shared_s := set_led_groups (this_thread_id_m f2)
         (AList.delete (request_headers_str_key_m f2) (led_groups (this_thread_id_m f2) s2)) s2,
      flights_s := us' @ vs',
      waits_s := \<lparr>w_filter = f2\<lparr>decoder_callbacks_m := cb, response_wrapper_rc_ptr_m := weak_lock v s2\<rparr>,
         w_rest = rest, w_attends = True\<rparr> # waits_s (with_flights fs S),
      open_s := open_s (with_flights fs S) - mset (answered (shared_s (with_flights fs S)) s2)\<rparr>)"
    by (rule rc_step.finish_attend [of _ us' g vs']) (use finish_attend u(1) in simp_all)
  then show ?thesis using finish_attend(1) u(2) by - (rule exI [of _ "us' @ vs'"], simp add: flights_last)
next
  case (wake us x vs w a env g' s')
  have "rc_step api (with_flights fs S) ((with_flights fs S)\<lparr>shared_s := end_wait x g' s',
      waits_s := us @ next_wait x g' s' @ vs,
      open_s := open_s (with_flights fs S) - mset (answered (shared_s (with_flights fs S)) s')\<rparr>)"
    by (rule rc_step.wake [of _ us x vs w]) (use wake in simp_all)
  then show ?thesis using wake(1) fl by - (rule exI [of _ fs], simp add: flights_last)
next
  case (timeout us x vs w)
  have "rc_step api (with_flights fs S) ((with_flights fs S)
      \<lparr>shared_s := end_wait x (w_filter x) (shared_s (with_flights fs S)),
      waits_s := us @ next_wait x (w_filter x) (shared_s (with_flights fs S)) @ vs,
      open_s := open_s (with_flights fs S) - {#decoder_callbacks_m (w_filter x)#}\<rparr>)"
    by (rule rc_step.timeout [of _ us x vs w]) (use timeout in simp_all)
  then show ?thesis using timeout(1) fl by - (rule exI [of _ fs], simp add: flights_last)
qed

text \<open>A reachable state with resets is a state that can be reached with the destroyed filters idle.\<close>

lemma stream_reachable:
  assumes "stream_steps api (rc_start, []) (S, D)"
  shows "\<exists>fs. mset fs = mset (flights_s S) + mset D \<and> rc_steps api rc_start (with_flights fs S)"
  using assms
proof (induction rule: rtranclp_induct2)
  case refl
  show ?case by (rule exI [of _ "[]"]) (simp add: rc_start_def)
next
  case (step S D S' D')
  then obtain fs where fs: "mset fs = mset (flights_s S) + mset D" "rc_steps api rc_start (with_flights fs S)" by blast
  from step(2) show ?case
  proof cases
    case run
    from step_with_idle_flights [OF run(2) fs(1)] obtain fs' where
      "mset fs' = mset (flights_s S') + mset D" "rc_step api (with_flights fs S) (with_flights fs' S')" by blast
    with run(1) rtranclp.rtrancl_into_rtrancl [OF fs(2)] show ?thesis by blast
  next
    case (destroy xs f ys)
    then have "with_flights fs S' = with_flights fs S" by (simp add: onDestroy_def)
    with fs destroy show ?thesis by (intro exI [of _ fs]) simp
  qed
qed

lemma stream_inv:
  assumes "stream_steps api (rc_start, []) (S, D)"
  shows "\<exists>fs. mset fs = mset (flights_s S) + mset D \<and> sys_inv (with_flights fs S)"
  using stream_reachable [OF assms] reachable_inv by blast

lemma stream_steps_run: "rc_steps api S S' \<Longrightarrow> stream_steps api (S, D) (S', D)"
  by (induction rule: rtranclp_induct) (auto intro: stream_step.run rtranclp.rtrancl_into_rtrancl)

text \<open>What the invariant says of a destroyed filter.\<close>

lemma destroyed_keeps_group:
  assumes "stream_steps api (rc_start, []) (S, D)" and "f \<in> set D"
  shows "\<exists>w. response_wrapper_rc_ptr_m f = Some w \<and> group_of (request_headers_str_key_m f) (shared_s S) = Some w
    \<and> request_headers_str_key_m f \<notin> request_headers_str_key_m ` set (flights_s S)
    \<and> rc_inv_on (attending (waits_s S)) (shared_s S)"
proof -
  from stream_inv [OF assms(1)] obtain fs where fs: "mset fs = mset (flights_s S) + mset D" "sys_inv (with_flights fs S)" by blast
  have "f \<in> set fs" using fs(1) assms(2) by (metis Un_iff set_mset_mset set_mset_union)
  with sys_invD(4) [OF fs(2), of f] obtain w where "response_wrapper_rc_ptr_m f = Some w"
    "group_of (request_headers_str_key_m f) (shared_s S) = Some w" by (auto simp: flight_ok_def)
  moreover have "request_headers_str_key_m f \<notin> request_headers_str_key_m ` set (flights_s S)"
  proof -
    have "mset (map request_headers_str_key_m fs) = mset (map request_headers_str_key_m (flights_s S @ D))"
      using fs(1) by simp
    then have "distinct (map request_headers_str_key_m (flights_s S @ D))"
      using sys_invD(5) [OF fs(2)] mset_eq_imp_distinct_iff by fastforce
    then show ?thesis using assms(2) by auto
  qed
  moreover have "rc_inv_on (attending (waits_s S)) (shared_s S)" using sys_invD(1) [OF fs(2)] by simp
  ultimately show ?thesis by blast
qed

section \<open>Properties\<close>

text \<open>
  C15: a key whose leader has been reset is blocked for good. In every state that can be reached with
  any number of requests, threads and stream resets, no response is in flight for the key of a filter
  destroyed with its response in flight, and yet every request with that key, on every thread that
  does not wait, is told that the group exists: it never becomes the leader and \<^verbatim>\<open>decodeHeaders\<close> never
  passes it on to the origin.
\<close>

theorem reset_leader_blocks_key:
  assumes "stream_steps api (rc_start, []) (S, D)" and "f \<in> set D" and "begin_ok env" and "\<not> thread_waits t S"
    and "HttpCacheRCFilter cb config (shared_s S) = (g, s0)" and "cache_key h = request_headers_str_key_m f"
  shows "cache_key h \<notin> request_headers_str_key_m ` set (flights_s S)
    \<and> (\<exists>st g' s'. getThreadStatus env (asking h t g) s0 = Some (Inr (st, g', s')) \<and> st \<noteq> INITIAL_LEADER)
    \<and> (\<forall>g' s'. decodeHeaders api env t h g s0 \<noteq> Some (Inr (Continue, g', s')))"
proof -
  from destroyed_keeps_group [OF assms(1,2)] obtain w where
    k: "group_of (cache_key h) (shared_s S) = Some w" "cache_key h \<notin> request_headers_str_key_m ` set (flights_s S)"
    and R: "rc_inv_on (attending (waits_s S)) (shared_s S)" using assms(6) by auto
  from stream_inv [OF assms(1)] have wf: "lru_wf (cache_m (shared_s S))" using sys_invD(2) by force
  from new_filter_frame [OF wf assms(5)] have g: "same_groups (shared_s S) s0" "fresh g" by blast+
  have I: "rc_inv_on (attending (waits_s S)) s0" using same_groups_inv [OF g(1)] R by blast
  have cl: "classify t (cache_key h) s0 \<noteq> INITIAL_LEADER"
    using k(1) g(1) by (simp add: classify_def same_groups_maps)
  from getThreadStatus_ok [OF I assms(3), of "asking h t g"] not_attending [OF assms(4)] cl
  have st: "\<exists>st g' s'. getThreadStatus env (asking h t g) s0 = Some (Inr (st, g', s')) \<and> st \<noteq> INITIAL_LEADER"
    unfolding asking_fields [OF g(2)] by blast
  have "decodeHeaders api env t h g s0 \<noteq> Some (Inr (Continue, g', s'))" for g' s'
    using continue_classify [OF I not_attending [OF assms(4)] assms(3) g(2)] cl by blast
  with k(2) st show ?thesis by blast
qed

theorem reset_leader_blocks_key_witness:
  "\<exists>S f g s0. stream_steps (list_api :: (bytes \<times> bytes) list envoy_api) (rc_start, []) (S, [f])
    \<and> request_headers_str_key_m f = cache_key demo_request
    \<and> HttpCacheRCFilter 2 (\<lparr>ring_buffer_capacity_cfg = 4, cache_capacity_cfg = 2\<rparr>) (shared_s S) = (g, s0)
    \<and> (\<exists>st g' s'. getThreadStatus demo_env (asking demo_request 8 g) s0 = Some (Inr (st, g', s')) \<and> st \<noteq> INITIAL_LEADER)
    \<and> (\<forall>g' s'. decodeHeaders list_api demo_env 8 demo_request g s0 \<noteq> Some (Inr (Continue, g', s')))"
proof -
  from demo_steps [of list_api] obtain S x where S: "rc_steps list_api rc_start S" "waits_s S = [x]"
    "this_thread_id_m (w_filter x) = 6" "group_of (cache_key demo_request) (shared_s S) = Some 0" by blast
  from flight_of_group [OF reachable_inv [OF S(1)] S(4)] obtain f xs ys where
    f: "request_headers_str_key_m f = cache_key demo_request" "flights_s S = xs @ f # ys" by (metis split_list)
  let ?S = "S\<lparr>flights_s := xs @ ys, shared_s := onDestroy f (shared_s S)\<rparr>"
  have r: "stream_steps list_api (rc_start, []) (?S, [f])"
    by (rule rtranclp.rtrancl_into_rtrancl [OF stream_steps_run [OF S(1)] stream_step.destroy [OF f(2)]])
  have n: "\<not> thread_waits 8 ?S" using S(2,3) by (simp add: thread_waits_def)
  obtain g s0 where g: "HttpCacheRCFilter 2 (\<lparr>ring_buffer_capacity_cfg = 4, cache_capacity_cfg = 2\<rparr>) (shared_s ?S) = (g, s0)"
    by (rule prod.exhaust)
  from reset_leader_blocks_key [OF r _ begin_ok_demo n g f(1) [symmetric]] r f(1) g
  show ?thesis by (intro exI [of _ ?S] exI [of _ f] exI [of _ g] exI [of _ s0] conjI) simp_all
qed

end
