(* ===== verification/Divergence.thy ===== *)
theory Divergence
  imports Storing
begin

text \<open>
  When the busy-waiting loops never end. An entry is abandoned if nobody writes to it any more
  although its counter announces more blocks than it holds (other readers may still read it): a
  reader of such an entry spins forever. A writer spins forever if the ring buffers have no
  blocks, which is what the validation of the configuration excludes.
\<close>

section \<open>Readers of an abandoned section\<close>

text \<open>Nobody writes: the content of the entry stays that of \<open>E\<close>.\<close>

definition abandoned :: "cache_entry \<Rightarrow> interference \<Rightarrow> bool" where
  "abandoned E env \<longleftrightarrow> entry_wf E \<and> 0 < entry_cap E \<and> follows (\<lambda>_. E) env"

lemma abandoned_sync:
  "abandoned E env \<Longrightarrow> same_content E (snd w) \<Longrightarrow> same_content E (snd (sync env w))"
  using sync_ok [of "\<lambda>_. E" env w] by (simp add: abandoned_def world_ok_def)

lemma same_contentD:
  assumes "same_content E e"
  shows "entry_wf e" "entry_cap e = entry_cap E" "single_buffer_blocks_capacity_m e = single_buffer_blocks_capacity_m E"
    "sec_msgs s e = sec_msgs s E" "length (sec_buffers s e) = length (sec_buffers s E)"
    "block_count s e = block_count s E"
  using assms by (simp_all add: same_content_def)

lemma busyWait_spins:
  assumes ab: "abandoned E env" and w: "same_content E (snd w)"
    and c: "read_block_count_m k < block_count sec E"
    and b: "length (sec_buffers sec E) \<le> unat (buffer_index_m k)"
  shows "busyWaitToGetNextBuffer sec env k w = None"
proof (rule ccontr)
  assume "busyWaitToGetNextBuffer sec env k w \<noteq> None"
  then obtain y where y: "busyWaitToGetNextBuffer sec env k w = Some y" by blast
  have "same_content E (snd w) \<longrightarrow> read_block_count_m k < block_count sec E \<longrightarrow>
      length (sec_buffers sec E) \<le> unat (buffer_index_m k) \<longrightarrow> abandoned E env \<longrightarrow> False"
  proof (rule busyWaitToGetNextBuffer.raw_induct [OF _ y], intro impI)
    fix f :: "sect \<Rightarrow> interference \<Rightarrow> 'a consumer \<Rightarrow> world \<Rightarrow> ('a consumer \<times> world) run" and sec env k w y
    assume IH: "\<And>sec env k w y. f sec env k w = Some y \<Longrightarrow> same_content E (snd w) \<longrightarrow>
        read_block_count_m k < block_count sec E \<longrightarrow> length (sec_buffers sec E) \<le> unat (buffer_index_m k) \<longrightarrow>
        abandoned E env \<longrightarrow> False"
      and body: "(let w1 = sync env w in if block_count sec (snd w1) \<le> read_block_count_m k then Some (Inr (k, w1))
        else let w2 = sync env w1 in if length (sec_buffers sec (snd w2)) \<le> unat (buffer_index_m k) then f sec env k w2
        else let w3 = sync env w2 in if length (sec_buffers sec (snd w3)) \<le> unat (buffer_index_m k) then Some (Inl OutOfBounds)
        else Some (Inr (k\<lparr>current_buffer_m := Some (sec, unat (buffer_index_m k))\<rparr>, w3))) = Some y"
      and p: "same_content E (snd w)" "read_block_count_m k < block_count sec E"
        "length (sec_buffers sec E) \<le> unat (buffer_index_m k)" "abandoned E env"
    note w1 = abandoned_sync [OF p(4,1)]
    note w2 = abandoned_sync [OF p(4) w1]
    have "\<not> block_count sec E \<le> read_block_count_m k" using p(2) by (simp add: not_le)
    then have "f sec env k (sync env (sync env w)) = Some y"
      using body p(3) same_contentD(6) [OF w1, of sec] same_contentD(5) [OF w2, of sec] by (simp add: Let_def)
    from IH [OF this] w2 p show False by blast
  qed
  then show False using assms by blast
qed

lemma busyWait_next:
  assumes ab: "abandoned E env" and w: "same_content E (snd w)"
    and c: "read_block_count_m k < block_count sec E"
    and b: "unat (buffer_index_m k) < length (sec_buffers sec E)"
  shows "\<exists>w'. busyWaitToGetNextBuffer sec env k w
      = Some (Inr (k\<lparr>current_buffer_m := Some (sec, unat (buffer_index_m k))\<rparr>, w')) \<and> same_content E (snd w')"
proof -
  note w1 = abandoned_sync [OF ab w]
  note w2 = abandoned_sync [OF ab w1]
  note w3 = abandoned_sync [OF ab w2]
  have "\<not> block_count sec E \<le> read_block_count_m k" using c by (simp add: not_le)
  then have "busyWaitToGetNextBuffer sec env k w
      = Some (Inr (k\<lparr>current_buffer_m := Some (sec, unat (buffer_index_m k))\<rparr>, sync env (sync env (sync env w))))"
    using b same_contentD(6) [OF w1, of sec] same_contentD(5) [OF w2, of sec] same_contentD(5) [OF w3, of sec]
    by (simp add: busyWaitToGetNextBuffer.simps [of sec env k w] Let_def)
  then show ?thesis using w3 by blast
qed

text \<open>The reader stands at message \<open>r\<close> of an abandoned section.\<close>

definition standing :: "cache_entry \<Rightarrow> sect \<Rightarrow> nat \<Rightarrow> 'h consumer \<Rightarrow> bool" where
  "standing E sec r k \<longleftrightarrow> r \<le> length (sec_msgs sec E) \<and> unat (read_block_count_m k) = r
     \<and> unat (block_index_m k) = r mod entry_cap E \<and> unat (buffer_index_m k) = r div entry_cap E
     \<and> length (data_block_c k) = BLOCK_SIZE_BYTES \<and> current_buffer_m k = Some (sec, r div entry_cap E)
     \<and> r div entry_cap E < length (sec_buffers sec E)"

lemma standing_block:
  "standing E sec r k \<Longrightarrow> same_content E e \<Longrightarrow> at_block sec (entry_cap e) r k e"
  by (simp add: standing_def at_block_def same_contentD)

lemma entry_msg_size: "entry_wf e \<Longrightarrow> m \<in> set (sec_msgs s e) \<Longrightarrow> length m \<le> BLOCK_SIZE_BYTES"
  using entry_wf_sec [of e s] by (auto simp: sec_msgs_def vec_msgs_def vec_wf_def dest: rb_msg_size)

lemma standing_counts:
  assumes st: "standing E sec r k" and r: "r < length (sec_msgs sec E)" and c: "0 < entry_cap E"
    and k': "position k' = position (load m k)" and m: "length m \<le> BLOCK_SIZE_BYTES"
    and K: "length (sec_msgs sec E) < 4294967295"
  shows "unat (read_block_count_m (advance k')) = Suc r"
    "block_index_m (advance k') = single_buffer_blocks_capacity_m E \<longleftrightarrow> Suc (r mod entry_cap E) = entry_cap E"
    "Suc (r mod entry_cap E) \<noteq> entry_cap E \<Longrightarrow> standing E sec (Suc r) (advance k')"
    "Suc (r mod entry_cap E) = entry_cap E \<Longrightarrow>
       unat (buffer_index_m (next_buffer (advance k'))) = Suc r div entry_cap E"
    "Suc (r mod entry_cap E) = entry_cap E \<Longrightarrow> Suc r div entry_cap E < length (sec_buffers sec E) \<Longrightarrow>
       standing E sec (Suc r) ((next_buffer (advance k'))\<lparr>current_buffer_m := Some (sec, Suc r div entry_cap E)\<rparr>)"
proof -
  let ?F = "\<lparr>fe_cap = single_buffer_blocks_capacity_m E, fe_msgs = (\<lambda>s. sec_msgs s E),
             fe_count = (\<lambda>s. of_nat (length (sec_msgs s E)))\<rparr>"
  show "unat (read_block_count_m (advance k')) = Suc r"
    using st r K k' by (simp add: standing_def advance_def position_def load_def u32_simps)
  have k'': "block_index_m k' = block_index_m k" "buffer_index_m k' = buffer_index_m k"
    "data_block_c k' = memcpy_at 0 m (data_block_c k)" "current_buffer_m k' = current_buffer_m k"
    "read_block_count_m k' = read_block_count_m k"
    using k' by (simp_all add: position_def load_def)
  have "r mod entry_cap E < entry_cap E" using c by simp
  then have "r mod entry_cap E < 4294967295" using unat_u32_le [of "single_buffer_blocks_capacity_m E"] by linarith
  then have bi: "unat (block_index_m (advance k')) = Suc (r mod entry_cap E)"
    using st by (simp add: advance_def k'' standing_def u32_simps)
  then show "block_index_m (advance k') = single_buffer_blocks_capacity_m E
      \<longleftrightarrow> Suc (r mod entry_cap E) = entry_cap E" by (simp add: word_unat_eq_iff)
  have "r div entry_cap E < 4294967295" using r K div_le_dividend [of r "entry_cap E"] by linarith
  then have bu: "unat (buffer_index_m (next_buffer (advance k'))) = Suc (r div entry_cap E)"
    using st by (simp add: advance_def next_buffer_def k'' standing_def u32_simps)
  show "standing E sec (Suc r) (advance k')" if "Suc (r mod entry_cap E) \<noteq> entry_cap E"
    using st r K m bi div_mod_Suc(2) [OF c that] by (simp add: standing_def advance_def k'' u32_simps)
  assume full: "Suc (r mod entry_cap E) = entry_cap E"
  note dm = div_mod_Suc(1) [OF c full]
  show "unat (buffer_index_m (next_buffer (advance k'))) = Suc r div entry_cap E" using bu dm by simp
  show "standing E sec (Suc r) ((next_buffer (advance k'))\<lparr>current_buffer_m := Some (sec, Suc r div entry_cap E)\<rparr>)"
    if "Suc r div entry_cap E < length (sec_buffers sec E)"
    using that st r K m bu dm by (simp add: standing_def advance_def next_buffer_def k'' u32_simps)
qed


text \<open>What the automaton needs to accept the messages of the section from \<open>r\<close> on.\<close>

definition accepts :: "('d \<Rightarrow> bytes \<Rightarrow> fault + ('d \<times> 'e list)) \<Rightarrow> 'd \<Rightarrow> bytes list \<Rightarrow> bool" where
  "accepts step d ms \<longleftrightarrow> (\<exists>r. decode step d ms = Inr r)"

lemma accepts_Cons: "accepts step d (m # ms) \<longleftrightarrow> (\<exists>d1 evs. step d m = Inr (d1, evs) \<and> accepts step d1 ms)"
  by (fastforce simp: accepts_def bindR_Inr_iff)

context block_parser
begin

text \<open>One round of the loop on an abandoned section goes on to another round.\<close>

lemma spin_message:
  assumes ab: "abandoned E env" and e: "same_content E e" and st: "standing E sec r k"
    and acc: "accepts step (view k) (drop r (sec_msgs sec E))" and r: "r < length (sec_msgs sec E)"
  shows "\<exists>k' evs e'. readBlock k e = Inr (True, load (sec_msgs sec E ! r) k, e') \<and> same_content E e'
    \<and> parse (load (sec_msgs sec E ! r) k) = Inr (k', evs) \<and> position k' = position (load (sec_msgs sec E ! r) k)
    \<and> accepts step (view k') (drop (Suc r) (sec_msgs sec E)) \<and> length (sec_msgs sec E ! r) \<le> BLOCK_SIZE_BYTES"
proof -
  let ?m = "sec_msgs sec E ! r"
  have E: "entry_wf E" "0 < entry_cap E" using ab by (simp_all add: abandoned_def)
  have m: "length ?m \<le> BLOCK_SIZE_BYTES" using entry_msg_size [OF E(1) nth_mem [OF r]] .
  have "drop r (sec_msgs sec E) = ?m # drop (Suc r) (sec_msgs sec E)" using r by (simp add: Cons_nth_drop_Suc)
  then obtain d evs where d: "step (view k) ?m = Inr (d, evs)" "accepts step d (drop (Suc r) (sec_msgs sec E))"
    using acc by (auto simp: accepts_Cons)
  have "length (data_block_c k) = BLOCK_SIZE_BYTES" using st by (simp add: standing_def)
  from parse_load [OF this m d(1)] obtain k' where "parse (load ?m k) = Inr (k', evs)" "view k' = d"
    "position k' = position (load ?m k)" by blast
  moreover have "0 < entry_cap e" "r < length (sec_msgs sec e)" using E r same_contentD [OF e] by simp_all
  then obtain e' where "readBlock k e = Inr (True, load ?m k, e')" "same_content e e'"
    using readBlock_ok [OF standing_block [OF st e] same_contentD(1) [OF e]] same_contentD(4) [OF e] by auto
  ultimately show ?thesis using d m same_content_trans [OF e] by blast
qed

lemma serve_loop_spins:
  assumes ab: "abandoned E env" and w: "same_content E (snd w)" and st: "standing E sec r k"
    and c: "length (sec_msgs sec E) < unat (block_count sec E)"
    and acc: "accepts step (view k) (drop r (sec_msgs sec E))"
  shows "serve_loop sec parse env k w out = None"
proof (rule ccontr)
  assume "serve_loop sec parse env k w out \<noteq> None"
  then obtain y where y: "serve_loop sec parse env k w out = Some y" by blast
  let ?P = "\<lambda>s p env' k w. s = sec \<longrightarrow> p = parse \<longrightarrow> env' = env \<longrightarrow> same_content E (snd w) \<longrightarrow>
    (\<forall>r. standing E sec r k \<longrightarrow> accepts step (view k) (drop r (sec_msgs sec E)) \<longrightarrow> False)"
  have "?P sec parse env k w"
  proof (rule serve_loop.raw_induct [where P = "\<lambda>s p env' k w out y. ?P s p env' k w", OF _ y], intro impI allI)
    fix f s p env' k w out y r
    assume IH: "\<And>s p env' k w out y. f s p env' k w out = Some y \<Longrightarrow> ?P s p env' k w"
      and eqs: "s = sec" "p = parse" "env' = env"
      and w: "same_content E (snd w)" and st: "standing E sec r k"
      and acc: "accepts step (view k) (drop r (sec_msgs sec E))"
      and body: "(let w1 = sync env' w in if read_block_count_m k < block_count s (snd w1) then
          let w2 = sync env' w1
          in (case readBlock k (snd w2) of
                Inl f \<Rightarrow> Some (Inl f)
              | Inr (ok, c1, e1) \<Rightarrow>
                  if ok then
                    (case p c1 of
                       Inl f \<Rightarrow> Some (Inl f)
                     | Inr (c2, evs) \<Rightarrow>
                         let c3 = c2\<lparr>read_block_count_m := read_block_count_m c2 + 1,
                                     block_index_m := block_index_m c2 + 1\<rparr>
                         in if block_index_m c3 = single_buffer_blocks_capacity_m e1 then
                              (case busyWaitToGetNextBuffer s env'
                                      (c3\<lparr>block_index_m := 0, buffer_index_m := buffer_index_m c3 + 1\<rparr>)
                                      (fst w2, e1) of
                                 None \<Rightarrow> None
                               | Some r \<Rightarrow>
                                   (case r of
                                      Inl f \<Rightarrow> Some (Inl f)
                                    | Inr (c4, w4) \<Rightarrow> f s p env' c4 w4 (out @ evs)))
                            else f s p env' c3 (fst w2, e1) (out @ evs))
                  else f s p env' c1 (fst w2, e1) out)
        else Some (Inr (k, w1, out))) = Some y"
    define w1 where "w1 = sync env w"
    define w2 where "w2 = sync env w1"
    have w1: "same_content E (snd w1)" using abandoned_sync [OF ab w] by (simp add: w1_def)
    have w2: "same_content E (snd w2)" using abandoned_sync [OF ab w1] by (simp add: w2_def)
    have K: "length (sec_msgs sec E) < 4294967295" using c unat_u32_le [of "block_count sec E"] by linarith
    have "unat (read_block_count_m k) < unat (block_count sec E)" using st c by (simp add: standing_def)
    then have go: "read_block_count_m k < block_count sec (snd w1)"
      using same_contentD(6) [OF w1, of sec] by (simp add: word_less_nat_alt)
    note body' = body [unfolded eqs Let_def, folded w1_def, folded w2_def]
    have E: "0 < entry_cap E" using ab by (simp add: abandoned_def)
    show False
    proof (cases "r < length (sec_msgs sec E)")
      case False
      then have "readBlock k (snd w2) = Inr (False, k, snd w2)"
        using readBlock_absent [OF standing_block [OF st w2] same_contentD(1) [OF w2]] E same_contentD [OF w2] by simp
      then have "f sec parse env k w2 out = Some y" using body' go by simp
      then show False using IH w2 st acc by blast
    next
      case True
      from spin_message [OF ab w2 st acc True] obtain k1 evs e1 where
        rd: "readBlock k (snd w2) = Inr (True, load (sec_msgs sec E ! r) k, e1)" "same_content E e1"
        and k1: "parse (load (sec_msgs sec E ! r) k) = Inr (k1, evs)"
          "position k1 = position (load (sec_msgs sec E ! r) k)"
          "accepts step (view k1) (drop (Suc r) (sec_msgs sec E))" "length (sec_msgs sec E ! r) \<le> BLOCK_SIZE_BYTES"
        by blast
      note sc = standing_counts [OF st True E k1(2,4) K]
      have body2: "(if block_index_m (advance k1) = single_buffer_blocks_capacity_m E then
            (case busyWaitToGetNextBuffer sec env (next_buffer (advance k1)) (fst w2, e1) of
               None \<Rightarrow> None
             | Some r \<Rightarrow> (case r of Inl f \<Rightarrow> Some (Inl f) | Inr (c4, w4) \<Rightarrow> f sec parse env c4 w4 (out @ evs)))
          else f sec parse env (advance k1) (fst w2, e1) (out @ evs)) = Some y"
        using body' go rd k1(1) same_contentD(3) [OF rd(2)]
        by (simp add: advance_def next_buffer_def cong: if_cong)
      show False
      proof (cases "Suc (r mod entry_cap E) = entry_cap E")
        case False
        then have "f sec parse env (advance k1) (fst w2, e1) (out @ evs) = Some y" using body2 sc(2) by simp
        then show False using IH rd(2) sc(3) [OF False] k1(3) by fastforce
      next
        case full: True
        let ?k2 = "next_buffer (advance k1)"
        have rc: "read_block_count_m ?k2 < block_count sec E"
          using sc(1) True c by (simp add: word_less_nat_alt next_buffer_def)
        show False
        proof (cases "Suc r div entry_cap E < length (sec_buffers sec E)")
          case next_there: True
          obtain w3 where "busyWaitToGetNextBuffer sec env ?k2 (fst w2, e1)
              = Some (Inr (?k2\<lparr>current_buffer_m := Some (sec, Suc r div entry_cap E)\<rparr>, w3))" "same_content E (snd w3)"
            using busyWait_next [OF ab _ rc, of "(fst w2, e1)"] rd(2) sc(4) [OF full] next_there by auto
          moreover from this have "f sec parse env (?k2\<lparr>current_buffer_m := Some (sec, Suc r div entry_cap E)\<rparr>) w3 (out @ evs) = Some y"
            using body2 sc(2) full by simp
          ultimately show False using IH sc(5) [OF full next_there] k1(3) by (fastforce simp: view_simps)
        next
          case False
          then have "busyWaitToGetNextBuffer sec env ?k2 (fst w2, e1) = None"
            using busyWait_spins [OF ab _ rc, of "(fst w2, e1)"] rd(2) sc(4) [OF full] by simp
          then show False using body2 sc(2) full by simp
        qed
      qed
    qed
  qed
  then show False using assms by blast
qed

end


section \<open>Readers of an abandoned entry\<close>

lemma accepts_append: "accepts step d (ms @ ns) \<Longrightarrow> accepts step d ms"
  by (auto simp: accepts_def decode_append bindR_Inr_iff)

lemma accepts_prefix: "prefix ms ns \<Longrightarrow> accepts step d ns \<Longrightarrow> accepts step d ms"
  by (auto simp: prefix_def dest: accepts_append)

definition fresh_map :: "'h envoy_api \<Rightarrow> 'h map_decoder" where
  "fresh_map api = \<lparr>key_len = 0, key_done = False, key_val = [], cur_map = Some (hm_create api), map_ended = False\<rparr>"

definition fresh_data :: data_decoder where
  "fresh_data = \<lparr>batch_done = False, pending = [], data_ended = False\<rparr>"

lemma accepts_map: "entries_ok kvs \<Longrightarrow> accepts (header_step api) (fresh_map api) (enc_map kvs fin)"
  using decode_map [of "fresh_map api" "hm_create api" kvs api EncodeHeaders fin]
  by (simp add: accepts_def fresh_map_def map_idle_def)

lemma accepts_body:
  "drains api \<Longrightarrow> \<forall>d \<in> set ds. length d \<le> enc_limit \<Longrightarrow> accepts (data_step api) fresh_data (enc_body ds fin)"
  using decode_body_pieces [of api ds fresh_data fin] by (simp add: accepts_def fresh_data_def)

lemma standing_start:
  assumes "unat (read_block_count_m k) = 0" and "unat (block_index_m k) = 0" and "unat (buffer_index_m k) = 0"
    and "length (data_block_c k) = BLOCK_SIZE_BYTES" and "0 < length (sec_buffers sec E)"
  shows "standing E sec 0 (k\<lparr>current_buffer_m := Some (sec, 0)\<rparr>)"
  using assms by (simp add: standing_def)

lemma serveHeaders_spins:
  assumes ab: "abandoned E env" and w: "same_content E (snd w)" and k: "consumer_idle k"
    and c: "length (sec_msgs HeadersSec E) < unat (block_count HeadersSec E)"
    and acc: "accepts (header_step api) (fresh_map api) (sec_msgs HeadersSec E)"
  shows "serveHeaders api end_block env k w = None"
proof -
  let ?k = "k\<lparr>read_block_count_m := 0, block_index_m := 0, buffer_index_m := 0,
              end_stream_m := False, headers_m := Some (hm_create api)\<rparr>"
  have rc: "read_block_count_m ?k < block_count HeadersSec E" using c by (simp add: word_less_nat_alt)
  show ?thesis
  proof (cases "sec_buffers HeadersSec E = []")
    case True
    then have "busyWaitToGetNextBuffer HeadersSec env ?k w = None"
      by (intro busyWait_spins [OF ab w rc]) simp
    then show ?thesis by (simp add: serveHeaders_def busyWaitToGetNextHeadersBuffer_def Let_def)
  next
    case False
    let ?k1 = "?k\<lparr>current_buffer_m := Some (HeadersSec, 0)\<rparr>"
    obtain w1 where bw: "busyWaitToGetNextBuffer HeadersSec env ?k w = Some (Inr (?k1, w1))"
      and w1: "same_content E (snd w1)"
      using busyWait_next [OF ab w rc] False by auto
    have "standing E HeadersSec 0 ?k1"
      using False k by (intro standing_start) (simp_all add: consumer_idle_def)
    moreover have "header_view ?k1 = fresh_map api"
      using k by (simp add: header_view_def fresh_map_def consumer_idle_def)
    ultimately have "serve_loop HeadersSec (parseAndEncodeHeaders api end_block) env ?k1 w1 [] = None"
      using hp.serve_loop_spins [OF ab w1 _ c, of 0 ?k1] acc by simp
    with bw show ?thesis by (simp add: serveHeaders_def busyWaitToGetNextHeadersBuffer_def Let_def)
  qed
qed

lemma serveData_spins:
  assumes ab: "abandoned E env" and w: "same_content E (snd w)" and k: "consumer_idle k" "\<not> end_stream_m k"
    and c: "length (sec_msgs DataSec E) < unat (block_count DataSec E)"
    and acc: "accepts (data_step api) fresh_data (sec_msgs DataSec E)"
  shows "serveData api end_block env k w = None"
proof -
  let ?k = "k\<lparr>read_block_count_m := 0, block_index_m := 0, buffer_index_m := 0\<rparr>"
  have rc: "read_block_count_m ?k < block_count DataSec E" using c by (simp add: word_less_nat_alt)
  show ?thesis
  proof (cases "sec_buffers DataSec E = []")
    case True
    then have "busyWaitToGetNextBuffer DataSec env ?k w = None"
      by (intro busyWait_spins [OF ab w rc]) simp
    then show ?thesis by (simp add: serveData_def busyWaitToGetNextDataBuffer_def Let_def)
  next
    case False
    let ?k1 = "?k\<lparr>current_buffer_m := Some (DataSec, 0)\<rparr>"
    obtain w1 where bw: "busyWaitToGetNextBuffer DataSec env ?k w = Some (Inr (?k1, w1))"
      and w1: "same_content E (snd w1)"
      using busyWait_next [OF ab w rc] False by auto
    have "standing E DataSec 0 ?k1"
      using False k by (intro standing_start) (simp_all add: consumer_idle_def)
    moreover have "data_view ?k1 = fresh_data"
      using k by (simp add: data_view_def fresh_data_def consumer_idle_def)
    ultimately have "serve_loop DataSec (parseAndEncodeData api end_block) env ?k1 w1 [] = None"
      using dp.serve_loop_spins [OF ab w1 _ c, of 0 ?k1] acc by simp
    with bw show ?thesis by (simp add: serveData_def busyWaitToGetNextDataBuffer_def Let_def)
  qed
qed

section \<open>Readers of abandoned trailers\<close>

text \<open>The trailers have no counter: the loop goes on until the end-of-stream block, which is never written.\<close>

lemma busyWait_trailers_spins:
  assumes ab: "abandoned E env" and w: "same_content E (snd w)"
    and b: "length (sec_buffers TrailersSec E) \<le> unat (buffer_index_m k)"
  shows "busyWaitToGetNextTrailersBuffer env k w = None"
proof (rule ccontr)
  assume "busyWaitToGetNextTrailersBuffer env k w \<noteq> None"
  then obtain y where y: "busyWaitToGetNextTrailersBuffer env k w = Some y" by blast
  have "same_content E (snd w) \<longrightarrow> length (sec_buffers TrailersSec E) \<le> unat (buffer_index_m k) \<longrightarrow> abandoned E env \<longrightarrow> False"
  proof (rule busyWaitToGetNextTrailersBuffer.raw_induct [OF _ y], intro impI)
    fix f :: "interference \<Rightarrow> 'a consumer \<Rightarrow> world \<Rightarrow> ('a consumer \<times> world) run" and env k w y
    assume IH: "\<And>env k w y. f env k w = Some y \<Longrightarrow> same_content E (snd w) \<longrightarrow>
        length (sec_buffers TrailersSec E) \<le> unat (buffer_index_m k) \<longrightarrow> abandoned E env \<longrightarrow> False"
      and body: "(let w1 = sync env w in if length (sec_buffers TrailersSec (snd w1)) \<le> unat (buffer_index_m k) then f env k w1
        else let w2 = sync env w1 in if length (sec_buffers TrailersSec (snd w2)) \<le> unat (buffer_index_m k) then Some (Inl OutOfBounds)
        else Some (Inr (k\<lparr>current_buffer_m := Some (TrailersSec, unat (buffer_index_m k))\<rparr>, w2))) = Some y"
      and p: "same_content E (snd w)" "length (sec_buffers TrailersSec E) \<le> unat (buffer_index_m k)" "abandoned E env"
    note w1 = abandoned_sync [OF p(3,1)]
    have "f env k (sync env w) = Some y"
      using body p(2) same_contentD(5) [OF w1, of TrailersSec] by (simp add: Let_def)
    from IH [OF this] w1 p show False by blast
  qed
  then show False using assms by blast
qed

lemma busyWait_trailers_next:
  assumes ab: "abandoned E env" and w: "same_content E (snd w)"
    and b: "unat (buffer_index_m k) < length (sec_buffers TrailersSec E)"
  shows "\<exists>w'. busyWaitToGetNextTrailersBuffer env k w
      = Some (Inr (k\<lparr>current_buffer_m := Some (TrailersSec, unat (buffer_index_m k))\<rparr>, w')) \<and> same_content E (snd w')"
proof -
  note w1 = abandoned_sync [OF ab w]
  note w2 = abandoned_sync [OF ab w1]
  have "busyWaitToGetNextTrailersBuffer env k w
      = Some (Inr (k\<lparr>current_buffer_m := Some (TrailersSec, unat (buffer_index_m k))\<rparr>, sync env (sync env w)))"
    using b same_contentD(5) [OF w1, of TrailersSec] same_contentD(5) [OF w2, of TrailersSec]
    by (simp add: busyWaitToGetNextTrailersBuffer.simps [of env k w] Let_def)
  then show ?thesis using w2 by blast
qed

definition standing_trailers :: "cache_entry \<Rightarrow> nat \<Rightarrow> 'h consumer \<Rightarrow> bool" where
  "standing_trailers E r k \<longleftrightarrow> r \<le> length (sec_msgs TrailersSec E)
     \<and> unat (buffer_index_m k) = r div entry_cap E \<and> at_block TrailersSec (entry_cap E) r k E"

lemma standing_trailers_block:
  "standing_trailers E r k \<Longrightarrow> same_content E e \<Longrightarrow> at_block TrailersSec (entry_cap e) r k e"
  using same_contentD(5) [of E e TrailersSec] by (simp add: standing_trailers_def at_block_def same_contentD)

lemma standing_trailers_advance:
  assumes st: "standing_trailers E r k" and r: "r < length (sec_msgs TrailersSec E)" and c: "0 < entry_cap E"
    and k': "position k' = position (load m k)" and m: "length m \<le> BLOCK_SIZE_BYTES"
    and K: "length (sec_msgs TrailersSec E) < 4294967295"
  shows "block_index_m (advance_trailer k') = single_buffer_blocks_capacity_m E \<longleftrightarrow> Suc (r mod entry_cap E) = entry_cap E"
    "Suc (r mod entry_cap E) \<noteq> entry_cap E \<Longrightarrow> standing_trailers E (Suc r) (advance_trailer k')"
    "Suc (r mod entry_cap E) = entry_cap E \<Longrightarrow>
       unat (buffer_index_m (next_buffer (advance_trailer k'))) = Suc r div entry_cap E"
    "Suc (r mod entry_cap E) = entry_cap E \<Longrightarrow> Suc r div entry_cap E < length (sec_buffers TrailersSec E) \<Longrightarrow>
       standing_trailers E (Suc r) ((next_buffer (advance_trailer k'))\<lparr>current_buffer_m := Some (TrailersSec, Suc r div entry_cap E)\<rparr>)"
proof -
  have k: "unat (block_index_m k) = r mod entry_cap E" "unat (buffer_index_m k) = r div entry_cap E"
    "length (data_block_c k) = BLOCK_SIZE_BYTES" "r div entry_cap E < length (sec_buffers TrailersSec E)"
    "current_buffer_m k = Some (TrailersSec, r div entry_cap E)"
    using st by (simp_all add: standing_trailers_def at_block_def)
  have k'': "block_index_m k' = block_index_m k" "buffer_index_m k' = buffer_index_m k"
    "data_block_c k' = memcpy_at 0 m (data_block_c k)" "current_buffer_m k' = current_buffer_m k"
    using k' by (simp_all add: position_def load_def)
  have "r mod entry_cap E < entry_cap E" using c by simp
  then have "r mod entry_cap E < 4294967295" using unat_u32_le [of "single_buffer_blocks_capacity_m E"] by linarith
  then have bi: "unat (block_index_m (advance_trailer k')) = Suc (r mod entry_cap E)"
    by (simp add: advance_trailer_def k'' k u32_simps)
  then show "block_index_m (advance_trailer k') = single_buffer_blocks_capacity_m E
      \<longleftrightarrow> Suc (r mod entry_cap E) = entry_cap E" by (simp add: word_unat_eq_iff)
  have "r div entry_cap E < 4294967295" using r K div_le_dividend [of r "entry_cap E"] by linarith
  then have bu: "unat (buffer_index_m (next_buffer (advance_trailer k'))) = Suc (r div entry_cap E)"
    by (simp add: advance_trailer_def next_buffer_def k'' k u32_simps)
  show "standing_trailers E (Suc r) (advance_trailer k')" if "Suc (r mod entry_cap E) \<noteq> entry_cap E"
    using r bi k m div_mod_Suc(2) [OF c that]
    by (simp add: standing_trailers_def at_block_def) (simp add: advance_trailer_def k'')
  assume full: "Suc (r mod entry_cap E) = entry_cap E"
  note dm = div_mod_Suc(1) [OF c full]
  show "unat (buffer_index_m (next_buffer (advance_trailer k'))) = Suc r div entry_cap E" using bu dm by simp
  show "standing_trailers E (Suc r) ((next_buffer (advance_trailer k'))\<lparr>current_buffer_m := Some (TrailersSec, Suc r div entry_cap E)\<rparr>)"
    if "Suc r div entry_cap E < length (sec_buffers TrailersSec E)"
    using that r m bu dm k by (simp add: standing_trailers_def at_block_def) (simp add: advance_trailer_def next_buffer_def k'')
qed

lemma serveTrailers_loop_spins:
  assumes ab: "abandoned E env" and w: "same_content E (snd w)" and st: "standing_trailers E r k"
    and K: "length (sec_msgs TrailersSec E) < 4294967295"
    and un: "decode_until map_ended (trailer_step api) (trailer_view k) (drop r (sec_msgs TrailersSec E)) = None"
  shows "serveTrailers_loop api end_block env k w out = None"
proof (rule ccontr)
  assume "serveTrailers_loop api end_block env k w out \<noteq> None"
  then obtain y where y: "serveTrailers_loop api end_block env k w out = Some y" by blast
  let ?M = "sec_msgs TrailersSec E"
  let ?P = "\<lambda>api' ones env' k w. api' = api \<longrightarrow> ones = end_block \<longrightarrow> env' = env \<longrightarrow> same_content E (snd w) \<longrightarrow>
    (\<forall>r. standing_trailers E r k \<longrightarrow>
       decode_until map_ended (trailer_step api) (trailer_view k) (drop r ?M) = None \<longrightarrow> False)"
  have "?P api end_block env k w"
  proof (rule serveTrailers_loop.raw_induct [where P = "\<lambda>a b env' k w out y. ?P a b env' k w", OF _ y], intro impI allI)
    fix f a b env' k w out y r
    assume IH: "\<And>a b env' k w out y. f a b env' k w out = Some y \<Longrightarrow> ?P a b env' k w"
      and eqs: "a = api" "b = end_block" "env' = env"
      and w: "same_content E (snd w)" and st: "standing_trailers E r k"
      and un: "decode_until map_ended (trailer_step api) (trailer_view k) (drop r ?M) = None"
      and body: "(let w2 = sync env' w in (case readBlock k (snd w2) of
           Inl f \<Rightarrow> Some (Inl f)
         | Inr (ok, c1, e1) \<Rightarrow>
             if ok then
               (case parseAndEncodeTrailers a b c1 of
                  Inl f \<Rightarrow> Some (Inl f)
                | Inr (c2, evs) \<Rightarrow>
                    if end_stream_m c2 then Some (Inr (c2, (fst w2, e1), out @ evs))
                    else
                      let c3 = c2\<lparr>block_index_m := block_index_m c2 + 1\<rparr>
                      in if block_index_m c3 = single_buffer_blocks_capacity_m e1 then
                           (case busyWaitToGetNextTrailersBuffer env'
                                   (c3\<lparr>block_index_m := 0, buffer_index_m := buffer_index_m c3 + 1\<rparr>)
                                   (fst w2, e1) of
                              None \<Rightarrow> None
                            | Some r \<Rightarrow>
                                (case r of
                                   Inl f \<Rightarrow> Some (Inl f)
                                 | Inr (c4, w4) \<Rightarrow> f a b env' c4 w4 (out @ evs)))
                         else f a b env' c3 (fst w2, e1) (out @ evs))
             else f a b env' c1 (fst w2, e1) out)) = Some y"
    define w2 where "w2 = sync env w"
    have w2: "same_content E (snd w2)" using abandoned_sync [OF ab w] by (simp add: w2_def)
    note body' = body [unfolded eqs Let_def, folded w2_def]
    have E: "entry_wf E" "0 < entry_cap E" using ab by (simp_all add: abandoned_def)
    note e2 = same_contentD [OF w2]
    have blk: "at_block TrailersSec (entry_cap (snd w2)) r k (snd w2)" by (rule standing_trailers_block [OF st w2])
    show False
    proof (cases "r < length ?M")
      case False
      then have "readBlock k (snd w2) = Inr (False, k, snd w2)"
        using readBlock_absent [OF blk e2(1)] E e2(2,4) by simp
      then have "f api end_block env k w2 out = Some y" using body' by simp
      then show False using IH w2 st un by blast
    next
      case True
      let ?m = "?M ! r"
      have m: "length ?m \<le> BLOCK_SIZE_BYTES" using entry_msg_size [OF E(1) nth_mem [OF True]] .
      obtain e1 where rd: "readBlock k (snd w2) = Inr (True, load ?m k, e1)" and c1: "same_content (snd w2) e1"
        using readBlock_ok [OF blk e2(1)] E True e2(2,4) by auto
      have e1: "same_content E (snd (fst w2, e1))" using same_content_trans [OF w2 c1] by simp
      have dr: "drop r ?M = ?m # drop (Suc r) ?M" using True by (simp add: Cons_nth_drop_Suc)
      obtain d evs where st1: "trailer_step api (trailer_view k) ?m = Inr (d, evs)" and nd: "\<not> map_ended d"
        and un1: "decode_until map_ended (trailer_step api) d (drop (Suc r) ?M) = None"
        using un unfolding dr by (fastforce simp: bindRun_def split: sum.splits if_splits option.splits)
      obtain k1 where k1: "parseAndEncodeTrailers api end_block (load ?m k) = Inr (k1, evs)" "trailer_view k1 = d"
        "position k1 = position (load ?m k)"
        using tp.parse_load [OF _ m st1] blk by (auto simp: at_block_def)
      have open1: "\<not> end_stream_m k1" using k1(2) nd by (auto simp: trailer_view_def)
      note sc = standing_trailers_advance [OF st True E(2) k1(3) m K]
      have vw: "trailer_view (advance_trailer k1) = d" "trailer_view ((next_buffer (advance_trailer k1))\<lparr>current_buffer_m := q\<rparr>) = d" for q
        using k1(2) by (simp_all add: advance_trailer_def next_buffer_def tp.view_simps)
      have body2: "(if block_index_m (advance_trailer k1) = single_buffer_blocks_capacity_m E then
            (case busyWaitToGetNextTrailersBuffer env (next_buffer (advance_trailer k1)) (fst w2, e1) of
               None \<Rightarrow> None
             | Some r \<Rightarrow> (case r of Inl f \<Rightarrow> Some (Inl f) | Inr (c4, w4) \<Rightarrow> f api end_block env c4 w4 (out @ evs)))
          else f api end_block env (advance_trailer k1) (fst w2, e1) (out @ evs)) = Some y"
        using body' rd k1(1) open1 same_contentD(3) [OF e1]
        by (simp add: advance_trailer_def next_buffer_def cong: if_cong)
      show False
      proof (cases "Suc (r mod entry_cap E) = entry_cap E")
        case False
        then have "f api end_block env (advance_trailer k1) (fst w2, e1) (out @ evs) = Some y" using body2 sc(1) by simp
        then show False using IH e1 sc(2) [OF False] un1 vw(1) by metis
      next
        case full: True
        show False
        proof (cases "Suc r div entry_cap E < length (sec_buffers TrailersSec E)")
          case next_there: True
          obtain w3 where "busyWaitToGetNextTrailersBuffer env (next_buffer (advance_trailer k1)) (fst w2, e1)
              = Some (Inr ((next_buffer (advance_trailer k1))\<lparr>current_buffer_m := Some (TrailersSec, Suc r div entry_cap E)\<rparr>, w3))"
            and w3: "same_content E (snd w3)"
            using busyWait_trailers_next [OF ab e1, of "next_buffer (advance_trailer k1)"] sc(3) [OF full] next_there by auto
          then have "f api end_block env ((next_buffer (advance_trailer k1))\<lparr>current_buffer_m :=
              Some (TrailersSec, Suc r div entry_cap E)\<rparr>) w3 (out @ evs) = Some y"
            using body2 sc(1) full by simp
          then show False using IH w3 sc(4) [OF full next_there] un1 vw(2) by metis
        next
          case False
          then have "busyWaitToGetNextTrailersBuffer env (next_buffer (advance_trailer k1)) (fst w2, e1) = None"
            using sc(3) [OF full] by (intro busyWait_trailers_spins [OF ab e1]) simp
          then show False using body2 sc(1) full by simp
        qed
      qed
    qed
  qed
  then show False using assms by blast
qed

lemma serveTrailers_spins:
  assumes ab: "abandoned E env" and w: "same_content E (snd w)" and k: "consumer_idle k" "\<not> end_stream_m k"
    and K: "length (sec_msgs TrailersSec E) < 4294967295"
    and un: "decode_until map_ended (trailer_step api) (fresh_map api) (sec_msgs TrailersSec E) = None"
  shows "serveTrailers api end_block env k w = None"
proof -
  let ?k = "k\<lparr>block_index_m := 0, buffer_index_m := 0, trailers_m := Some (hm_create api)\<rparr>"
  show ?thesis
  proof (cases "sec_buffers TrailersSec E = []")
    case True
    then have "busyWaitToGetNextTrailersBuffer env ?k w = None" by (intro busyWait_trailers_spins [OF ab w]) simp
    then show ?thesis by (simp add: serveTrailers_def Let_def)
  next
    case False
    let ?k1 = "?k\<lparr>current_buffer_m := Some (TrailersSec, 0)\<rparr>"
    obtain w1 where bw: "busyWaitToGetNextTrailersBuffer env ?k w = Some (Inr (?k1, w1))"
      and w1: "same_content E (snd w1)"
      using busyWait_trailers_next [OF ab w, of ?k] False by auto
    have "standing_trailers E 0 ?k1"
      using False k by (simp add: standing_trailers_def at_block_def consumer_idle_def)
    moreover have "trailer_view ?k1 = fresh_map api"
      using k by (simp add: trailer_view_def fresh_map_def consumer_idle_def)
    ultimately have "serveTrailers_loop api end_block env ?k1 w1 [] = None"
      using serveTrailers_loop_spins [OF ab w1 _ K, of 0 ?k1] un by simp
    with bw show ?thesis by (simp add: serveTrailers_def Let_def)
  qed
qed

lemma decode_until_prefix:
  "prefix ms ns \<Longrightarrow> decode_until stop step d ns = None \<Longrightarrow> decode_until stop step d ms = None"
proof (induction ms arbitrary: d ns)
  case (Cons m ms)
  then obtain ns' where ns: "ns = m # ns'" "prefix ms ns'" by (cases ns) auto
  with Cons.prems(2) obtain d1 evs where d: "step d m = Inr (d1, evs)" "\<not> stop d1" "decode_until stop step d1 ns' = None"
    by (fastforce simp: bindRun_def split: sum.splits if_splits option.splits)
  from Cons.IH [OF ns(2) d(3)] d show ?case by (simp add: bindRun_def)
qed simp

text \<open>The trailers alone, without the end-of-stream block, do not end the loop.\<close>

lemma trailers_unended:
  assumes "entries_ok kvs"
  shows "decode_until map_ended (trailer_step api) (fresh_map api) (enc_map kvs False) = None"
proof -
  have "decode (trailer_step api) (fresh_map api) (enc_map kvs False)
      = Inr ((fresh_map api)\<lparr>cur_map := Some (hm_create api)\<rparr>, [EncodeTrailers (hm_add_all api kvs (hm_create api))])"
    using decode_map [of "fresh_map api" "hm_create api" kvs api "\<lambda>t _. EncodeTrailers t" False] assms
    by (simp add: fresh_map_def map_idle_def)
  from decode_until_append [of "trailer_step api" map_ended, OF _ this, of "[]"] map_ended_mono
  show ?thesis by (fastforce simp: fresh_map_def bindRun_def)
qed

text \<open>An entry as its own final state.\<close>

definition final_of :: "cache_entry \<Rightarrow> final_entry" where
  "final_of E = \<lparr>fe_cap = single_buffer_blocks_capacity_m E, fe_msgs = (\<lambda>s. sec_msgs s E),
     fe_count = (\<lambda>s. block_count s E)\<rparr>"

lemma abandoned_schedule: "abandoned E env \<Longrightarrow> schedule (final_of E) 0 (\<lambda>_. E) \<and> follows (\<lambda>_. E) env"
  by (simp add: abandoned_def schedule_def final_of_def partial_of_def complete_of_def entry_le_def)

section \<open>A response that is never completed\<close>

lemma spec_count_unset:
  assumes "OpComplete \<notin> set ops"
  shows "OpHeadersDone \<notin> set ops \<Longrightarrow> w_count (spec_ops api ops w) HeadersSec = w_count w HeadersSec"
    "OpDataDone \<notin> set ops \<Longrightarrow> w_count (spec_ops api ops w) DataSec = w_count w DataSec"
proof -
  have step: "op \<noteq> OpComplete \<Longrightarrow> op \<noteq> OpHeadersDone \<Longrightarrow> w_count (spec_op api op w) HeadersSec = w_count w HeadersSec"
    "op \<noteq> OpComplete \<Longrightarrow> op \<noteq> OpDataDone \<Longrightarrow> w_count (spec_op api op w) DataSec = w_count w DataSec" for op w
    by (cases op; simp add: publish_def)+
  show "OpHeadersDone \<notin> set ops \<Longrightarrow> w_count (spec_ops api ops w) HeadersSec = w_count w HeadersSec"
    using assms by (induction ops arbitrary: w) (auto simp: step)
  show "OpDataDone \<notin> set ops \<Longrightarrow> w_count (spec_ops api ops w) DataSec = w_count w DataSec"
    using assms by (induction ops arbitrary: w) (auto simp: step)
qed

lemma body_ops_only_data: "op \<in> set (body_ops ds fin) \<Longrightarrow> \<exists>d b. op = OpData d b"
  by (induction ds) auto

definition front_ops :: "'h response \<Rightarrow> 'h write_op list" where
  "front_ops resp = OpHeaders (resp_headers resp) (headers_only resp)
     # (if resp_body resp = [] then [] else OpHeadersDone # body_ops (resp_body resp) (resp_trailers resp = None))"

lemma response_ops_front:
  "resp_trailers resp = None \<Longrightarrow> response_ops resp = front_ops resp @ [OpComplete]"
  "resp_trailers resp = Some t \<Longrightarrow> response_ops resp = front_ops resp @ [OpDataDone, OpTrailers t, OpComplete]"
  by (simp_all add: response_ops_def front_ops_def)

lemma front_ops_set:
  "OpComplete \<notin> set (front_ops resp)" "OpDataDone \<notin> set (front_ops resp)"
  "headers_only resp \<Longrightarrow> OpHeadersDone \<notin> set (front_ops resp)"
  by (auto simp: front_ops_def headers_only_def dest!: body_ops_only_data)

lemma incomplete_ops:
  assumes "k < length (response_ops resp)"
  shows "OpComplete \<notin> set (take k (response_ops resp))"
    "headers_only resp \<Longrightarrow> OpHeadersDone \<notin> set (take k (response_ops resp))"
    "k \<le> length (front_ops resp) \<Longrightarrow> OpDataDone \<notin> set (take k (response_ops resp))"
proof -
  obtain xs where xs: "response_ops resp = front_ops resp @ xs @ [OpComplete]" "set xs \<inter> {OpComplete, OpHeadersDone} = {}"
    by (cases "resp_trailers resp") (auto simp: response_ops_front intro: that [of "[]"] that [of "[OpDataDone, OpTrailers _]"])
  have sub: "set (take k (response_ops resp)) \<subseteq> set (front_ops resp @ xs)"
    using assms by (auto simp: xs(1) dest: in_set_takeD)
  then show "OpComplete \<notin> set (take k (response_ops resp))" using front_ops_set(1) [of resp] xs(2) by auto
  show "OpHeadersDone \<notin> set (take k (response_ops resp))" if "headers_only resp"
    using sub front_ops_set(3) [OF that] xs(2) by auto
  show "OpDataDone \<notin> set (take k (response_ops resp))" if "k \<le> length (front_ops resp)"
    using that front_ops_set(2) [of resp] by (auto simp: xs(1) dest: in_set_takeD)
qed

text \<open>The first call on the producer writes the headers.\<close>

lemma headers_stored:
  assumes ok: "resp_ok api resp" and cap: "0 < unat cap" and j: "0 < j"
    and pre: "prefix (sec_msgs HeadersSec (stored_after api resp cap a j)) (resp_msgs api resp HeadersSec)"
  shows "sec_msgs HeadersSec (stored_after api resp cap a j) = resp_msgs api resp HeadersSec"
proof -
  have t1: "take 1 (response_ops resp) = [OpHeaders (resp_headers resp) (headers_only resp)]"
    by (simp add: response_ops_def)
  obtain p1 e1 where e1: "run_write_ops api (take 1 (response_ops resp)) (start_write cap a) = Some (Inr (p1, e1))"
    "wabs (p1, e1) = spec_ops api (take 1 (response_ops resp)) w0"
    using stored_prefix [OF ok cap, of "take 1 (response_ops resp)" "drop 1 (response_ops resp)" a] by auto
  have "w_msgs (wabs (p1, e1)) HeadersSec = resp_msgs api resp HeadersSec"
    using e1(2) unfolding t1 by (simp add: publish_def w0_def)
  moreover have "w_msgs (wabs (p1, e1)) HeadersSec = sec_msgs HeadersSec e1" by (simp add: wabs_def)
  ultimately have "sec_msgs HeadersSec (stored_after api resp cap a 1) = resp_msgs api resp HeadersSec"
    using e1(1) by (simp add: stored_after_def)
  moreover have "prefix (sec_msgs HeadersSec (stored_after api resp cap a 1)) (sec_msgs HeadersSec (stored_after api resp cap a j))"
    by (rule stored_after_msgs_mono [OF ok cap]) (use j in simp)
  ultimately show ?thesis using pre prefix_order.antisym by metis
qed

text \<open>What is stored after the first calls, section by section.\<close>

lemma stored_after_spec:
  assumes "resp_ok api resp" and "0 < unat cap"
  shows "sec_msgs s (stored_after api resp cap a j) = w_msgs (spec_ops api (take j (response_ops resp)) w0) s"
    "block_count s (stored_after api resp cap a j) = w_count (spec_ops api (take j (response_ops resp)) w0) s"
proof -
  obtain p e where "run_write_ops api (take j (response_ops resp)) (start_write cap a) = Some (Inr (p, e))"
    and e: "wabs (p, e) = spec_ops api (take j (response_ops resp)) w0"
    using stored_prefix [OF assms, of "take j (response_ops resp)" "drop j (response_ops resp)" a] by auto
  then have "stored_after api resp cap a j = e" by (simp add: stored_after_def)
  then show "sec_msgs s (stored_after api resp cap a j) = w_msgs (spec_ops api (take j (response_ops resp)) w0) s"
    "block_count s (stored_after api resp cap a j) = w_count (spec_ops api (take j (response_ops resp)) w0) s"
    by (simp_all add: wabs_def flip: e)
qed

lemma trailer_response_stored:
  assumes ok: "resp_ok api resp" and cap: "0 < unat cap" and t: "resp_trailers resp = Some t"
  shows "length (front_ops resp) \<le> j \<Longrightarrow>
      prefix (resp_msgs api resp DataSec) (sec_msgs DataSec (stored_after api resp cap a j))"
    "j < length (response_ops resp) \<Longrightarrow>
      prefix (sec_msgs TrailersSec (stored_after api resp cap a j)) (enc_map (hm_entries api t) False)"
proof -
  let ?n = "length (front_ops resp)"
  have body: "resp_body resp \<noteq> []" using resp_ok_ops(2) [OF ok] t by simp
  have tk: "take ?n (response_ops resp) = front_ops resp"
    "take (Suc (Suc ?n)) (response_ops resp) = front_ops resp @ [OpDataDone, OpTrailers t]"
    by (simp_all add: response_ops_front(2) [OF t])
  have "sec_msgs DataSec (stored_after api resp cap a ?n) = resp_msgs api resp DataSec"
    unfolding stored_after_spec [OF ok cap] tk using body t by (simp add: front_ops_def spec_body_ops publish_def w0_def)
  then show "?n \<le> j \<Longrightarrow> prefix (resp_msgs api resp DataSec) (sec_msgs DataSec (stored_after api resp cap a j))"
    using stored_after_msgs_mono [OF ok cap] by metis
  have "sec_msgs TrailersSec (stored_after api resp cap a (Suc (Suc ?n))) = enc_map (hm_entries api t) False"
    unfolding stored_after_spec [OF ok cap] tk using body t by (simp add: front_ops_def spec_body_ops publish_def w0_def)
  moreover have "j \<le> Suc (Suc ?n)" if "j < length (response_ops resp)"
    using that by (simp add: response_ops_front(2) [OF t])
  ultimately show "j < length (response_ops resp) \<Longrightarrow>
      prefix (sec_msgs TrailersSec (stored_after api resp cap a j)) (enc_map (hm_entries api t) False)"
    using stored_after_msgs_mono [OF ok cap] by metis
qed

text \<open>
  A reader of an entry without its last call hangs in the first section that is not complete: the one
  whose counter has not been set, or else the trailers, whose end-of-stream block is missing.
\<close>

lemma abandoned_response_spins:
  assumes ok: "resp_ok api resp" and dr: "drains api" and cap: "0 < unat cap"
    and j: "j < length (response_ops resp)"
    and fo: "follows (\<lambda>_. stored_after api resp cap a j) env"
    and e: "same_content (stored_after api resp cap a j) e" and k: "consumer_idle k"
  shows "serveCachedResponse api end_block env a cb k (n, e) = None"
proof -
  let ?E = "stored_after api resp cap a j" and ?ops = "take j (response_ops resp)"
  let ?k = "k\<lparr>cache_entry_ptr_c := Some a, decoder_callbacks_c := Some cb\<rparr>"
  let ?kvs = "hm_entries api (resp_headers resp)"
  have idle: "consumer_idle ?k" using k by (simp add: consumer_idle_def)
  obtain p where E: "partial_of (resp_final api cap resp) ?E" "producer_ok p ?E"
    using stored_prefix [OF ok cap, of ?ops "drop j (response_ops resp)" a] by (auto simp: stored_after_def)
  have ab: "abandoned ?E env" using fo E(2) by (simp add: abandoned_def producer_ok_def)
  have w: "same_content ?E (snd (n, e))" using e by simp
  have pre: "prefix (sec_msgs s ?E) (resp_msgs api resp s)"
    and cnt: "block_count s ?E = UINT32_MAX \<or> block_count s ?E = resp_count api resp s" for s
    using E(1) by (simp_all add: partial_of_def resp_final_def)
  have K: "length (sec_msgs s ?E) < 4294967295" for s
  proof -
    have "length (resp_msgs api resp s) < 4294967295" using ok unfolding resp_ok_def by blast
    then show ?thesis using prefix_length_le [OF pre [of s]] by linarith
  qed
  have ent: "entries_ok ?kvs" "\<forall>d \<in> set (resp_body resp). length d \<le> enc_limit" using ok by (simp_all add: resp_ok_def)
  note cw = stored_after_spec(2) [OF ok cap, of _ a j]
  show ?thesis
  proof (cases "block_count HeadersSec ?E = UINT32_MAX")
    case True
    have "accepts (header_step api) (fresh_map api) (sec_msgs HeadersSec ?E)"
      by (rule accepts_prefix [OF pre [of HeadersSec, unfolded resp_msgs.simps] accepts_map [OF ent(1)]])
    then have "serveHeaders api end_block env ?k (n, e) = None"
      using serveHeaders_spins [OF ab w idle] K [of HeadersSec] True by simp
    then show ?thesis by (simp add: serveCachedResponse_def Let_def)
  next
    case False
    then have H: "block_count HeadersSec ?E = resp_count api resp HeadersSec" using cnt by blast
    have ho: "\<not> headers_only resp"
    proof
      assume "headers_only resp"
      from spec_count_unset(1) [OF incomplete_ops(1) [OF j] incomplete_ops(2) [OF j this], of api w0]
      show False using False by (simp only: cw) (simp add: w0_def)
    qed
    have "j \<noteq> 0"
    proof
      assume "j = 0"
      then have "block_count HeadersSec ?E = UINT32_MAX" unfolding cw by (simp add: w0_def)
      with False show False by contradiction
    qed
    then have hm: "sec_msgs HeadersSec ?E = resp_msgs api resp HeadersSec"
      using headers_stored [OF ok cap, of j a] pre [of HeadersSec] by simp
    have counted: "counted (final_of ?E) HeadersSec"
      using K [of HeadersSec] H by (simp add: counted_def final_of_def hm del: resp_msgs.simps)
    have hF: "fe_msgs (final_of ?E) HeadersSec = enc_map ?kvs False" using ho by (simp add: final_of_def hm)
    from abandoned_schedule [OF ab] have S: "schedule (final_of ?E) 0 (\<lambda>_. ?E)" "follows (\<lambda>_. ?E) env" by simp_all
    have "world_ok (\<lambda>_. ?E) (n, e)" using e by (simp add: world_ok_def)
    from serveHeaders_decodes [OF S this counted idle hF ent(1), of api] obtain k1 w1 out where
      h: "serveHeaders api end_block env ?k (n, e) = Some (Inr (k1, w1, out))" "world_ok (\<lambda>_. ?E) w1"
        "consumer_idle k1" "\<not> end_stream_m k1" by auto
    show ?thesis
    proof (cases "block_count DataSec ?E = UINT32_MAX")
      case True
      have "accepts (data_step api) fresh_data (sec_msgs DataSec ?E)"
        by (rule accepts_prefix [OF pre [of DataSec, unfolded resp_msgs.simps] accepts_body [OF dr ent(2)]])
      then have "serveData api end_block env k1 w1 = None"
        using serveData_spins [OF ab _ h(3,4)] h(2) K [of DataSec] True by (simp add: world_ok_def)
      then show ?thesis using h by (simp add: serveCachedResponse_def Let_def)
    next
      case False
      then have D: "block_count DataSec ?E = resp_count api resp DataSec" using cnt by blast
      have nj: "length (front_ops resp) \<le> j"
      proof (rule ccontr)
        assume "\<not> length (front_ops resp) \<le> j"
        then have "j \<le> length (front_ops resp)" by simp
        from spec_count_unset(2) [OF incomplete_ops(1) [OF j] incomplete_ops(3) [OF j this], of api w0]
        show False using False by (simp only: cw) (simp add: w0_def)
      qed
      have "resp_trailers resp \<noteq> None"
      proof
        assume "resp_trailers resp = None"
        then have "j \<le> length (front_ops resp)" using j by (simp add: response_ops_front(1))
        from spec_count_unset(2) [OF incomplete_ops(1) [OF j] incomplete_ops(3) [OF j this], of api w0]
        show False using False by (simp only: cw) (simp add: w0_def)
      qed
      then obtain t where t: "resp_trailers resp = Some t" by blast
      note ts = trailer_response_stored [OF ok cap t, of j a]
      have dm: "sec_msgs DataSec ?E = resp_msgs api resp DataSec"
        using ts(1) [OF nj] pre [of DataSec] by (rule prefix_order.antisym [symmetric])
      have countedD: "counted (final_of ?E) DataSec"
        using K [of DataSec] D ho by (simp add: counted_def final_of_def dm del: resp_msgs.simps)
      have dF: "fe_msgs (final_of ?E) DataSec = enc_body (resp_body resp) False" using t by (simp add: final_of_def dm)
      from serveData_decodes [OF S h(2) countedD h(3,4) dr dF ent(2)] obtain k2 w2 out2 where
        d: "serveData api end_block env k1 w1 = Some (Inr (k2, w2, out2))" "world_ok (\<lambda>_. ?E) w2"
          "consumer_idle k2" "\<not> end_stream_m k2" by auto
      have "entries_ok (hm_entries api t)" using ok t by (simp add: resp_ok_def)
      then have "decode_until map_ended (trailer_step api) (fresh_map api) (sec_msgs TrailersSec ?E) = None"
        using decode_until_prefix [OF ts(2) [OF j] trailers_unended] by blast
      then have "serveTrailers api end_block env k2 w2 = None"
        using serveTrailers_spins [OF ab _ d(3,4)] d(2) K [of TrailersSec] by (simp add: world_ok_def)
      then show ?thesis using h d by (simp add: serveCachedResponse_def Let_def)
    qed
  qed
qed

section \<open>Trailers without a body\<close>

text \<open>
  Without a body \<^verbatim>\<open>headersWriteComplete\<close> is never called, so \<^verbatim>\<open>writeComplete\<close> publishes, as the
  number of headers blocks, the number of headers and trailers blocks together.
\<close>

lemma bodyless_trailers_entry:
  assumes cap: "0 < unat cap" and b: "resp_body resp = []" and t: "resp_trailers resp = Some t"
    and ok: "sizes_ok (hm_entries api (resp_headers resp))" "sizes_ok (hm_entries api t)"
  shows "\<exists>p e. run_write_ops api (response_ops resp) (start_write cap a) = Some (Inr (p, e)) \<and> producer_ok p e
    \<and> sec_msgs HeadersSec e = enc_map (hm_entries api (resp_headers resp)) False
    \<and> block_count HeadersSec e = of_nat (length (enc_map (hm_entries api (resp_headers resp)) False)
        + length (enc_map (hm_entries api t) False))"
proof -
  have ho: "\<not> headers_only resp" using t by (simp add: headers_only_def)
  have ops: "response_ops resp = [OpHeaders (resp_headers resp) False, OpDataDone, OpTrailers t, OpComplete]"
    using b t ho by (simp add: response_ops_def)
  obtain p0 e0 where 0: "start_write cap a = (p0, e0)" by (cases "start_write cap a")
  have "producer_ok p0 e0" "wabs (p0, e0) = w0" using start_write_ok [of cap a] cap by (simp_all add: 0)
  then obtain p e where e: "run_write_ops api (response_ops resp) (p0, e0) = Some (Inr (p, e))" "producer_ok p e"
    "wabs (p, e) = spec_ops api (response_ops resp) w0"
    using write_ops_refine [of p0 e0 "response_ops resp" api] chain_bufs [OF chain_response, of api resp] ok
    by (auto simp: ops)
  have "w_msgs (wabs (p, e)) HeadersSec = enc_map (hm_entries api (resp_headers resp)) False"
    "w_count (wabs (p, e)) HeadersSec = of_nat (length (enc_map (hm_entries api (resp_headers resp)) False)
        + length (enc_map (hm_entries api t) False))"
    unfolding e(3) ops by (simp_all add: publish_def w0_def)
  then show ?thesis using e by (auto simp: 0 wabs_def)
qed

lemma bodyless_trailers_spin:
  assumes cap: "0 < unat cap" and b: "resp_body resp = []" and t: "resp_trailers resp = Some t"
    and ok: "entries_ok (hm_entries api (resp_headers resp))" "entries_ok (hm_entries api t)"
    and K: "length (enc_map (hm_entries api (resp_headers resp)) False) + length (enc_map (hm_entries api t) False) < 4294967296"
  shows "\<exists>p e. run_write_ops api (response_ops resp) (start_write cap a) = Some (Inr (p, e))
    \<and> (\<forall>k env cb n. consumer_idle k \<longrightarrow> follows (\<lambda>_. e) env \<longrightarrow>
         serveCachedResponse api end_block env a cb k (n, e) = None)"
proof -
  obtain p e where e: "run_write_ops api (response_ops resp) (start_write cap a) = Some (Inr (p, e))"
    "producer_ok p e" "sec_msgs HeadersSec e = enc_map (hm_entries api (resp_headers resp)) False"
    "block_count HeadersSec e = of_nat (length (enc_map (hm_entries api (resp_headers resp)) False)
        + length (enc_map (hm_entries api t) False))"
    using bodyless_trailers_entry [OF cap b t entries_sizes [OF ok(1)] entries_sizes [OF ok(2)]] by blast
  have len: "length (sec_msgs HeadersSec e) < unat (block_count HeadersSec e)"
    using K unfolding e(3,4) by (subst unat_of_nat_u32) (simp_all add: enc_map_def)
  have acc: "accepts (header_step api) (fresh_map api) (sec_msgs HeadersSec e)"
    unfolding e(3) by (rule accepts_map [OF ok(1)])
  have sc: "same_content e (snd (n, e))" for n :: nat using e(2) by (simp add: same_content_refl producer_ok_def)
  have "serveCachedResponse api end_block env a cb k (n, e) = None"
    if "consumer_idle k" "follows (\<lambda>_. e) env" for k env cb n
  proof -
    have ab: "abandoned e env" using that(2) e(2) by (simp add: abandoned_def producer_ok_def)
    have idle: "consumer_idle (k\<lparr>cache_entry_ptr_c := Some a, decoder_callbacks_c := Some cb\<rparr>)"
      using that(1) by (simp add: consumer_idle_def)
    from serveHeaders_spins [OF ab sc idle len acc] show ?thesis
      by (simp add: serveCachedResponse_def Let_def)
  qed
  then show ?thesis using e(1) by blast
qed

section \<open>Ring buffers without blocks\<close>

text \<open>
  With a capacity of 0 the second write of \<^verbatim>\<open>writeBlockToBuffer\<close> fails, too, and its result is
  ignored: the block stays full and a string of more than 64 bytes is never finished.
\<close>

lemma rb_write_new_empty: "rb_write sz cb (new_RingBufferQueue 0) s = Inr (False, new_RingBufferQueue 0, s)"
  by (rule rb_write_full) (simp_all add: new_rb)

lemma writeBlockToBuffer_full:
  assumes "entry_wf e" and "entry_cap e = 0" and "buffers_m p = Some sec"
  shows "\<exists>e'. writeBlockToBuffer p e = Inr (p\<lparr>current_block_count_m := current_block_count_m p + 1\<rparr>, e')
    \<and> entry_wf e' \<and> entry_cap e' = 0"
proof -
  let ?qs = "sec_buffers sec e"
  have c0: "single_buffer_blocks_capacity_m e = 0" using assms(2) by (simp add: unat_eq_zero)
  have v: "rbq.vwf 0 ?qs" using entry_wf_sec [OF assms(1), of sec] assms(2) by simp
  have full: "length (rb_msgs (last ?qs)) = 0" "rb_write n writeBlockCb (last ?qs) p = Inr (False, last ?qs, p)"
    if "?qs \<noteq> []" for n using rbq.vec_last_full [OF v that] by auto
  have id: "set_buffers sec ?qs e = e" by (cases sec) simp_all
  have wf: "entry_wf (set_buffers sec (?qs @ [new_RingBufferQueue 0]) e)"
    using rbq.vec_emplace(1) [of 0 ?qs] v full(1) assms by (simp add: entry_wf_set)
  have "writeBlockToBuffer p e = Inr (p\<lparr>current_block_count_m := current_block_count_m p + 1\<rparr>,
      set_buffers sec (?qs @ [new_RingBufferQueue 0]) e)"
    using full(2) by (cases "?qs = []") (simp_all add: writeBlockToBuffer_def assms(3) c0 rb_write_new_empty id Let_def)
  then show ?thesis using wf assms(2) by simp
qed

text \<open>The block is full and the position is inside the string: nothing changes any more.\<close>

definition jammed :: "bytes \<Rightarrow> producer \<Rightarrow> cache_entry \<Rightarrow> bool" where
  "jammed data p e \<longleftrightarrow> entry_wf e \<and> entry_cap e = 0 \<and> buffers_m p \<noteq> None
     \<and> length (data_block_m p) = BLOCK_SIZE_BYTES \<and> message_size_m p = of_nat BLOCK_SIZE_BYTES
     \<and> data_offset_m p \<noteq> 0 \<and> unat (data_offset_m p) < length data \<and> length data < 18446744073709551616"

lemma writeToBlock_jammed:
  assumes "jammed data p e"
  shows "writeToBlock data p = Inr (True, p)"
proof -
  have of_len: "unat (of_nat (length data) :: u64) = length data"
    using assms by (simp add: jammed_def unat_of_nat)
  have uc: "unat (ucast (data_offset_m p) :: u64) = unat (data_offset_m p)"
    by (simp add: unsigned_ucast_eq take_bit_nat_eq_self order_less_trans [OF unat_u32_less])
  have lt: "unat (data_offset_m p) < length data" using assms by (simp add: jammed_def)
  then have "(ucast (data_offset_m p) :: u64) \<le> of_nat (length data)"
    unfolding word_le_nat_alt of_len uc by simp
  then have rs: "unat ((of_nat (length data) :: u64) - ucast (data_offset_m p)) = length data - unat (data_offset_m p)"
    by (simp only: unat_sub of_len uc)
  have sp: "unat (of_nat BLOCK_SIZE_BYTES - message_size_m p) = 0" using assms by (simp add: jammed_def)
  have "memcpy_at n [] b = b" for n and b :: bytes by (simp add: memcpy_at_def)
  then show ?thesis using assms lt
    by (simp add: writeToBlock_def sp rs Let_def jammed_def)
qed

lemma writeString_loop_jams:
  assumes "jammed data p e"
  shows "writeString_loop data first p e = None"
proof (rule ccontr)
  assume "writeString_loop data first p e \<noteq> None"
  then obtain y where y: "writeString_loop data first p e = Some y" by blast
  have "jammed data p e \<longrightarrow> False"
  proof (rule writeString_loop.raw_induct [where P = "\<lambda>data first p e y. jammed data p e \<longrightarrow> False", OF _ y], intro impI)
    fix f data first p e y
    assume IH: "\<And>data first p e y. f data first p e = Some y \<Longrightarrow> jammed data p e \<longrightarrow> False"
      and body: "(if first \<or> data_offset_m p \<noteq> 0 then
          (case writeToBlock data p of
             Inl f \<Rightarrow> Some (Inl f)
           | Inr (full, p1) \<Rightarrow>
               if full then
                 (case writeBlockToBuffer p1 e of Inl f \<Rightarrow> Some (Inl f) | Inr (p2, e2) \<Rightarrow> f data False p2 e2)
               else Some (Inr (p1, e)))
        else Some (Inr (p, e))) = Some y"
      and j: "jammed data p e"
    obtain sec where sec: "buffers_m p = Some sec" using j by (auto simp: jammed_def)
    obtain e' where w: "writeBlockToBuffer p e = Inr (p\<lparr>current_block_count_m := current_block_count_m p + 1\<rparr>, e')"
      and e': "entry_wf e'" "entry_cap e' = 0"
      using writeBlockToBuffer_full [of e p sec] j sec by (auto simp: jammed_def)
    have "data_offset_m p \<noteq> 0" using j by (simp add: jammed_def)
    then have "f data False (p\<lparr>current_block_count_m := current_block_count_m p + 1\<rparr>) e' = Some y"
      using body w writeToBlock_jammed [OF j] by simp
    moreover have "jammed data (p\<lparr>current_block_count_m := current_block_count_m p + 1\<rparr>) e'"
      using j e' by (simp add: jammed_def)
    ultimately show False using IH by blast
  qed
  then show False using assms by blast
qed

lemma writeString_zero_capacity:
  assumes "entry_wf e" and "entry_cap e = 0" and "buffers_m p = Some sec" and "producer_ready p"
    and "BLOCK_SIZE_BYTES < length data" and "length data < 18446744073709551616"
  shows "writeStringToBuffer data p e = None"
proof -
  let ?p1 = "p\<lparr>data_block_m := take BLOCK_SIZE_BYTES data, message_size_m := of_nat BLOCK_SIZE_BYTES, data_offset_m := 64\<rparr>"
  have w: "writeToBlock data p = Inr (True, ?p1)"
    using writeToBlock_empty [of p data] assms by (simp add: producer_ready_def memcpy_at_0_full min_absorb1)
  obtain e' where b: "writeBlockToBuffer ?p1 e = Inr (?p1\<lparr>current_block_count_m := current_block_count_m p + 1\<rparr>, e')"
    and e': "entry_wf e'" "entry_cap e' = 0"
    using writeBlockToBuffer_full [of e ?p1 sec] assms by auto
  have "jammed data (?p1\<lparr>current_block_count_m := current_block_count_m p + 1\<rparr>) e'"
    using e' assms by (simp add: jammed_def BLOCK_SIZE_BYTES_def)
  from writeString_loop_jams [OF this] have "writeString_loop data True p e = None"
    using w b by (simp add: writeString_loop.simps [of data True p e])
  then show ?thesis by (simp add: writeStringToBuffer_def)
qed

section \<open>Properties\<close>

lemma demo_key: "end_block \<noteq> '':status''" "end_block \<noteq> ''t''"
  using length_end_block by (auto simp: BLOCK_SIZE_BYTES_def dest: arg_cong [where f = length])

text \<open>
  C32: an abandoned entry hangs its readers. If the producer stops before its last call, at whatever
  call and whether or not the response has trailers, and nobody writes any more, a consumer that is
  started on the entry never returns: it busy-waits forever, whatever other readers do.
\<close>

theorem abandoned_entry_hangs_reader:
  assumes "resp_ok api resp" and "drains api" and "0 < unat cap" and "j < length (response_ops resp)"
    and "follows (\<lambda>_. stored_after api resp cap a j) env"
    and "same_content (stored_after api resp cap a j) e" and "consumer_idle k"
  shows "serveCachedResponse api end_block env a cb k (n, e) = None"
  by (rule abandoned_response_spins [OF assms])

theorem abandoned_entry_hangs_reader_witness:
  "serveCachedResponse list_api end_block no_interference 0 0 CacheEntryConsumer_fields
     (0, stored_after list_api demo_response 1 0 6) = None"
proof (rule abandoned_entry_hangs_reader [OF demo_ok])
  show "same_content (stored_after list_api demo_response 1 0 6) (stored_after list_api demo_response 1 0 6)"
    using stored_after_partial [OF demo_ok(1), of 1 0 6] by (simp add: same_content_refl partial_of_def)
qed (simp_all add: demo_response_def response_ops_def follows_const consumer_idle_new)

text \<open>
  C33: a response with trailers but without a body is stored without a fault, but hangs every reader:
  the headers section is announced with the headers and trailers blocks together, and a consumer
  waits forever for the headers blocks that do not exist.
\<close>

theorem bodyless_trailers_hang_reader:
  assumes "0 < unat cap" and "resp_body resp = []" and "resp_trailers resp = Some t"
    and "entries_ok (hm_entries api (resp_headers resp))" and "entries_ok (hm_entries api t)"
    and "length (enc_map (hm_entries api (resp_headers resp)) False) + length (enc_map (hm_entries api t) False) < 4294967296"
  shows "\<exists>p e. run_write_ops api (response_ops resp) (start_write cap a) = Some (Inr (p, e))
    \<and> (\<forall>k env cb n. consumer_idle k \<longrightarrow> follows (\<lambda>_. e) env \<longrightarrow>
         serveCachedResponse api end_block env a cb k (n, e) = None)"
  by (rule bodyless_trailers_spin [OF assms])

theorem bodyless_trailers_hang_reader_witness:
  "\<exists>p e. run_write_ops list_api (response_ops (demo_response\<lparr>resp_body := []\<rparr>)) (start_write 1 0) = Some (Inr (p, e))
    \<and> serveCachedResponse list_api end_block no_interference 0 0 CacheEntryConsumer_fields (0, e) = None"
proof -
  have "\<exists>p e. run_write_ops list_api (response_ops (demo_response\<lparr>resp_body := []\<rparr>)) (start_write 1 0) = Some (Inr (p, e))
    \<and> (\<forall>k env cb n. consumer_idle k \<longrightarrow> follows (\<lambda>_. e) env \<longrightarrow>
         serveCachedResponse list_api end_block env 0 cb k (n, e) = None)"
    by (rule bodyless_trailers_hang_reader [where t = "[(''t'', ''1'')]"])
      (simp_all add: demo_response_def key_ok_def enc_limit_def demo_key [symmetric] BLOCK_SIZE_BYTES_def
        enc_map_def enc_str_tiny)
  then show ?thesis using follows_const consumer_idle_new by blast
qed

text \<open>
  C34: with a ring buffer capacity of 0, which only the validation of the configuration excludes, a
  string of more than 64 bytes makes the writer loop forever.
\<close>

theorem zero_capacity_hangs_writer:
  assumes "entry_wf e" and "entry_cap e = 0" and "buffers_m p = Some sec" and "producer_ready p"
    and "BLOCK_SIZE_BYTES < length data" and "length data < 18446744073709551616"
  shows "writeStringToBuffer data p e = None"
  by (rule writeString_zero_capacity [OF assms])

theorem zero_capacity_hangs_writer_witness:
  "writeStringToBuffer (replicate 65 CHR ''x'') (new_CacheEntryProducer\<lparr>buffers_m := Some DataSec\<rparr>)
     (new_CacheEntry 0) = None"
proof (rule zero_capacity_hangs_writer)
  show "entry_cap (new_CacheEntry 0) = 0" by (simp add: new_CacheEntry_def)
qed (simp_all add: entry_wf_new producer_ready_def new_CacheEntryProducer_def BLOCK_SIZE_BYTES_def)

end
