(* ===== verification/Stranded_Groups.thy ===== *)
theory Stranded_Groups
  imports Heap_Typing Divergence
begin

text \<open>
  Groups that are never announced. \<^verbatim>\<open>encodeHeaders\<close> stops a response whose status code is no number
  before it announces the group, and \<^verbatim>\<open>encodeComplete\<close> then detaches the group without a further check:
  the threads that wait for it wait for an entry that no callback will ever announce.
\<close>

section \<open>Once stranded, always stranded\<close>

definition stranded :: "wrapper_id \<Rightarrow> 'h shared \<Rightarrow> bool" where
  "stranded w s \<longleftrightarrow> w < length (wrappers_m s) \<and> (\<forall>k. group_of k s \<noteq> Some w)
     \<and> shared_response_entry_m (wrappers_m s ! w) = None"

lemma stranded_publishes:
  assumes "stranded w s" and p: "publishes k v a s s'" and "v \<noteq> w"
  shows "stranded w s'"
proof -
  have w: "w < length (wrappers_m s)" using assms(1) by (simp add: stranded_def)
  have "shared_response_entry_m (wrappers_m s' ! w) = None"
  proof (rule ccontr)
    assume "shared_response_entry_m (wrappers_m s' ! w) \<noteq> None"
    then obtain b where "shared_response_entry_m (wrappers_m s' ! w) = Some b" by blast
    from publishesD(5) [OF p w this] assms(1,3) show False by (simp add: stranded_def)
  qed
  then show ?thesis using assms(1) w publishesD(3,4) [OF p] by (auto simp: stranded_def)
qed

lemma stranded_keeps: "stranded w s \<Longrightarrow> keeps_ptrs s s' \<Longrightarrow> stranded w s'"
  using stranded_publishes [of w s undefined "Suc w"] keeps_ptrsD [of s s'] by fastforce

lemma stranded_founds: "stranded w s \<Longrightarrow> founds t k s s' \<Longrightarrow> stranded w s'"
  by (auto simp: stranded_def founds_def nth_append)

lemma stranded_step:
  assumes "rc_step api S S'" and I: "sys_inv S" and H: "heap_inv S" and X: "stranded w (shared_s S)"
  shows "stranded w (shared_s S')"
  using assms(1)
proof cases
  case (miss t env cb config f s0 h f' s')
  note n = inv_new_filter [OF I miss(4)] and k = stranded_keeps [OF X new_filter_heap [OF sys_invD(2) [OF I] miss(4)]]
  have "\<not> thread_waits t (S\<lparr>shared_s := s0\<rparr>)" using miss by (simp add: thread_waits_def)
  from miss_ptrs [OF sys_invD(1) [OF n(1)] not_attending [OF this] miss(3) n(2) sys_invD(2) [OF n(1)], of api h f' s'] miss
  obtain s2 where "founds t (cache_key h) s0 s2" "keeps_ptrs s2 s'" by auto
  from stranded_keeps [OF stranded_founds [OF k this(1)] this(2)] show ?thesis by (simp add: miss(1))
next
  case (hit t env cb config f s0 h f' s')
  note n = inv_new_filter [OF I hit(4)] and k = stranded_keeps [OF X new_filter_heap [OF sys_invD(2) [OF I] hit(4)]]
  have "\<not> thread_waits t (S\<lparr>shared_s := s0\<rparr>)" using hit by (simp add: thread_waits_def)
  from hit_ptrs [OF sys_invD(1) [OF n(1)] not_attending [OF this] hit(3) n(2) sys_invD(2) [OF n(1)], of h api f' s'] hit
  obtain s2 a where "founds t (cache_key h) s0 s2" "publishes (cache_key h) (length (wrappers_m s0)) a s2 s'" by auto
  from stranded_publishes [OF stranded_founds [OF k this(1)] this(2)] k show ?thesis by (simp add: hit(1) stranded_def)
next
  case (join t env cb config f s0 h f' s')
  note n = inv_new_filter [OF I join(4)] and k = stranded_keeps [OF X new_filter_heap [OF sys_invD(2) [OF I] join(4)]]
  have "\<not> thread_waits t (S\<lparr>shared_s := s0\<rparr>)" using join by (simp add: thread_waits_def)
  from join_ptrs [OF n(1) this join(3) n(2), of h api StopIteration f' s'] join have "keeps_ptrs s0 s'" by simp
  from stranded_keeps [OF k this] show ?thesis by (simp add: join(1))
next
  case (wait t env cb config f s0 h f' s')
  note n = inv_new_filter [OF I wait(4)] and k = stranded_keeps [OF X new_filter_heap [OF sys_invD(2) [OF I] wait(4)]]
  have "\<not> thread_waits t (S\<lparr>shared_s := s0\<rparr>)" using wait by (simp add: thread_waits_def)
  from wait_status [OF sys_invD(1) [OF n(1)] not_attending [OF this] wait(3) n(2), of h f' s'] wait k
  show ?thesis by simp
next
  case (respond xs f ys c env f' s')
  then have "writes_entry (shared_s S) f" using H by (simp add: heap_inv_def)
  then obtain a where a: "entry_ptr f = Some a" by (auto simp: writes_entry_def)
  from sys_invD(4) [OF I, of f] respond(2) obtain v where
    v: "response_wrapper_rc_ptr_m f = Some v" "group_of (request_headers_str_key_m f) (shared_s S) = Some v"
    by (auto simp: flight_ok_def)
  have "v \<noteq> w" using X v(2) by (auto simp: stranded_def)
  from stranded_publishes [OF X conjunct1 [OF upstream_publishes [OF respond(5,4) sys_invD(2) [OF I] a v(1)]] this]
  show ?thesis by (simp add: respond(1))
next
  case (finish xs f ys env v f' s')
  from stranded_keeps [OF X finish_ptrs [OF I finish(2,5,6,7)]] show ?thesis by (simp add: finish(1))
next
  case (finish_attend xs f ys v cb u rest f1 s1 env f2 s2)
  from stranded_keeps [OF X keeps_ptrs_trans [OF keeps_ptrs_trans [OF produce_any_heap [OF finish_attend(7)]
    serve_group_heap [OF finish_attend(8)]] keeps_ptrs_frames(2)]]
  show ?thesis by (simp add: finish_attend(1))
next
  case (wake xs x ys v a env f' s')
  from stranded_keeps [OF X keeps_ptrs_trans [OF conjunct1 [OF serve_entry_heap [OF wake(5)]] keeps_ptrs_frames(4)]]
  show ?thesis by (simp add: wake(1))
next
  case (timeout xs x ys v)
  from stranded_keeps [OF X keeps_ptrs_frames(4)] show ?thesis by (simp add: timeout(1))
qed

lemma stranded_steps:
  assumes "rc_steps api S S'" and "rc_steps api rc_start S" and "stranded w (shared_s S)"
  shows "stranded w (shared_s S')"
  using assms(1)
proof (induction rule: rtranclp_induct)
  case (step S1 S2)
  have "rc_steps api rc_start S1" using assms(2) step.hyps(1) by (rule rtranclp_trans)
  from stranded_step [OF step.hyps(2) reachable_inv [OF this] heap_reachable [OF this] step.IH] show ?case .
qed (rule assms(3))

section \<open>Nothing but a status that is no number\<close>

text \<open>A filter whose producer has written nothing completes.\<close>

lemma complete_unwritten:
  assumes st: "storing api [] cap a f s" and l: "leads f w s"
    and none: "other_rc_groups_m (wrappers_m s ! w) = []" "waiting_decoder_callbacks_m (wrappers_m s ! w) = []"
  shows "\<exists>f' s'. encodeComplete api env f s = Some (Inr (f', s'))"
proof -
  have w: "response_wrapper_rc_ptr_m f = Some w" "w < length (wrappers_m s)"
    using l rc_invD(1) [of "{}" s] by (auto simp: leads_def)
  have "start_write cap a = (cache_entry_producer_m f, entries_m s ! a)" using st by (simp add: storing_def)
  from arg_cong [OF this, of fst] have "cache_entry_producer_m f = fst (start_write cap a)" by simp
  then have "\<not> headers_write_complete_m (cache_entry_producer_m f)"
    by (simp add: start_write_def initCacheEntry_def new_CacheEntryProducer_def)
  then obtain f1 s1 where p: "produce (\<lambda>p e. Some (writeComplete p e)) f s = Some (Inr (f1, s1))"
    using st by (auto simp: produce_def storing_def writeComplete_def bindRun_def)
  note fr = produce_frame [OF p]
  have w1: "response_wrapper_rc_ptr_m f1 = Some w" "wrappers_m s1 = wrappers_m s" using fr w by (simp_all add: same_request_def)
  let ?s2 = "detachCurrentRCGroup f1 s1"
  have wr: "wrappers_m ?s2 = wrappers_m s" using w1 by (simp add: detachCurrentRCGroup_def)
  have "serveResponseToCurrentRCGroup api env f1 ?s2 = Some (Inr (f1, ?s2))"
    using w1 w none wr by (simp add: serveResponseToCurrentRCGroup_def wrapper_of_def)
  moreover have "\<exists>s3. attendToOtherRCGroups api env f1 ?s2 = Some (Inr (f1, s3))"
    using attend_no_others [OF w1(1), of ?s2 api env] w none wr by auto
  ultimately show ?thesis using st p by (auto simp: encodeComplete_def storing_def)
qed



section \<open>Properties\<close>

text \<open>
  C37: a group whose response has ended without being announced is never announced: once no response
  is in flight for it -- after a status code that is no number, \<^verbatim>\<open>encodeHeaders\<close> stops the response and
  \<^verbatim>\<open>encodeComplete\<close> detaches the group -- no callback of any filter ever tells it an entry, whatever
  requests, responses and timeouts follow. So a thread that still waits for it is not served: its wait
  ends with the timeout only.
\<close>

theorem unannounced_group_strands_waiters:
  assumes "rc_steps api rc_start S" and "w < length (wrappers_m (shared_s S))"
    and "\<And>f. f \<in> set (flights_s S) \<Longrightarrow> response_wrapper_rc_ptr_m f \<noteq> Some w"
    and "shared_response_entry_m (wrappers_m (shared_s S) ! w) = None" and "rc_steps api S S'"
  shows "shared_response_entry_m (wrappers_m (shared_s S') ! w) = None \<and> (\<forall>k. group_of k (shared_s S') \<noteq> Some w)"
proof -
  have "group_of k (shared_s S) \<noteq> Some w" for k
    using flight_of_group [OF reachable_inv [OF assms(1)], of k w] assms(3) by blast
  then have "stranded w (shared_s S)" using assms(2,4) by (simp add: stranded_def)
  from stranded_steps [OF assms(5,1) this] show ?thesis by (simp add: stranded_def)
qed

text \<open>
  The run of \<open>demo_steps\<close>, then a response with the status \<open>abc\<close>: it is stopped and completes, and the
  waiting request is given up when its wait times out.
\<close>

theorem unannounced_group_strands_waiters_witness:
  "\<exists>S f s' x S'. rc_steps (list_api :: (bytes \<times> bytes) list envoy_api) rc_start S \<and> flights_s S = []
    \<and> encodeHeaders list_api [('':status'', ''abc'')] True f s' = Some (Inr (StopIteration, f, s'))
    \<and> waits_s S = [x] \<and> response_wrapper_rc_ptr_m (w_filter x) = Some 0 \<and> open_s S = {#1#}
    \<and> rc_steps list_api S S' \<and> waits_s S' = [] \<and> open_s S' = {#}
    \<and> delivered_m (shared_s S') = delivered_m (shared_s S)
    \<and> shared_response_entry_m (wrappers_m (shared_s S') ! 0) = None"
proof -
  let ?api = "list_api :: (bytes \<times> bytes) list envoy_api"
  from demo_steps [of ?api] obtain S0 x f where S0: "rc_steps ?api rc_start S0" "waits_s S0 = [x]"
    "decoder_callbacks_m (w_filter x) = 1" "this_thread_id_m (w_filter x) = 6" "response_wrapper_rc_ptr_m (w_filter x) = Some 0"
    "w_rest x = []" "open_s S0 = {#1#}" "flights_s S0 = [f]"
    and f: "storing ?api [] 1 0 f (shared_s S0)" "leads f 0 (shared_s S0)" "is_first_headers_m f"
    and wr: "wrappers_m (shared_s S0) = [new_wrapper 5]"
    by blast
  have f5: "this_thread_id_m f = 5" "response_wrapper_rc_ptr_m f = Some 0" using f(2) wr by (simp_all add: leads_def)
  have "stoi (hm_status ?api [('':status'', ''abc'')]) = None"
    by (simp add: list_api_def stoi_def is_space_def is_digit_def digits_value_def)
  then have stop: "encodeHeaders ?api [('':status'', ''abc'')] True f (shared_s S0) = Some (Inr (StopIteration, f, shared_s S0))"
    using invalid_status_leaves_group [OF f(2) _ f(3), of ?api "[('':status'', ''abc'')]" True] f(1) by (simp add: storing_def)
  from complete_unwritten [OF f(1,2), of demo_env] wr obtain f1 s1 where
    c: "encodeComplete ?api demo_env f (shared_s S0) = Some (Inr (f1, s1))" by auto
  let ?S = "S0\<lparr>shared_s := s1, flights_s := [] @ [], open_s := open_s S0 - mset (answered (shared_s S0) s1)\<rparr>"
  have st: "rc_step ?api S0 ?S"
    by (rule rc_step.finish [OF _ _ begin_ok_demo f5(2) _ c]) (use S0 wr f5 in \<open>simp_all add: thread_waits_def\<close>)
  have S: "rc_steps ?api rc_start ?S" using S0(1) st by (rule rtranclp.rtrancl_into_rtrancl)
  note I = reachable_inv [OF S0(1)]
  have fl: "flights_s S0 = [] @ f # []" using S0(8) by simp
  have more: "other_rc_groups_m (wrappers_m (shared_s S0) ! 0) = []
    \<or> AList.delete (request_headers_str_key_m f) (led_groups (this_thread_id_m f) (shared_s S0)) \<noteq> []" using wr by simp
  from serves_answered [OF finish_serves [OF I fl begin_ok_demo f5(2) more c]] wr have an: "answered (shared_s S0) s1 = []" by simp
  note k = keeps_ptrs_old [OF finish_ptrs [OF I fl f5(2) more c]]
  have w1: "0 < length (wrappers_m s1)" using k(4) wr by simp
  have n1: "shared_response_entry_m (wrappers_m s1 ! 0) = None"
    using k(5) [of 0] wr by (cases "shared_response_entry_m (wrappers_m s1 ! 0)") auto
  let ?S' = "?S\<lparr>shared_s := end_wait x (w_filter x) (shared_s ?S),
      waits_s := [] @ next_wait x (w_filter x) (shared_s ?S) @ [], open_s := open_s ?S - {#decoder_callbacks_m (w_filter x)#}\<rparr>"
  have "rc_step ?api ?S ?S'"
    by (rule rc_step.timeout [of _ "[]" x "[]" 0]) (use S0 n1 in simp_all)
  then have S': "rc_steps ?api ?S ?S'" by (rule r_into_rtranclp)
  have "shared_response_entry_m (wrappers_m (shared_s ?S') ! 0) = None"
    using unannounced_group_strands_waiters [OF S _ _ _ S'] w1 n1 by simp
  moreover have "open_s ?S = {#1#}" using an S0(7) by simp
  moreover have "waits_s ?S' = []" using next_wait_simps(1) [OF S0(6)] by simp
  moreover have "delivered_m (shared_s ?S') = delivered_m (shared_s ?S)" by (simp add: end_wait_def release_eq)
  ultimately show ?thesis using S S' stop S0(2,3,5)
    by (intro exI [of _ ?S] exI [of _ f] exI [of _ "shared_s S0"] exI [of _ x] exI [of _ ?S']) simp
qed



end
