(* ===== verification/Spec2Isabelle.thy ===== *)
theory Spec2Isabelle
  imports Lru_Growth Ring_Concurrent Constructor_Race Coalescing_Spec Key_Isolation Stream_Reset Stranded_Groups
begin

text \<open>
  A model of \<^verbatim>\<open>http_cache_supporting_rc\<close>: an HTTP filter for Envoy, written in C++, that caches
  responses in memory and coalesces concurrent requests for the same resource.

  \<^bold>\<open>The program.\<close> Envoy creates one \<^verbatim>\<open>HttpCacheRCFilter\<close> per request
  (\<^verbatim>\<open>http_cache_rc_filter.cc\<close>, made by \<^verbatim>\<open>http_cache_rc_config_factory.cc\<close>). \<^verbatim>\<open>decodeHeaders\<close> builds a
  key from the request headers and asks \<^verbatim>\<open>getThreadStatus\<close> what to do. The first request of a key
  becomes the leader of a group of coalesced requests: it looks the key up in the LRU cache
  (\<^verbatim>\<open>http_lru_ram_cache.cc\<close>), and on a miss passes the request on. The response comes back through
  \<^verbatim>\<open>encodeHeaders\<close>, \<^verbatim>\<open>encodeData\<close>, \<^verbatim>\<open>encodeTrailers\<close> and \<^verbatim>\<open>encodeComplete\<close>, which write it into a cache
  entry through a \<^verbatim>\<open>CacheEntryProducer\<close> (\<^verbatim>\<open>cache_entry.cc\<close>), as 64-byte blocks in a growing list of ring
  buffers (\<^verbatim>\<open>ring_buffer.cc\<close>). Later requests of the key join the group: on the leader's thread they
  are kept in a list and served at the end; on another thread that leads nothing they wait on a
  condition variable and read the entry through a \<^verbatim>\<open>CacheEntryConsumer\<close> while it is still being
  written; on another thread that leads some group they are kept until that thread leads none.

  \<^bold>\<open>Theories, bottom up.\<close>

  \<^item> \<open>Prelude\<close>: C++ integers as words, strings as lists of bytes, the outcome of a function.
    A pure C++ function that can go wrong has type \<open>fault + 'a\<close> (undefined behaviour is \<open>Inl\<close>); one that
    can also diverge has type \<open>'a run\<close>, in which \<open>None\<close> means that it never returns.
  \<^item> \<open>Block_Queue\<close>: the contract between a queue of blocks and its clients, a locale; the client lemmas
    about a vector of queues are proved in it. \<open>Ring_Buffer\<close> models \<^verbatim>\<open>ring_buffer.h\<close> and
    \<^verbatim>\<open>ring_buffer.cc\<close> with a call as one step, interprets the contract and shows that the queue is a log of
    its messages. \<open>Ring_Concurrent\<close> splits
    \<^verbatim>\<open>write\<close> and \<^verbatim>\<open>read\<close> into single accesses to shared memory and interleaves one writer with any
    number of readers.
  \<^item> \<open>Cache_Entry\<close>, \<open>Producer\<close>, \<open>Consumer\<close>: \<^verbatim>\<open>struct CacheEntry\<close> and the two classes of \<^verbatim>\<open>cache_entry.h\<close>
    and \<^verbatim>\<open>cache_entry.cc\<close>, method by method. \<open>Codec\<close> is the block format as pure functions and \<open>Decoder\<close>
    the parsers as automata on messages. \<open>Streaming\<close> and \<open>Trailers\<close> show that the reader refines them
    under interference, \<open>Serving\<close> and \<open>Storing\<close> put reader and writer together. \<open>Writer_Steps\<close> is the producer
    as a machine whose steps are single writes into a buffer, so that a reader can meet an entry in the
    middle of a call. \<open>Divergence\<close> shows when the busy-waiting loops never end. \<open>Constructor_Race\<close> interleaves the constructors of consumers, which
    initialise a static block.
  \<^item> \<open>Envoy_Api\<close>: Envoy's header maps, an arbitrary type \<open>'h\<close> with a record of the functions that are
    called on it, passed to every definition as \<open>api\<close>. The laws needed (iteration yields what was added,
    a new map is empty, a copy has the entries of the original) are hypotheses (\<open>resp_ok\<close>, \<open>drains\<close>,
    \<open>copies_entries\<close>); \<open>list_api\<close> satisfies them.
  \<^item> \<open>Lru_Cache\<close>: \<^verbatim>\<open>http_lru_ram_cache.h\<close> and \<^verbatim>\<open>http_lru_ram_cache.cc\<close>, with addresses for the nodes of the
    list and of the map, so that a stale iterator is a fault. \<open>Lru_Race\<close> interleaves its critical sections;
    there an insertion that the hash table has no room for rehashes it and invalidates the iterators of the map.
    \<open>Lru_Growth\<close> is the case in which nothing is erased.
  \<^item> \<open>Config\<close>: \<^verbatim>\<open>http_cache_rc_config.h\<close>, \<^verbatim>\<open>http_cache_rc_config_factory.cc\<close>, \<^verbatim>\<open>http_cache_rc.proto\<close>.
  \<^item> \<open>Http_Cache_Filter\<close>: \<^verbatim>\<open>http_cache_rc_filter.h\<close> and \<^verbatim>\<open>http_cache_rc_filter.cc\<close>, one definition per
    callback and helper. The static maps, the heaps of entries and wrappers, and the calls made on decoder
    callbacks (\<open>delivered_m\<close>, one record for each \<^verbatim>\<open>serveCachedResponse\<close> that has returned) are the record
    \<open>shared\<close>; what other threads do during a wait or a
    read, and which element \<^verbatim>\<open>begin()\<close> of a hash map is, are the record \<open>environ\<close>.
  \<^item> \<open>Coalescing\<close>: the invariant \<open>rc_inv\<close> of the groups and the facts on single callbacks. \<open>Request_Flow\<close>:
    whole requests, misses, hits, coalesced ones. \<open>Other_Threads\<close>: waits and groups of other threads, and
    the destructor of a filter.
  \<^item> \<open>Coalescing_System\<close>: the step relation \<open>rc_step\<close> whose steps are callbacks of any number of filters
    on any number of threads, with waits split into their start and their end.
    \<open>Coalescing_Invariant\<close>: its invariant and the preservation lemma of each step. \<open>Waiting_Threads\<close>: what
    follows for threads and requests. \<open>Coalescing_Spec\<close>: a small specification of request coalescing
    (who leads which key, which requests are open, which threads are blocked) and the simulation that
    shows that \<open>rc_step\<close> implements it. \<open>Heap_Typing\<close>: the pointers to cache entries in the shared state
    and in the filters are valid. \<open>Key_Isolation\<close>: no entry is within the reach of two keys, and each has
    one writer. \<open>Stream_Reset\<close>: runs in which filters are destroyed with their response
    in flight. \<open>Stranded_Groups\<close>: what follows a response whose status is no number.

  \<^bold>\<open>What is shown.\<close> A ring buffer is a log: what was written is read back by every later read, also when the
  single accesses interleave, and no read is torn. What the producer has written is after each of its steps a
  prefix of the finished entry, and a reader that starts at any of them makes exactly the calls of a replay of
  the response, if the writer finishes: the calls of the response, with maps that have the same entries, and
  after trailers a second, empty \<^verbatim>\<open>encodeTrailers\<close>. The cache implements LRU and never returns a stale entry;
  lookups may interleave freely, insertions of new keys as long as the capacity suffices, and lookups beside
  them as long as the hash table has room. A miss followed by a hit replays the response; coalesced requests
  get the response of their group, and so do waiting and deferred ones if their wait ends with the announcement
  of the group. In every reachable state of the whole system every group has one response in flight, every
  stopped request that has not been served or timed out is in exactly one list, no thread waits for a thread
  that waits, no callback faults on the maps, and every pointer to an entry is valid and of use for one key
  only; these runs are runs of the specification of coalescing. A request counts as served when the log
  \<open>delivered_m\<close> has gained a record of it.

  Other theorems show where the program falls short: an entry whose response was reset or has trailers but no
  body hangs its readers; a lookup uses an invalid iterator when an eviction or a rehash comes in between, and
  two evictions use an erased node; a timeout leaves a request unanswered; after a status that is no number the
  group is never announced, and requests on the leader's thread make it spin forever; cached trailers are
  encoded twice; a kept request that was reset is a null pointer; the static block can be used before it is
  filled; the status code is cut to 16 bits; keys collide; a leader that is reset blocks its key for good.

  \<^bold>\<open>Bounds.\<close> Loops of the source that may not end are \<open>partial_function (option)\<close>, so that returning is a
  theorem. There is no fuel in the model. The runs \<open>w_run\<close> and \<open>r_run\<close> of \<open>Ring_Concurrent\<close> count accesses: a
  write of \<open>m\<close> bytes has at most \<open>m + 8\<close> and a read at most 68; \<open>run_turns\<close>, \<open>ctor_run\<close> and \<open>ring_turns\<close>
  follow a finite list of turns. \<open>w_steps n\<close> makes \<open>n\<close> steps of the producer, and \<open>write_finishes\<close> says that
  some number of them finishes the response.

  \<^bold>\<open>Assumptions.\<close> Memory accesses take effect in program order: the release stores and acquire loads of a
  block's version publish its size and data, and mutexes their critical sections. When reader and writer of an
  entry interleave, a call of \<^verbatim>\<open>RingBufferQueue::write\<close> or \<^verbatim>\<open>read\<close> is one access; \<open>Ring_Concurrent\<close> looks inside. In
  \<open>rc_step\<close> a callback that does not wait is one step as far as the maps of groups are concerned, and it is a step
  only if it returns (callbacks that fault or spin are the subject of other theorems); entries may grow during
  any read. A wait ends when the entry is announced or by the timeout, at any time. Allocation does not fail.
  The hash table of \<open>Lru_Race\<close> holds \<open>room\<close> elements without rehashing, a parameter that stays the same in a run.

  \<^bold>\<open>Not modelled.\<close> Logging, the destructor of the ring buffer (it frees memory), \<^verbatim>\<open>onStreamComplete\<close>
  (empty), the registration of the filter with Envoy, \<^verbatim>\<open>threadIDToStr\<close> (used for logging only). The
  destruction of a filter with its response in flight is a step of \<open>Stream_Reset\<close>; that the destructor of the
  last filter that owns a wrapper makes the weak pointers to it expire is \<open>destroy_HttpCacheRCFilter\<close> in
  \<open>Other_Threads\<close>, for single callbacks and not as a step of the system; that the leader's list then holds a
  dangling decoder callback is not modelled. Tests, build files and shell
  scripts have no program logic.
\<close>

end
